(* ===== verification/Rebalancer_Prelude.thy ===== *)
theory Rebalancer_Prelude
  imports Complex_Main "HOL-Library.Multiset" "HOL-Library.Word"
begin

text \<open>
  Shared vocabulary of the development: the identifiers of the entities, the
  error values that stand for exceptions and failed checks, the result type of
  fallible operations, and the generic facts on lists, maps and three-way
  comparisons that the component theories use.
\<close>

section \<open>Identifiers\<close>

text \<open>Entity identifiers of the solver are dense indices (\<open>asIndex()\<close>).\<close>

type_synonym ObjectId = nat
type_synonym ContainerId = nat

section \<open>Errors and fallible results\<close>

text \<open>
  \<open>Check_failed\<close> is an aborting check (\<open>FOLLY_SAFE_CHECK\<close>), \<open>Out_of_range\<close> is
  the exception of \<open>at()\<close>, \<open>Runtime_error\<close> and \<open>Invalid_argument\<close> are the
  standard exceptions the code throws, \<open>Undefined_behaviour\<close> marks an
  operation outside its precondition (dereferencing an end iterator, popping an
  empty container).
\<close>

datatype error =
    Check_failed
  | Out_of_range
  | Runtime_error
  | Invalid_argument
  | Undefined_behaviour

type_synonym 'a result = "error + 'a"

definition bindE :: "'a result \<Rightarrow> ('a \<Rightarrow> 'b result) \<Rightarrow> 'b result" where
  "bindE r f = (case r of Inl e \<Rightarrow> Inl e | Inr x \<Rightarrow> f x)"

fun foldE :: "('a \<Rightarrow> 's \<Rightarrow> 's result) \<Rightarrow> 'a list \<Rightarrow> 's \<Rightarrow> 's result" where
  "foldE f [] s = Inr s"
| "foldE f (x # xs) s = bindE (f x s) (foldE f xs)"

definition vec_at :: "'a list \<Rightarrow> nat \<Rightarrow> 'a result" where
  "vec_at xs i = (if i < length xs then Inr (xs ! i) else Inl Out_of_range)"

named_theorems result_simps

lemma bindE_Inl [simp, result_simps]: "bindE (Inl e) f = Inl e"
  by (simp add: bindE_def)

lemma bindE_Inr [simp, result_simps]: "bindE (Inr x) f = f x"
  by (simp add: bindE_def)

lemma bindE_eq_Inr: "bindE r f = Inr y \<longleftrightarrow> (\<exists>x. r = Inr x \<and> f x = Inr y)"
  by (cases r) auto

lemma foldE_append: "foldE f (xs @ ys) s = bindE (foldE f xs s) (foldE f ys)"
  by (induction xs arbitrary: s) (auto simp: bindE_def split: sum.splits)

lemma foldE_total:
  assumes "\<And>x s. x \<in> set xs \<Longrightarrow> I s \<Longrightarrow> \<exists>s'. f x s = Inr s' \<and> I s'" and "I s"
  shows "\<exists>s'. foldE f xs s = Inr s' \<and> I s'"
  using assms
proof (induction xs arbitrary: s)
  case (Cons x xs)
  from Cons.prems(1)[of x s] Cons.prems(2) obtain s1 where "f x s = Inr s1" "I s1" by auto
  with Cons.IH[of s1] Cons.prems(1) show ?case by auto
qed simp

lemma vec_at_ok [simp, result_simps]: "i < length xs \<Longrightarrow> vec_at xs i = Inr (xs ! i)"
  by (simp add: vec_at_def)

section \<open>Three-way comparisons\<close>

text \<open>A comparator returns a negative, zero or positive integer.\<close>

definition three_way :: "'a::linorder \<Rightarrow> 'a \<Rightarrow> int" where
  "three_way a b = (if a < b then - 1 else if b < a then 1 else 0)"

lemma three_way_antisym: "three_way b a = - three_way a b"
  by (auto simp: three_way_def)

lemma three_way_neg_iff [simp]: "three_way a b < 0 \<longleftrightarrow> a < b"
  by (auto simp: three_way_def)

lemma three_way_zero_iff [simp]: "three_way a b = 0 \<longleftrightarrow> a = b"
  by (auto simp: three_way_def)

end
