(* ===== verification/Tolerances.thy ===== *)
theory Tolerances
  imports Rebalancer_Prelude
begin

text \<open>
  Comparison of doubles up to a tolerance: \<open>PrecisionImpl\<close>
  (\<open>algopt_common/Precision.cpp\<close>), its wrapper with the default tolerances
  (\<open>algopt_common/Precision.h\<close>) and the wrapper that carries the tolerances of
  the universe (\<open>solver/utils/Precision.h\<close>). Doubles are reals; the quotient
  0/0, a NaN that compares false, is written out.
\<close>

section \<open>Definitions\<close>

record PrecisionTolerances =
  absolute :: real
  relative :: real

definition defaultTolerances :: PrecisionTolerances where
  "defaultTolerances = \<lparr>absolute = 1 / 10 ^ 10, relative = 1 / 10 ^ 10\<rparr>"

definition compare :: "PrecisionTolerances \<Rightarrow> real \<Rightarrow> real \<Rightarrow> int" where
  "compare tolerances value1 value2 =
    (let diff = value1 - value2 in
     if \<bar>diff\<bar> < absolute tolerances then 0
     else if \<bar>value1\<bar> + \<bar>value2\<bar> \<noteq> 0
       \<and> \<bar>diff\<bar> * 2 / (\<bar>value1\<bar> + \<bar>value2\<bar>) < relative tolerances then 0
     else if diff > 0 then 1 else - 1)"

text \<open>\<open>std::round\<close> rounds half away from zero.\<close>

definition std_round :: "real \<Rightarrow> real" where
  "std_round x = (if x \<ge> 0 then of_int \<lfloor>x + 1 / 2\<rfloor> else of_int \<lceil>x - 1 / 2\<rceil>)"

definition isZero :: "PrecisionTolerances \<Rightarrow> real \<Rightarrow> bool" where
  "isZero tolerances v \<longleftrightarrow> \<bar>v\<bar> < absolute tolerances"

definition trim :: "PrecisionTolerances \<Rightarrow> real \<Rightarrow> real" where
  "trim tolerances v = (if isZero tolerances \<bar>v\<bar> then 0 else v)"

definition snap :: "real \<Rightarrow> real \<Rightarrow> real" where
  "snap v tolerance = (if \<bar>std_round v - v\<bar> < tolerance then std_round v else v)"

definition isInteger :: "PrecisionTolerances \<Rightarrow> real \<Rightarrow> bool" where
  "isInteger tolerances v \<longleftrightarrow> compare tolerances (std_round v) v = 0"

definition isZeroOrOne :: "PrecisionTolerances \<Rightarrow> real \<Rightarrow> bool" where
  "isZeroOrOne tolerances v \<longleftrightarrow> compare tolerances v 0 = 0 \<or> compare tolerances v 1 = 0"

definition isStrictlyGtZero :: "PrecisionTolerances \<Rightarrow> real \<Rightarrow> bool" where
  "isStrictlyGtZero tolerances v \<longleftrightarrow> compare tolerances v 0 = 1"

definition isstrictlyGreater :: "PrecisionTolerances \<Rightarrow> real \<Rightarrow> real \<Rightarrow> bool" where
  "isstrictlyGreater tolerances val1 val2 \<longleftrightarrow> compare tolerances val1 val2 = 1"

definition isEqual :: "PrecisionTolerances \<Rightarrow> real \<Rightarrow> real \<Rightarrow> bool" where
  "isEqual tolerances val1 val2 \<longleftrightarrow> compare tolerances val1 val2 = 0"

definition isStrictlyLesser :: "PrecisionTolerances \<Rightarrow> real \<Rightarrow> real \<Rightarrow> bool" where
  "isStrictlyLesser tolerances val1 val2 \<longleftrightarrow> compare tolerances val1 val2 = - 1"

definition isLesserOrEqual :: "PrecisionTolerances \<Rightarrow> real \<Rightarrow> real \<Rightarrow> bool" where
  "isLesserOrEqual tolerances val1 val2 \<longleftrightarrow> compare tolerances val1 val2 \<le> 0"

definition isGreaterOrEqual :: "PrecisionTolerances \<Rightarrow> real \<Rightarrow> real \<Rightarrow> bool" where
  "isGreaterOrEqual tolerances val1 val2 \<longleftrightarrow> compare tolerances val1 val2 \<ge> 0"

section \<open>The comparison is a semiorder\<close>

lemma compare_range: "compare t a b \<in> {- 1, 0, 1}"
  by (simp add: compare_def Let_def)

lemma compare_one_less: "compare t a b = 1 \<Longrightarrow> b < a"
  by (simp add: compare_def Let_def split: if_splits)

lemma compare_refl: "0 < absolute t \<Longrightarrow> compare t a a = 0"
  by (simp add: compare_def)

lemma compare_swap: "0 < absolute t \<Longrightarrow> compare t b a = - compare t a b"
  by (auto simp: compare_def Let_def abs_minus_commute add.commute)

lemma compare_neg_less: "0 < absolute t \<Longrightarrow> compare t a b = - 1 \<Longrightarrow> a < b"
  using compare_one_less[of t b a] compare_swap[of t a b] by simp

text \<open>The relative difference of \<open>a < c\<close> grows when \<open>a\<close> decreases.\<close>

lemma relative_difference_mono:
  fixes a b c :: real
  assumes "a \<le> b" "b < c"
  shows "(c - b) * 2 / (\<bar>b\<bar> + \<bar>c\<bar>) \<le> (c - a) * 2 / (\<bar>a\<bar> + \<bar>c\<bar>)"
proof -
  have pos: "0 < \<bar>b\<bar> + \<bar>c\<bar>" "0 < \<bar>a\<bar> + \<bar>c\<bar>" using assms by auto
  have "(c - b) * (\<bar>a\<bar> + \<bar>c\<bar>) \<le> (c - a) * (\<bar>b\<bar> + \<bar>c\<bar>)"
  proof (cases "0 \<le> c")
    case True
    then have "(c - a) * (\<bar>b\<bar> + \<bar>c\<bar>) - (c - b) * (\<bar>a\<bar> + \<bar>c\<bar>)
        = c * (b - a + \<bar>b\<bar> - \<bar>a\<bar>) + (b * \<bar>a\<bar> - a * \<bar>b\<bar>)"
      by (simp add: algebra_simps)
    moreover have "0 \<le> c * (b - a + \<bar>b\<bar> - \<bar>a\<bar>)" using True assms by (intro mult_nonneg_nonneg) auto
    moreover have "0 \<le> b * \<bar>a\<bar> - a * \<bar>b\<bar>" using assms
      by (cases "0 \<le> a"; cases "0 \<le> b") (auto simp: algebra_simps mult_nonneg_nonpos mult_nonpos_nonneg)
    ultimately show ?thesis by linarith
  next
    case False
    then have "\<bar>a\<bar> = - a" "\<bar>b\<bar> = - b" "\<bar>c\<bar> = - c" using assms by auto
    moreover have "0 \<le> (b - a) * (- c)" using False assms by (intro mult_nonneg_nonneg) auto
    ultimately show ?thesis by (simp add: algebra_simps)
  qed
  then have "(c - b) * 2 * (\<bar>a\<bar> + \<bar>c\<bar>) \<le> (c - a) * 2 * (\<bar>b\<bar> + \<bar>c\<bar>)" by linarith
  with pos show ?thesis by (metis (no_types) frac_le_eq[OF less_imp_neq[symmetric] less_imp_neq[symmetric]] diff_le_0_iff_le divide_nonpos_pos mult_pos_pos)
qed

lemma compare_neg_iff:
  assumes "0 < absolute t"
  shows "compare t a c = - 1 \<longleftrightarrow>
    a < c \<and> absolute t \<le> c - a \<and> relative t \<le> (c - a) * 2 / (\<bar>a\<bar> + \<bar>c\<bar>)"
proof (cases "a < c")
  case True
  then have "\<bar>a\<bar> + \<bar>c\<bar> \<noteq> 0" "\<bar>a - c\<bar> = c - a" by auto
  with True show ?thesis by (auto simp: compare_def Let_def not_less)
next
  case False
  then show ?thesis using compare_neg_less[OF assms] by blast
qed

lemma compare_neg_extend_left:
  assumes "0 < absolute t" "a \<le> b" "compare t b c = - 1"
  shows "compare t a c = - 1"
  using assms relative_difference_mono[of a b c] by (auto simp: compare_neg_iff)

lemma relative_difference_minus:
  "((- a) - (- c)) * 2 / (\<bar>- c\<bar> + \<bar>- a\<bar>) = (c - a) * 2 / (\<bar>a\<bar> + \<bar>c :: real\<bar>)"
  by (simp add: add.commute)

lemma compare_neg_extend_right:
  assumes "0 < absolute t" "b \<le> c" "compare t a b = - 1"
  shows "compare t a c = - 1"
proof -
  have "a < b" using assms by (simp add: compare_neg_iff)
  then have "(b - a) * 2 / (\<bar>a\<bar> + \<bar>b\<bar>) \<le> (c - a) * 2 / (\<bar>a\<bar> + \<bar>c\<bar>)"
    using relative_difference_mono[of "- c" "- b" "- a"] assms(2) by (simp add: add.commute)
  with assms show ?thesis by (auto simp: compare_neg_iff)
qed

lemma isStrictlyLesser_trans:
  assumes "0 < absolute t" "isStrictlyLesser t a b" "isStrictlyLesser t b c"
  shows "isStrictlyLesser t a c"
  using assms compare_neg_extend_left[of t a b c] compare_neg_less[of t a b]
  by (simp add: isStrictlyLesser_def)

lemma isstrictlyGreater_iff_lesser:
  "0 < absolute t \<Longrightarrow> isstrictlyGreater t a b \<longleftrightarrow> isStrictlyLesser t b a"
  using compare_swap[of t a b] by (auto simp: isstrictlyGreater_def isStrictlyLesser_def)

lemma compare_eq_between:
  assumes "0 < absolute t" "a \<le> b" "b \<le> c" "compare t a c = 0"
  shows "compare t a b = 0" "compare t b c = 0"
proof -
  have "compare t a b \<noteq> - 1" "compare t b c \<noteq> - 1"
    using assms compare_neg_extend_right[of t b c a] compare_neg_extend_left[of t a b c] by auto
  moreover have "compare t a b \<noteq> 1" "compare t b c \<noteq> 1"
    using assms compare_one_less[of t a b] compare_one_less[of t b c] by auto
  ultimately show "compare t a b = 0" "compare t b c = 0"
    using compare_range[of t a b] compare_range[of t b c] by auto
qed

section \<open>Trimming and snapping\<close>

lemma std_round_near: "\<bar>std_round x - x\<bar> \<le> 1 / 2"
  using floor_correct[of "x + 1 / 2"] ceiling_correct[of "x - 1 / 2"]
  unfolding std_round_def abs_le_iff by (cases "0 \<le> x") (simp_all, linarith+)

lemma std_round_Ints: "std_round x \<in> \<int>"
  by (simp add: std_round_def)

lemma snap_near: "0 < tolerance \<Longrightarrow> \<bar>snap v tolerance - v\<bar> < tolerance"
  by (simp add: snap_def)

lemma trim_near: "0 < absolute t \<Longrightarrow> \<bar>trim t v - v\<bar> < absolute t"
  by (simp add: trim_def isZero_def)

lemma std_round_int: "std_round (of_int k) = of_int k"
  unfolding std_round_def by (auto simp: floor_eq_iff ceiling_eq_iff)

lemma std_round_unique:
  assumes "\<bar>of_int k - x\<bar> < 1 / 2"
  shows "std_round x = of_int k"
proof -
  have "\<lfloor>x + 1 / 2\<rfloor> = k" "\<lceil>x - 1 / 2\<rceil> = k"
    using assms by (simp_all only: floor_eq_iff ceiling_eq_iff) linarith+
  then show ?thesis by (simp add: std_round_def)
qed

end
