(* ===== verification/Bit_Set.thy ===== *)
theory Bit_Set
  imports Rebalancer_Prelude
begin

text \<open>
  \<open>DynamicBitSet\<close> (\<open>algopt_common/DynamicBitSet.h\<close>): a bit set of fixed size
  over 64-bit blocks. Every operation is a definition over the block vector; the
  abstraction \<open>bits\<close> reads it as a set of indices. A failed range check aborts
  the program and is the value \<open>Inl Check_failed\<close>. The two-instruction body of
  \<open>atomicSet\<close> is also given as a step relation over threads.
\<close>

unbundle bit_operations_syntax

section \<open>Definitions\<close>

type_synonym block_type = "64 word"

record DynamicBitSet =
  blocks :: "block_type list"
  numBits :: nat

definition kBitsPerBlock :: nat where
  "kBitsPerBlock = 64"

definition mkDynamicBitSet :: "nat \<Rightarrow> DynamicBitSet" where
  "mkDynamicBitSet n =
    \<lparr>blocks = replicate (n div kBitsPerBlock + (if n mod kBitsPerBlock \<noteq> 0 then 1 else 0)) 0,
     numBits = n\<rparr>"

definition singleBitMask :: "nat \<Rightarrow> block_type" where
  "singleBitMask i = push_bit (i mod kBitsPerBlock) 1"

definition block_of :: "DynamicBitSet \<Rightarrow> nat \<Rightarrow> block_type" where
  "block_of s i = blocks s ! (i div kBitsPerBlock)"

definition put_block :: "nat \<Rightarrow> block_type \<Rightarrow> DynamicBitSet \<Rightarrow> DynamicBitSet" where
  "put_block i w s = s\<lparr>blocks := (blocks s)[i div kBitsPerBlock := w]\<rparr>"

definition bs_set :: "nat \<Rightarrow> DynamicBitSet \<Rightarrow> (bool \<times> DynamicBitSet) result" where
  "bs_set i s =
    (if i < numBits s then
       if block_of s i AND singleBitMask i \<noteq> 0 then Inr (False, s)
       else Inr (True, put_block i (block_of s i OR singleBitMask i) s)
     else Inl Check_failed)"

definition atomicSet :: "nat \<Rightarrow> DynamicBitSet \<Rightarrow> DynamicBitSet result" where
  "atomicSet i s =
    (if i < numBits s then
       if block_of s i AND singleBitMask i \<noteq> 0 then Inr s
       else Inr (put_block i (block_of s i OR singleBitMask i) s)
     else Inl Check_failed)"

definition bs_clear :: "nat \<Rightarrow> DynamicBitSet \<Rightarrow> DynamicBitSet result" where
  "bs_clear i s =
    (if i < numBits s then Inr (put_block i (block_of s i AND NOT (singleBitMask i)) s)
     else Inl Check_failed)"

definition or_block :: "block_type \<Rightarrow> block_type \<Rightarrow> block_type" where
  "or_block blk sourceBlock =
    (if sourceBlock = 0 then blk
     else if blk AND sourceBlock = sourceBlock then blk
     else blk OR sourceBlock)"

definition atomicOrFrom :: "DynamicBitSet \<Rightarrow> DynamicBitSet \<Rightarrow> DynamicBitSet result" where
  "atomicOrFrom other s =
    (if numBits s = numBits other then
       Inr (s\<lparr>blocks := map2 or_block (blocks s) (blocks other)\<rparr>)
     else Inl Check_failed)"

definition bs_mergeFrom :: "DynamicBitSet \<Rightarrow> DynamicBitSet \<Rightarrow> DynamicBitSet result" where
  "bs_mergeFrom other s =
    (if numBits s = numBits other then Inr (s\<lparr>blocks := map2 (OR) (blocks s) (blocks other)\<rparr>)
     else Inl Check_failed)"

definition isSet :: "nat \<Rightarrow> DynamicBitSet \<Rightarrow> bool result" where
  "isSet i s =
    (if i < numBits s then Inr (block_of s i AND singleBitMask i \<noteq> 0) else Inl Check_failed)"

definition bs_any :: "DynamicBitSet \<Rightarrow> bool" where
  "bs_any s \<longleftrightarrow> list_ex (\<lambda>blk. blk \<noteq> 0) (blocks s)"

text \<open>\<open>std::countr_zero\<close>: the number of consecutive zero bits from the least significant one.\<close>

definition countr_zero :: "block_type \<Rightarrow> nat" where
  "countr_zero w = length (takeWhile (\<lambda>n. \<not> bit w n) [0..<64])"

lemma bit_countr_zero:
  assumes "w \<noteq> 0"
  shows "bit w (countr_zero w)" "\<And>n. n < countr_zero w \<Longrightarrow> \<not> bit w n"
proof -
  obtain m where m: "bit w m" using assms by (metis bit_eqI bit_0_eq bot_apply bot_bool_def)
  then have "m < 64" using bit_imp_le_length[of w m] by simp
  then have "takeWhile (\<lambda>n. \<not> bit w n) [0..<64] \<noteq> [0..<64]"
    using m by (auto simp: takeWhile_eq_all_conv)
  then have len: "countr_zero w < length [0..<64]"
    unfolding countr_zero_def by (metis le_neq_implies_less length_takeWhile_le takeWhile_eq_take take_all_iff order_refl)
  show "bit w (countr_zero w)"
    using nth_length_takeWhile[of "\<lambda>n. \<not> bit w n" "[0..<64]"] len by (simp add: countr_zero_def)
  show "\<not> bit w n" if "n < countr_zero w" for n
    using that len nth_mem[of n "takeWhile (\<lambda>n. \<not> bit w n) [0..<64]"]
      takeWhile_nth[of n "\<lambda>n. \<not> bit w n" "[0..<64]"] set_takeWhileD
    by (fastforce simp: countr_zero_def)
qed

text \<open>\<open>block &= block - 1\<close> clears exactly the least significant set bit.\<close>

lemma clear_lowest_bit:
  assumes "w \<noteq> (0 :: block_type)"
  shows "w AND (w - 1) = unset_bit (countr_zero w) w"
proof -
  let ?k = "countr_zero w"
  let ?r = "unset_bit ?k w"
  have low: "\<not> bit w n" if "n < ?k" for n using bit_countr_zero[OF assms] that by blast
  have bk: "bit w ?k" using bit_countr_zero[OF assms] by blast
  have r: "?r = w - 2 ^ ?k" using bk by (simp add: unset_bit_eq)
  then have "w - 1 = ?r + mask ?k" by (simp add: mask_eq_exp_minus_1)
  also have "\<dots> = ?r OR mask ?k"
    by (rule disjunctive_add) (auto simp: bit_unset_bit_iff bit_mask_iff low)
  finally show ?thesis
    by (auto intro!: bit_eqI simp: bit_and_iff bit_or_iff bit_unset_bit_iff bit_mask_iff low)
qed

lemma bits_of_block: "{n. bit (w :: block_type) n} \<subseteq> {..<64}"
  using bit_imp_le_length[of w] by auto

function visit_block :: "nat \<Rightarrow> block_type \<Rightarrow> nat list" where
  "visit_block baseIndex w =
    (if w = 0 then []
     else (baseIndex + countr_zero w) # visit_block baseIndex (w AND (w - 1)))"
  by pat_completeness auto
termination
proof (relation "measure (\<lambda>(_, w). card {n. bit w n})")
  fix baseIndex :: nat and w :: block_type
  assume w: "w \<noteq> 0"
  have "{n. bit (w AND (w - 1)) n} \<subset> {n. bit w n}"
    using bit_countr_zero(1)[OF w] by (auto simp: clear_lowest_bit[OF w] bit_unset_bit_iff)
  then have "card {n. bit (w AND (w - 1)) n} < card {n. bit w n}"
    by (intro psubset_card_mono) (auto intro: finite_subset[OF bits_of_block])
  then show "((baseIndex, w AND (w - 1)), baseIndex, w) \<in> measure (\<lambda>(_, w). card {n. bit w n})"
    by simp
qed simp

declare visit_block.simps [simp del]

fun visit_blocks :: "nat \<Rightarrow> block_type list \<Rightarrow> nat list" where
  "visit_blocks baseIndex [] = []"
| "visit_blocks baseIndex (w # ws) =
     visit_block baseIndex w @ visit_blocks (baseIndex + kBitsPerBlock) ws"

text \<open>The indices handed to the callback, in order.\<close>

definition forEachSetBit :: "DynamicBitSet \<Rightarrow> nat list" where
  "forEachSetBit s = visit_blocks 0 (blocks s)"

subsection \<open>Concurrent calls of atomicSet\<close>

text \<open>
  A thread is the list of its remaining instructions. A call \<open>atomicSet(i)\<close>
  is a relaxed load of the block, followed, unless the load saw the bit, by an
  atomic \<open>fetch_or\<close>. A relaxed load may return an older value of the block, so
  not seeing the bit is always possible; seeing it is possible only when it is set.
\<close>

datatype instr = Load nat | FetchOr nat

inductive atomic_step ::
  "DynamicBitSet \<times> instr list list \<Rightarrow> DynamicBitSet \<times> instr list list \<Rightarrow> bool" where
  load_seen: "\<lbrakk> t < length ts; ts ! t = Load i # rest; i < numBits s;
      block_of s i AND singleBitMask i \<noteq> 0 \<rbrakk>
    \<Longrightarrow> atomic_step (s, ts) (s, ts[t := rest])"
| load_unseen: "\<lbrakk> t < length ts; ts ! t = Load i # rest; i < numBits s \<rbrakk>
    \<Longrightarrow> atomic_step (s, ts) (s, ts[t := FetchOr i # rest])"
| fetch_or: "\<lbrakk> t < length ts; ts ! t = FetchOr i # rest; i < numBits s \<rbrakk>
    \<Longrightarrow> atomic_step (s, ts)
          (put_block i (block_of s i OR singleBitMask i) s, ts[t := rest])"

section \<open>Abstraction and invariant\<close>

definition bits :: "DynamicBitSet \<Rightarrow> nat set" where
  "bits s = {i. i < kBitsPerBlock * length (blocks s) \<and> bit (block_of s i) (i mod kBitsPerBlock)}"

definition bs_inv :: "DynamicBitSet \<Rightarrow> bool" where
  "bs_inv s \<longleftrightarrow>
    length (blocks s) = numBits s div kBitsPerBlock + (if numBits s mod kBitsPerBlock \<noteq> 0 then 1 else 0)
    \<and> bits s \<subseteq> {..<numBits s}"

named_theorems bit_set_simps

lemma mask_test: "w AND singleBitMask i \<noteq> 0 \<longleftrightarrow> bit w (i mod kBitsPerBlock)"
  by (simp add: singleBitMask_def kBitsPerBlock_def and_exp_eq_0_iff_not_bit push_bit_eq_mult)

lemma bit_singleBitMask: "bit (singleBitMask i) n \<longleftrightarrow> n = i mod kBitsPerBlock"
proof -
  have "i mod 64 < 64" by simp
  then show ?thesis
    by (auto simp: singleBitMask_def kBitsPerBlock_def push_bit_eq_mult bit_exp_iff possible_bit_word)
qed

lemma block_index_less:
  "bs_inv s \<Longrightarrow> i < numBits s \<Longrightarrow> i div kBitsPerBlock < length (blocks s)"
  by (auto simp: bs_inv_def kBitsPerBlock_def)

lemma index_less_capacity:
  "bs_inv s \<Longrightarrow> i < numBits s \<Longrightarrow> i < kBitsPerBlock * length (blocks s)"
  using block_index_less[of s i] by (simp add: kBitsPerBlock_def)

lemma length_put_block [simp]: "length (blocks (put_block i w s)) = length (blocks s)"
  by (simp add: put_block_def)

lemma numBits_put_block [simp]: "numBits (put_block i w s) = numBits s"
  by (simp add: put_block_def)

lemma block_of_put_block:
  "i div kBitsPerBlock < length (blocks s) \<Longrightarrow>
   block_of (put_block i w s) j =
     (if j div kBitsPerBlock = i div kBitsPerBlock then w else block_of s j)"
  by (simp add: block_of_def put_block_def)

lemma same_index:
  "j div kBitsPerBlock = i div kBitsPerBlock \<Longrightarrow> j mod kBitsPerBlock = i mod kBitsPerBlock \<Longrightarrow> i = j"
  by (metis div_mult_mod_eq)

lemma bits_set_block:
  assumes "bs_inv s" "i < numBits s"
  shows "bits (put_block i (block_of s i OR singleBitMask i) s) = insert i (bits s)"
  using assms block_index_less[OF assms] index_less_capacity[OF assms]
  by (auto simp: bits_def block_of_put_block bit_or_iff bit_singleBitMask
      split: if_splits dest: same_index) (simp_all add: block_of_def)

lemma bits_clear_block:
  assumes "bs_inv s" "i < numBits s"
  shows "bits (put_block i (block_of s i AND NOT (singleBitMask i)) s) = bits s - {i}"
  using assms block_index_less[OF assms] index_less_capacity[OF assms]
  by (auto simp: bits_def block_of_put_block bit_and_iff bit_not_iff bit_singleBitMask
      possible_bit_word split: if_splits dest: same_index) (simp_all add: block_of_def kBitsPerBlock_def)

lemma or_block_eq: "or_block a b = a OR b"
  by (simp add: or_block_def) (metis or.commute and.commute bit_eq_iff bit_and_iff bit_or_iff)

lemma bits_map2_or:
  assumes "length (blocks s) = length (blocks u)"
  shows "bits (s\<lparr>blocks := map2 (OR) (blocks s) (blocks u)\<rparr>) = bits s \<union> bits u"
  using assms by (auto simp: bits_def block_of_def bit_or_iff kBitsPerBlock_def)

lemma bs_inv_equal_length:
  "bs_inv s \<Longrightarrow> bs_inv u \<Longrightarrow> numBits s = numBits u \<Longrightarrow> length (blocks s) = length (blocks u)"
  by (simp add: bs_inv_def)

lemma bs_inv_put_block:
  "bs_inv s \<Longrightarrow> bits (put_block i w s) \<subseteq> {..<numBits s} \<Longrightarrow> bs_inv (put_block i w s)"
  by (simp add: bs_inv_def)

lemma block_nonzero_iff: "(w :: block_type) \<noteq> 0 \<longleftrightarrow> (\<exists>n < 64. bit w n)"
  using bit_countr_zero(1)[of w] bit_imp_le_length[of w] by fastforce

subsection \<open>Functional behaviour of the operations\<close>

lemma bits_zero:
  assumes "\<forall>w \<in> set (blocks s). w = 0"
  shows "bits s = {}"
proof -
  have "block_of s i = 0" if "i < kBitsPerBlock * length (blocks s)" for i
    using that assms by (simp add: block_of_def kBitsPerBlock_def less_mult_imp_div_less mult.commute)
  then show ?thesis by (auto simp: bits_def)
qed

lemma mkDynamicBitSet_correct [bit_set_simps]:
  "bs_inv (mkDynamicBitSet n)" "bits (mkDynamicBitSet n) = {}" "numBits (mkDynamicBitSet n) = n"
  using bits_zero[of "mkDynamicBitSet n"] by (auto simp: bs_inv_def mkDynamicBitSet_def)

lemma isSet_correct [bit_set_simps]:
  "bs_inv s \<Longrightarrow> i < numBits s \<Longrightarrow> isSet i s = Inr (i \<in> bits s)"
  using index_less_capacity[of s i] by (simp add: isSet_def mask_test bits_def)

lemma atomicSet_correct:
  assumes "bs_inv s" "i < numBits s"
  shows "\<exists>s'. atomicSet i s = Inr s' \<and> bs_inv s' \<and> numBits s' = numBits s \<and> bits s' = insert i (bits s)"
  using assms index_less_capacity[OF assms] bits_set_block[OF assms]
  by (auto simp: atomicSet_def mask_test bits_def[of s] bs_inv_def insert_absorb)

lemma bs_set_atomicSet:
  "bs_set i s = bindE (isSet i s) (\<lambda>present. bindE (atomicSet i s) (\<lambda>s'. Inr (\<not> present, s')))"
  by (simp add: bs_set_def isSet_def atomicSet_def)

lemma bs_clear_correct:
  assumes "bs_inv s" "i < numBits s"
  shows "\<exists>s'. bs_clear i s = Inr s' \<and> bs_inv s' \<and> numBits s' = numBits s \<and> bits s' = bits s - {i}"
  using assms bits_clear_block[OF assms] by (auto simp: bs_clear_def bs_inv_def)

lemma atomicOrFrom_eq: "atomicOrFrom u s = bs_mergeFrom u s"
proof -
  have "or_block = (OR)" by (simp add: fun_eq_iff or_block_eq)
  then show ?thesis by (simp add: atomicOrFrom_def bs_mergeFrom_def)
qed

lemma bs_mergeFrom_correct:
  assumes "bs_inv s" "bs_inv u" "numBits s = numBits u"
  shows "\<exists>s'. bs_mergeFrom u s = Inr s' \<and> bs_inv s' \<and> numBits s' = numBits s \<and> bits s' = bits s \<union> bits u"
  using assms bits_map2_or[OF bs_inv_equal_length[OF assms]] bs_inv_equal_length[OF assms]
  by (auto simp: bs_mergeFrom_def bs_inv_def)

lemma bs_any_correct [bit_set_simps]: "bs_any s \<longleftrightarrow> bits s \<noteq> {}"
proof
  assume "bs_any s"
  then obtain b n where b: "b < length (blocks s)" "n < 64" "bit (blocks s ! b) n"
    by (auto simp: bs_any_def list_ex_iff in_set_conv_nth block_nonzero_iff)
  then have "b * 64 + n \<in> bits s"
    by (auto simp: bits_def block_of_def kBitsPerBlock_def)
  then show "bits s \<noteq> {}" by blast
next
  assume "bits s \<noteq> {}"
  then obtain i where "i < 64 * length (blocks s)" "bit (blocks s ! (i div 64)) (i mod 64)"
    by (auto simp: bits_def block_of_def kBitsPerBlock_def)
  then have "i div 64 < length (blocks s)" "blocks s ! (i div 64) \<noteq> 0" by auto
  then show "bs_any s" unfolding bs_any_def list_ex_iff using nth_mem by blast
qed

subsection \<open>Enumeration of the set bits\<close>

lemma filter_head:
  assumes "k < n" "P k" "\<And>j. j < k \<Longrightarrow> \<not> P j"
  shows "filter P [0..<n] = k # filter (\<lambda>j. P j \<and> j \<noteq> k) [0..<n]"
proof -
  have split: "[0..<n] = [0..<k] @ k # [Suc k..<n]"
    using assms(1) upt_add_eq_append[of 0 k "n - k"] upt_conv_Cons[of k n] by simp
  have "filter P [0..<k] = []" "filter (\<lambda>j. P j \<and> j \<noteq> k) [0..<k] = []"
    using assms(3) by (auto simp: filter_empty_conv)
  moreover have "filter P [Suc k..<n] = filter (\<lambda>j. P j \<and> j \<noteq> k) [Suc k..<n]"
    by (rule filter_cong) auto
  ultimately show ?thesis using assms(2) unfolding split filter_append by simp
qed

lemma visit_block_filter:
  "visit_block baseIndex w = map ((+) baseIndex) (filter (bit w) [0..<64])"
proof (induction baseIndex w rule: visit_block.induct)
  case (1 baseIndex w)
  show ?case
  proof (cases "w = 0")
    case True
    then show ?thesis by (simp add: visit_block.simps)
  next
    case False
    have "filter (bit (w AND (w - 1))) [0..<64] = filter (\<lambda>j. bit w j \<and> j \<noteq> countr_zero w) [0..<64]"
      by (rule filter_cong) (auto simp: clear_lowest_bit[OF False] bit_unset_bit_iff)
    moreover have "countr_zero w < 64" using bit_countr_zero(1)[OF False] bits_of_block by blast
    ultimately show ?thesis
      using 1[OF False] False bit_countr_zero[OF False] filter_head[of "countr_zero w" 64 "bit w"]
      by (simp add: visit_block.simps[of baseIndex w])
  qed
qed

lemma visit_blocks_filter:
  "visit_blocks baseIndex ws =
    map ((+) baseIndex) (filter (\<lambda>i. bit (ws ! (i div 64)) (i mod 64)) [0..<64 * length ws])"
proof (induction ws arbitrary: baseIndex)
  case (Cons w ws)
  let ?Q = "\<lambda>i. bit ((w # ws) ! (i div 64)) (i mod 64)"
  have split: "[0..<64 * length (w # ws)] = [0..<64] @ map ((+) 64) [0..<64 * length ws]"
    using upt_add_eq_append[of 0 64 "64 * length ws"] map_add_upt[of 64 "64 * length ws"]
    by (simp add: add.commute[of _ "64::nat"])
  have "filter ?Q [0..<64] = filter (bit w) [0..<64]" by (rule filter_cong) auto
  moreover have "filter ?Q (map ((+) 64) [0..<64 * length ws])
      = map ((+) 64) (filter (\<lambda>i. bit (ws ! (i div 64)) (i mod 64)) [0..<64 * length ws])"
    by (simp add: filter_map o_def)
  ultimately show ?case
    unfolding split filter_append map_append
    by (simp add: Cons.IH visit_block_filter kBitsPerBlock_def o_def add.assoc)
qed simp

lemma forEachSetBit_filter:
  "forEachSetBit s = filter (\<lambda>i. i \<in> bits s) [0..<kBitsPerBlock * length (blocks s)]"
proof -
  have "forEachSetBit s = filter (\<lambda>i. bit (blocks s ! (i div 64)) (i mod 64)) [0..<64 * length (blocks s)]"
    unfolding forEachSetBit_def visit_blocks_filter by (rule map_idI) simp
  also have "\<dots> = filter (\<lambda>i. i \<in> bits s) [0..<64 * length (blocks s)]"
    by (rule filter_cong) (auto simp: bits_def block_of_def kBitsPerBlock_def)
  finally show ?thesis by (simp add: kBitsPerBlock_def)
qed

lemma bits_extensional:
  assumes "bs_inv s" "bs_inv u" "numBits s = numBits u" "bits s = bits u"
  shows "s = u"
proof -
  have len: "length (blocks s) = length (blocks u)" using bs_inv_equal_length[OF assms(1-3)] .
  have "blocks s ! b = blocks u ! b" if b: "b < length (blocks s)" for b
  proof (rule bit_eqI)
    fix n assume "possible_bit TYPE(64 word) n"
    then have n: "n < 64" by (simp add: possible_bit_word)
    have "b * 64 + n \<in> bits s \<longleftrightarrow> b * 64 + n \<in> bits u" using assms(4) by simp
    then show "bit (blocks s ! b) n = bit (blocks u ! b) n"
      using b n len by (auto simp: bits_def block_of_def kBitsPerBlock_def)
  qed
  then have "blocks s = blocks u" using len by (intro nth_equalityI) auto
  then show ?thesis using assms(3) by simp
qed

section \<open>The interface that clients of the bit set use\<close>

locale index_set =
  fixes make :: "nat \<Rightarrow> 's"
    and add :: "nat \<Rightarrow> 's \<Rightarrow> 's result"
    and union :: "'s \<Rightarrow> 's \<Rightarrow> 's result"
    and member :: "nat \<Rightarrow> 's \<Rightarrow> bool result"
    and capacity :: "'s \<Rightarrow> nat"
    and elems :: "'s \<Rightarrow> nat set"
    and ok :: "'s \<Rightarrow> bool"
  assumes make_spec: "ok (make n)" "elems (make n) = {}" "capacity (make n) = n"
    and add_spec: "\<lbrakk> ok s; i < capacity s \<rbrakk> \<Longrightarrow>
      \<exists>s'. add i s = Inr s' \<and> ok s' \<and> capacity s' = capacity s \<and> elems s' = insert i (elems s)"
    and union_spec: "\<lbrakk> ok s; ok u; capacity s = capacity u \<rbrakk> \<Longrightarrow>
      \<exists>s'. union u s = Inr s' \<and> ok s' \<and> capacity s' = capacity s \<and> elems s' = elems s \<union> elems u"
    and member_spec: "\<lbrakk> ok s; i < capacity s \<rbrakk> \<Longrightarrow> member i s = Inr (i \<in> elems s)"
begin

lemma add_all:
  "\<lbrakk> ok s; \<forall>i \<in> set is. i < capacity s \<rbrakk> \<Longrightarrow>
   \<exists>s'. foldE add is s = Inr s' \<and> ok s' \<and> capacity s' = capacity s \<and> elems s' = elems s \<union> set is"
proof (induction "is" arbitrary: s)
  case (Cons i "is")
  from add_spec[of s i] Cons.prems obtain s1 where
    s1: "add i s = Inr s1" "ok s1" "capacity s1 = capacity s" "elems s1 = insert i (elems s)" by auto
  with Cons.IH[of s1] Cons.prems show ?case by auto
qed simp

end

interpretation bitset: index_set mkDynamicBitSet atomicSet bs_mergeFrom isSet numBits bits bs_inv
  using mkDynamicBitSet_correct atomicSet_correct bs_mergeFrom_correct isSet_correct
  by unfold_locales auto

section \<open>Interleaved atomicSet calls\<close>

fun instr_index :: "instr \<Rightarrow> nat" where
  "instr_index (Load i) = i"
| "instr_index (FetchOr i) = i"

fun instr_cost :: "instr \<Rightarrow> nat" where
  "instr_cost (Load i) = 2"
| "instr_cost (FetchOr i) = 1"

definition pending :: "instr list list \<Rightarrow> nat set" where
  "pending ts = instr_index ` set (concat ts)"

definition remaining_work :: "instr list list \<Rightarrow> nat" where
  "remaining_work ts = sum_list (map (\<lambda>t. sum_list (map instr_cost t)) ts)"

inductive_cases atomic_stepE: "atomic_step (s, ts) c"

lemma pending_step:
  assumes "t < length ts" "ts ! t = x # rest"
  shows "pending ts = insert (instr_index x) (pending (ts[t := rest]))"
proof -
  have "ts = take t ts @ (x # rest) # drop (Suc t) ts" using assms by (metis id_take_nth_drop)
  moreover have "ts[t := rest] = take t ts @ rest # drop (Suc t) ts"
    using assms(1) by (rule upd_conv_take_nth_drop)
  ultimately have "set (concat ts) = insert x (set (concat (ts[t := rest])))"
    by (metis concat.simps(2) concat_append set_append list.simps(15) append_Cons Un_insert_right)
  then show ?thesis by (simp add: pending_def)
qed

lemma pending_replace:
  "t < length ts \<Longrightarrow> ts ! t = Load i # rest \<Longrightarrow> pending (ts[t := FetchOr i # rest]) = pending ts"
  using pending_step[of t "ts[t := FetchOr i # rest]" "FetchOr i" rest] pending_step[of t ts "Load i" rest]
  by simp

lemma atomic_step_invariant:
  assumes "atomic_step c c'" "bs_inv (fst c)"
  shows "bs_inv (fst c') \<and> numBits (fst c') = numBits (fst c)
    \<and> bits (fst c') \<union> pending (snd c') = bits (fst c) \<union> pending (snd c)"
  using assms
proof (induction rule: atomic_step.induct)
  case (load_seen t ts i rest s)
  then have "i \<in> bits s" using index_less_capacity[of s i] by (simp add: bits_def mask_test)
  then show ?case using load_seen pending_step[OF load_seen.hyps(1,2)] by auto
next
  case (load_unseen t ts i rest s)
  then show ?case using pending_replace[OF load_unseen.hyps(1,2)] by simp
next
  case (fetch_or t ts i rest s)
  then show ?case
    using pending_step[OF fetch_or.hyps(1,2)] bits_set_block[of s i] by (auto simp: bs_inv_def)
qed

lemma atomic_steps_invariant:
  assumes "atomic_step\<^sup>*\<^sup>* c c'" "bs_inv (fst c)"
  shows "bs_inv (fst c') \<and> numBits (fst c') = numBits (fst c)
    \<and> bits (fst c') \<union> pending (snd c') = bits (fst c) \<union> pending (snd c)"
  using assms by (induction rule: rtranclp_induct) (auto dest: atomic_step_invariant)

lemma remaining_work_update:
  "\<lbrakk> t < length ts; sum_list (map instr_cost u) < sum_list (map instr_cost (ts ! t)) \<rbrakk>
   \<Longrightarrow> remaining_work (ts[t := u]) < remaining_work ts"
proof (induction ts arbitrary: t)
  case (Cons x ts)
  then show ?case by (cases t) (auto simp: remaining_work_def)
qed simp

lemma atomic_step_work:
  "atomic_step c c' \<Longrightarrow> remaining_work (snd c') < remaining_work (snd c)"
  by (induction rule: atomic_step.induct) (auto intro!: remaining_work_update)

lemma atomic_step_progress:
  assumes "pending ts \<subseteq> {..<numBits s}" "\<exists>t \<in> set ts. t \<noteq> []"
  shows "\<exists>c'. atomic_step (s, ts) c'"
proof -
  from assms(2) obtain t x rest where t: "t < length ts" "ts ! t = x # rest"
    by (metis in_set_conv_nth neq_Nil_conv)
  then have "instr_index x < numBits s" using assms(1) pending_step[OF t] by auto
  then show ?thesis using t by (cases x) (auto intro: load_unseen fetch_or)
qed

lemma pending_done: "\<forall>t \<in> set ts. t = [] \<Longrightarrow> pending ts = {}"
  by (simp add: pending_def concat_eq_Nil_conv)

lemma pending_start: "pending (map (map Load) iss) = set (concat iss)"
  by (simp add: pending_def map_concat[symmetric] image_image del: set_concat)

lemma bs_inv_code [code]:
  "bs_inv s \<longleftrightarrow>
    length (blocks s) = numBits s div kBitsPerBlock + (if numBits s mod kBitsPerBlock \<noteq> 0 then 1 else 0)
    \<and> list_all (\<lambda>i. i < numBits s) (forEachSetBit s)"
proof -
  have "set (forEachSetBit s) = bits s" unfolding forEachSetBit_filter by (auto simp: bits_def)
  then show ?thesis by (auto simp: bs_inv_def list_all_iff)
qed

section \<open>Properties\<close>

text \<open>C20: \<open>forEachSetBit\<close> calls its callback exactly once for every set bit, in ascending
  order, and for nothing else.\<close>

theorem forEachSetBit_enumerates:
  assumes "bs_inv s"
  shows "forEachSetBit s = sorted_list_of_set (bits s)"
proof (rule sorted_list_of_set_unique[THEN iffD1, symmetric])
  show "finite (bits s)" by (simp add: bits_def)
  have "set (forEachSetBit s) = bits s"
    unfolding forEachSetBit_filter using assms by (auto simp: bits_def)
  then show "sorted_wrt (<) (forEachSetBit s) \<and> set (forEachSetBit s) = bits s
      \<and> length (forEachSetBit s) = card (bits s)"
    by (metis forEachSetBit_filter distinct_card distinct_filter distinct_upt sorted_wrt_filter strict_sorted_list_of_set sorted_list_of_set_range atLeast_upt strict_sorted_iff sorted_upt)
qed

theorem forEachSetBit_enumerates_witness:
  "bs_inv \<lparr>blocks = [5, 2], numBits = 70\<rparr>
   \<and> sorted_list_of_set (bits \<lparr>blocks = [5, 2], numBits = 70\<rparr>) = [0, 2, 65]"
proof
  show inv: "bs_inv \<lparr>blocks = [5, 2], numBits = 70\<rparr>" by code_simp
  have "forEachSetBit \<lparr>blocks = [5, 2], numBits = 70\<rparr> = [0, 2, 65]" by code_simp
  then show "sorted_list_of_set (bits \<lparr>blocks = [5, 2], numBits = 70\<rparr>) = [0, 2, 65]"
    using forEachSetBit_enumerates[OF inv] by simp
qed

text \<open>C18: however the loads and the \<open>fetch_or\<close> instructions of concurrent \<open>atomicSet\<close> calls
  interleave, and even when relaxed loads return stale blocks, once every thread has finished the
  bit set is the one that the same calls leave when they run one after the other.\<close>

theorem atomicSet_interleaving:
  assumes "bs_inv s" "\<forall>i \<in> set (concat iss). i < numBits s"
    and "atomic_step\<^sup>*\<^sup>* (s, map (map Load) iss) (s', ts')" "\<forall>t \<in> set ts'. t = []"
  shows "foldE atomicSet (concat iss) s = Inr s'"
proof -
  obtain u where u: "foldE atomicSet (concat iss) s = Inr u" "bs_inv u" "numBits u = numBits s"
      "bits u = bits s \<union> set (concat iss)"
    using bitset.add_all[OF assms(1,2)] by auto
  moreover have "bs_inv s'" "numBits s' = numBits s" "bits s' = bits s \<union> set (concat iss)"
    using atomic_steps_invariant[OF assms(3)] assms(1) pending_done[OF assms(4)]
    by (simp_all add: pending_start)
  ultimately have "u = s'" by (intro bits_extensional) auto
  then show ?thesis using u by simp
qed

theorem atomicSet_interleaving_witness:
  "foldE atomicSet (concat [[3, 1], [3]]) (mkDynamicBitSet 5) = Inr \<lparr>blocks = [10], numBits = 5\<rparr>"
proof (rule atomicSet_interleaving)
  let ?s = "mkDynamicBitSet 5" and ?s1 = "\<lparr>blocks = [8], numBits = 5\<rparr>" and ?s2 = "\<lparr>blocks = [10], numBits = 5\<rparr>"
  have "put_block 3 (block_of ?s 3 OR singleBitMask 3) ?s = ?s1"
    "put_block 3 (block_of ?s1 3 OR singleBitMask 3) ?s1 = ?s1"
    "put_block 1 (block_of ?s1 1 OR singleBitMask 1) ?s1 = ?s2"
    by code_simp+
  moreover have "numBits ?s = 5" by code_simp
  ultimately have
    "atomic_step (?s, [[Load 3, Load 1], [Load 3]]) (?s, [[FetchOr 3, Load 1], [Load 3]])"
    "atomic_step (?s, [[FetchOr 3, Load 1], [Load 3]]) (?s, [[FetchOr 3, Load 1], [FetchOr 3]])"
    "atomic_step (?s, [[FetchOr 3, Load 1], [FetchOr 3]]) (?s1, [[Load 1], [FetchOr 3]])"
    "atomic_step (?s1, [[Load 1], [FetchOr 3]]) (?s1, [[Load 1], []])"
    "atomic_step (?s1, [[Load 1], []]) (?s1, [[FetchOr 1], []])"
    "atomic_step (?s1, [[FetchOr 1], []]) (?s2, [[], []])"
    using load_unseen[of 0 "[[Load 3, Load 1], [Load 3]]" 3 "[Load 1]" ?s]
      load_unseen[of 1 "[[FetchOr 3, Load 1], [Load 3]]" 3 "[]" ?s]
      fetch_or[of 0 "[[FetchOr 3, Load 1], [FetchOr 3]]" 3 "[Load 1]" ?s]
      fetch_or[of 1 "[[Load 1], [FetchOr 3]]" 3 "[]" ?s1]
      load_unseen[of 0 "[[Load 1], []]" 1 "[]" ?s1]
      fetch_or[of 0 "[[FetchOr 1], []]" 1 "[]" ?s1]
    by simp_all
  then show "atomic_step\<^sup>*\<^sup>* (?s, map (map Load) [[3, 1], [3]]) (?s2, [[], []])"
    unfolding list.map by (meson rtranclp.rtrancl_refl converse_rtranclp_into_rtranclp)
  show "bs_inv ?s" by (simp add: mkDynamicBitSet_correct)
qed (simp_all add: mkDynamicBitSet_correct)





end
