(* ===== verification/Move_Filter.thy ===== *)
theory Move_Filter
  imports Bit_Set
begin

text \<open>
  \<open>InvalidMoveFilter\<close> (\<open>solver/moves/InvalidMoveFilter.{h,cpp}\<close>): for every
  container a lazily created bit set of the objects that may not move there.
  The abstraction \<open>invalid_pairs\<close> reads a filter as a set of (object, container)
  pairs; marking and merging act on it as insertion and union, and the
  \<open>isEmpty\<close> flag that short-circuits every query is exact.
\<close>

section \<open>Definitions\<close>

record InvalidMoveFilter =
  containerToInvalidObjects :: "DynamicBitSet option list"
  numObjects :: nat
  isEmpty :: bool

definition mkInvalidMoveFilter :: "nat \<Rightarrow> nat \<Rightarrow> InvalidMoveFilter" where
  "mkInvalidMoveFilter nObjects nContainers =
    \<lparr>containerToInvalidObjects = replicate nContainers None, numObjects = nObjects, isEmpty = True\<rparr>"

text \<open>\<open>folly::DelayedInit::try_emplace\<close> constructs the value unless there is one.\<close>

definition try_emplace :: "DynamicBitSet \<Rightarrow> DynamicBitSet option \<Rightarrow> DynamicBitSet" where
  "try_emplace fresh row = (case row of None \<Rightarrow> fresh | Some b \<Rightarrow> b)"

definition copyFilter :: "InvalidMoveFilter \<Rightarrow> InvalidMoveFilter" where
  "copyFilter other =
    \<lparr>containerToInvalidObjects =
       map (\<lambda>otherRow. case otherRow of None \<Rightarrow> None | Some b \<Rightarrow> Some (try_emplace b None))
         (containerToInvalidObjects other),
     numObjects = numObjects other, isEmpty = isEmpty other\<rparr>"

definition moveFilter :: "InvalidMoveFilter \<Rightarrow> InvalidMoveFilter \<times> InvalidMoveFilter" where
  "moveFilter other =
    (other, \<lparr>containerToInvalidObjects = [], numObjects = 0, isEmpty = True\<rparr>)"

definition put_row :: "ContainerId \<Rightarrow> DynamicBitSet \<Rightarrow> InvalidMoveFilter \<Rightarrow> InvalidMoveFilter" where
  "put_row c b f =
    f\<lparr>containerToInvalidObjects := (containerToInvalidObjects f)[c := Some b], isEmpty := False\<rparr>"

definition markInvalid :: "ObjectId list \<Rightarrow> ContainerId \<Rightarrow> InvalidMoveFilter \<Rightarrow> InvalidMoveFilter result" where
  "markInvalid objectIds c f =
    (if objectIds = [] then Inr f
     else bindE (vec_at (containerToInvalidObjects f) c) (\<lambda>row.
       bindE (foldE atomicSet objectIds (try_emplace (mkDynamicBitSet (numObjects f)) row)) (\<lambda>b.
         Inr (put_row c b f))))"

definition markInvalidBits :: "DynamicBitSet \<Rightarrow> ContainerId \<Rightarrow> InvalidMoveFilter \<Rightarrow> InvalidMoveFilter result" where
  "markInvalidBits objectIds c f =
    (if \<not> bs_any objectIds then Inr f
     else bindE (vec_at (containerToInvalidObjects f) c) (\<lambda>row.
       bindE (atomicOrFrom objectIds (try_emplace (mkDynamicBitSet (numObjects f)) row)) (\<lambda>b.
         Inr (put_row c b f))))"

fun merge_rows :: "nat \<Rightarrow> DynamicBitSet option list \<Rightarrow> DynamicBitSet option list
    \<Rightarrow> DynamicBitSet option list result" where
  "merge_rows n (None # others) (row # rows) = bindE (merge_rows n others rows) (\<lambda>rs. Inr (row # rs))"
| "merge_rows n (Some otherRow # others) (row # rows) =
     bindE (bs_mergeFrom otherRow (try_emplace (mkDynamicBitSet n) row)) (\<lambda>b.
       bindE (merge_rows n others rows) (\<lambda>rs. Inr (Some b # rs)))"
| "merge_rows n [] rows = Inr rows"
| "merge_rows n (o' # others) [] = Inl Out_of_range"

definition filter_mergeFrom :: "InvalidMoveFilter \<Rightarrow> InvalidMoveFilter \<Rightarrow> InvalidMoveFilter result" where
  "filter_mergeFrom other f =
    (if isEmpty other then Inr f
     else if length (containerToInvalidObjects other) \<noteq> length (containerToInvalidObjects f)
       \<or> numObjects other \<noteq> numObjects f then Inl Invalid_argument
     else bindE (merge_rows (numObjects f) (containerToInvalidObjects other) (containerToInvalidObjects f))
       (\<lambda>rows. Inr (f\<lparr>containerToInvalidObjects := rows, isEmpty := False\<rparr>)))"

text \<open>The subscript of the row vector is unchecked.\<close>

definition filter_row :: "ContainerId \<Rightarrow> InvalidMoveFilter \<Rightarrow> DynamicBitSet option result" where
  "filter_row c f =
    (if c < length (containerToInvalidObjects f) then Inr (containerToInvalidObjects f ! c)
     else Inl Undefined_behaviour)"

definition isMarkedInvalid :: "ObjectId \<Rightarrow> ContainerId \<Rightarrow> InvalidMoveFilter \<Rightarrow> bool result" where
  "isMarkedInvalid objectId c f =
    (if isEmpty f then Inr False
     else bindE (filter_row c f) (\<lambda>row.
       case row of None \<Rightarrow> Inr False | Some b \<Rightarrow> isSet objectId b))"

fun any_ofE :: "('a \<Rightarrow> bool result) \<Rightarrow> 'a list \<Rightarrow> bool result" where
  "any_ofE p [] = Inr False"
| "any_ofE p (x # xs) = bindE (p x) (\<lambda>b. if b then Inr True else any_ofE p xs)"

definition anyMarkedInvalid :: "ObjectId list \<Rightarrow> ContainerId \<Rightarrow> InvalidMoveFilter \<Rightarrow> bool result" where
  "anyMarkedInvalid objectBundle c f =
    (if isEmpty f then Inr False
     else bindE (filter_row c f) (\<lambda>row.
       case row of None \<Rightarrow> Inr False
       | Some b \<Rightarrow> any_ofE (\<lambda>objectId. isSet objectId b) objectBundle))"

definition isMoveInvalid :: "InvalidMoveFilter option \<Rightarrow> ObjectId \<Rightarrow> ContainerId \<Rightarrow> bool result" where
  "isMoveInvalid flt objectId destContainer =
    (case flt of None \<Rightarrow> Inr False | Some f \<Rightarrow> isMarkedInvalid objectId destContainer f)"

definition anyMoveInvalid :: "InvalidMoveFilter option \<Rightarrow> ObjectId list \<Rightarrow> ContainerId \<Rightarrow> bool result" where
  "anyMoveInvalid flt objectBundle destContainer =
    (case flt of None \<Rightarrow> Inr False | Some f \<Rightarrow> anyMarkedInvalid objectBundle destContainer f)"

section \<open>Abstraction and invariant\<close>

definition row_bits :: "DynamicBitSet option \<Rightarrow> nat set" where
  "row_bits row = (case row of None \<Rightarrow> {} | Some b \<Rightarrow> bits b)"

definition invalid_pairs :: "InvalidMoveFilter \<Rightarrow> (ObjectId \<times> ContainerId) set" where
  "invalid_pairs f = {(obj, c). c < length (containerToInvalidObjects f)
     \<and> obj \<in> row_bits (containerToInvalidObjects f ! c)}"

definition row_ok :: "nat \<Rightarrow> DynamicBitSet option \<Rightarrow> bool" where
  "row_ok n row = (case row of None \<Rightarrow> True | Some b \<Rightarrow> bs_inv b \<and> numBits b = n)"

definition filter_inv :: "InvalidMoveFilter \<Rightarrow> bool" where
  "filter_inv f \<longleftrightarrow> list_all (row_ok (numObjects f)) (containerToInvalidObjects f)
     \<and> (isEmpty f \<longleftrightarrow> invalid_pairs f = {})"

lemma row_bits_simps [simp]: "row_bits None = {}" "row_bits (Some b) = bits b"
  by (simp_all add: row_bits_def)

lemma try_emplace_ok:
  assumes "row_ok n row"
  shows "bs_inv (try_emplace (mkDynamicBitSet n) row)" "numBits (try_emplace (mkDynamicBitSet n) row) = n"
    "bits (try_emplace (mkDynamicBitSet n) row) = row_bits row"
  using assms mkDynamicBitSet_correct by (auto simp: row_ok_def try_emplace_def split: option.splits)

lemma filter_inv_row:
  "filter_inv f \<Longrightarrow> c < length (containerToInvalidObjects f) \<Longrightarrow> row_ok (numObjects f) (containerToInvalidObjects f ! c)"
  by (simp add: filter_inv_def list_all_length)

lemma put_row_correct:
  assumes "filter_inv f" "c < length (containerToInvalidObjects f)" "bs_inv b" "numBits b = numObjects f"
    and "bits b = row_bits (containerToInvalidObjects f ! c) \<union> A" "A \<noteq> {}"
  shows "filter_inv (put_row c b f) \<and> invalid_pairs (put_row c b f) = invalid_pairs f \<union> A \<times> {c}"
proof -
  have pairs: "invalid_pairs (put_row c b f) = invalid_pairs f \<union> A \<times> {c}"
    using assms(2,5) by (auto simp: invalid_pairs_def put_row_def nth_list_update split: if_splits)
  have "list_all (row_ok (numObjects f)) ((containerToInvalidObjects f)[c := Some b])"
    using assms by (auto simp: filter_inv_def list_all_length nth_list_update row_ok_def)
  then show ?thesis using pairs assms(6) by (auto simp: filter_inv_def put_row_def)
qed

lemma markInvalid_ok:
  assumes "filter_inv f" "c < length (containerToInvalidObjects f)" "\<forall>i \<in> set objectIds. i < numObjects f"
  shows "\<exists>f'. markInvalid objectIds c f = Inr f' \<and> filter_inv f'
    \<and> invalid_pairs f' = invalid_pairs f \<union> set objectIds \<times> {c}"
proof (cases "objectIds = []")
  case True
  then show ?thesis using assms(1) by (simp add: markInvalid_def)
next
  case False
  let ?b = "try_emplace (mkDynamicBitSet (numObjects f)) (containerToInvalidObjects f ! c)"
  note b = try_emplace_ok[OF filter_inv_row[OF assms(1,2)]]
  then obtain b' where b': "foldE atomicSet objectIds ?b = Inr b'" "bs_inv b'"
      "numBits b' = numObjects f" "bits b' = row_bits (containerToInvalidObjects f ! c) \<union> set objectIds"
    using bitset.add_all[of ?b objectIds] assms(3) by auto
  then show ?thesis
    using put_row_correct[OF assms(1,2) b'(2-4)] assms(2) False by (auto simp: markInvalid_def)
qed

lemma markInvalidBits_ok:
  assumes "filter_inv f" "c < length (containerToInvalidObjects f)" "bs_inv u" "numBits u = numObjects f"
  shows "\<exists>f'. markInvalidBits u c f = Inr f' \<and> filter_inv f'
    \<and> invalid_pairs f' = invalid_pairs f \<union> bits u \<times> {c}"
proof (cases "bs_any u")
  case False
  then show ?thesis using assms(1) by (simp add: markInvalidBits_def bs_any_correct)
next
  case True
  let ?b = "try_emplace (mkDynamicBitSet (numObjects f)) (containerToInvalidObjects f ! c)"
  note b = try_emplace_ok[OF filter_inv_row[OF assms(1,2)]]
  then obtain b' where b': "atomicOrFrom u ?b = Inr b'" "bs_inv b'"
      "numBits b' = numObjects f" "bits b' = row_bits (containerToInvalidObjects f ! c) \<union> bits u"
    using bs_mergeFrom_correct[of ?b u] assms(3,4) by (auto simp: atomicOrFrom_eq)
  then show ?thesis
    using put_row_correct[OF assms(1,2) b'(2-4)] assms(2) True
    by (auto simp: markInvalidBits_def bs_any_correct)
qed

lemma merge_rows_ok:
  assumes "length others = length rows" "list_all (row_ok n) others" "list_all (row_ok n) rows"
  shows "\<exists>rs. merge_rows n others rows = Inr rs \<and> length rs = length rows \<and> list_all (row_ok n) rs
    \<and> (\<forall>c < length rows. row_bits (rs ! c) = row_bits (rows ! c) \<union> row_bits (others ! c))"
  using assms
proof (induction others rows rule: list_induct2)
  case (Cons x others y rows)
  then obtain rs where rs: "merge_rows n others rows = Inr rs" "length rs = length rows" "list_all (row_ok n) rs"
      "\<forall>c < length rows. row_bits (rs ! c) = row_bits (rows ! c) \<union> row_bits (others ! c)" by auto
  show ?case
  proof (cases x)
    case None
    then show ?thesis using rs Cons.prems by (auto simp: nth_Cons split: nat.splits)
  next
    case (Some u)
    let ?b = "try_emplace (mkDynamicBitSet n) y"
    have "row_ok n y" "bs_inv u" "numBits u = n" using Cons.prems Some by (auto simp: row_ok_def)
    then obtain b where b: "bs_mergeFrom u ?b = Inr b" "bs_inv b" "numBits b = n" "bits b = row_bits y \<union> bits u"
      using bs_mergeFrom_correct[of ?b u] try_emplace_ok[of n y] by auto
    have "row_ok n (Some b)" using b by (simp add: row_ok_def)
    then show ?thesis using rs b Some by (auto simp: nth_Cons split: nat.splits)
  qed
qed simp

lemma filter_mergeFrom_ok:
  assumes "filter_inv f" "filter_inv g" "numObjects g = numObjects f"
    and "length (containerToInvalidObjects g) = length (containerToInvalidObjects f)"
  shows "\<exists>f'. filter_mergeFrom g f = Inr f' \<and> filter_inv f' \<and> invalid_pairs f' = invalid_pairs f \<union> invalid_pairs g"
proof (cases "isEmpty g")
  case True
  then show ?thesis using assms(1,2) by (simp add: filter_mergeFrom_def filter_inv_def)
next
  case False
  have rows_ok: "list_all (row_ok (numObjects f)) (containerToInvalidObjects g)"
    "list_all (row_ok (numObjects f)) (containerToInvalidObjects f)"
    using assms(1-3) by (simp_all add: filter_inv_def)
  obtain rs where rs: "merge_rows (numObjects f) (containerToInvalidObjects g) (containerToInvalidObjects f) = Inr rs"
      "length rs = length (containerToInvalidObjects f)" "list_all (row_ok (numObjects f)) rs"
      "\<forall>c < length (containerToInvalidObjects f). row_bits (rs ! c) =
         row_bits (containerToInvalidObjects f ! c) \<union> row_bits (containerToInvalidObjects g ! c)"
    using merge_rows_ok[OF assms(4) rows_ok] by blast
  let ?f' = "f\<lparr>containerToInvalidObjects := rs, isEmpty := False\<rparr>"
  have "invalid_pairs ?f' = invalid_pairs f \<union> invalid_pairs g"
    using rs(2,4) assms(4) by (auto simp: invalid_pairs_def)
  moreover have "invalid_pairs g \<noteq> {}" using False assms(2) by (simp add: filter_inv_def)
  ultimately show ?thesis using rs False assms(3,4) by (auto simp: filter_mergeFrom_def filter_inv_def)
qed

lemma any_ofE_pure: "(\<And>x. x \<in> set xs \<Longrightarrow> p x = Inr (q x)) \<Longrightarrow> any_ofE p xs = Inr (\<exists>x \<in> set xs. q x)"
  by (induction xs) auto

lemma anyMarkedInvalid_ok:
  assumes "filter_inv f" "c < length (containerToInvalidObjects f)" "\<forall>i \<in> set objectBundle. i < numObjects f"
  shows "anyMarkedInvalid objectBundle c f = Inr (\<exists>i \<in> set objectBundle. (i, c) \<in> invalid_pairs f)"
proof (cases "isEmpty f \<or> containerToInvalidObjects f ! c = None")
  case True
  then show ?thesis using assms(1,2)
    by (auto simp: anyMarkedInvalid_def filter_row_def filter_inv_def) (auto simp: invalid_pairs_def)
next
  case False
  then obtain b where b: "containerToInvalidObjects f ! c = Some b" by blast
  then have "bs_inv b" "numBits b = numObjects f" using filter_inv_row[OF assms(1,2)] by (auto simp: row_ok_def)
  then have "any_ofE (\<lambda>i. isSet i b) objectBundle = Inr (\<exists>i \<in> set objectBundle. i \<in> bits b)"
    using assms(3) by (intro any_ofE_pure) (simp add: isSet_correct)
  then show ?thesis using assms(2) b False by (simp add: anyMarkedInvalid_def filter_row_def invalid_pairs_def)
qed

lemma isMarkedInvalid_any: "isMarkedInvalid i c f = anyMarkedInvalid [i] c f"
  by (simp add: isMarkedInvalid_def anyMarkedInvalid_def bindE_def split: sum.splits option.splits)

lemma copyFilter_id: "copyFilter f = f"
proof -
  have "(\<lambda>row. case row of None \<Rightarrow> None | Some b \<Rightarrow> Some (try_emplace b None)) = (\<lambda>row. row)"
    by (auto simp: try_emplace_def split: option.splits)
  then show ?thesis by (simp add: copyFilter_def)
qed

lemma mkInvalidMoveFilter_inv:
  "filter_inv (mkInvalidMoveFilter n m)" "invalid_pairs (mkInvalidMoveFilter n m) = {}"
  by (auto simp: filter_inv_def mkInvalidMoveFilter_def invalid_pairs_def list_all_length row_ok_def)

lemma moveFilter_inv: "filter_inv f \<Longrightarrow> filter_inv (snd (moveFilter f))"
  by (simp add: moveFilter_def filter_inv_def invalid_pairs_def)

section \<open>Properties\<close>

text \<open>C22: marking objects invalid for a container, from a list or from a bit set, and merging
  another filter are insertion and union on the set of invalid pairs, they succeed on ids in
  range, and they keep the representation invariant, in which the \<open>isEmpty\<close> shortcut is set
  exactly when no pair is invalid.\<close>

theorem filter_refines_pair_set:
  assumes "filter_inv f" "c < length (containerToInvalidObjects f)"
  shows "((\<forall>i \<in> set objectIds. i < numObjects f) \<longrightarrow> (\<exists>f'. markInvalid objectIds c f = Inr f' \<and> filter_inv f'
      \<and> invalid_pairs f' = invalid_pairs f \<union> set objectIds \<times> {c}))
    \<and> (bs_inv u \<and> numBits u = numObjects f \<longrightarrow> (\<exists>f'. markInvalidBits u c f = Inr f' \<and> filter_inv f'
      \<and> invalid_pairs f' = invalid_pairs f \<union> bits u \<times> {c}))
    \<and> (filter_inv g \<and> numObjects g = numObjects f
      \<and> length (containerToInvalidObjects g) = length (containerToInvalidObjects f)
      \<longrightarrow> (\<exists>f'. filter_mergeFrom g f = Inr f' \<and> filter_inv f'
        \<and> invalid_pairs f' = invalid_pairs f \<union> invalid_pairs g))"
  using markInvalid_ok[OF assms] markInvalidBits_ok[OF assms] filter_mergeFrom_ok[OF assms(1)] by auto

theorem filter_refines_pair_set_witness:
  "\<exists>f'. markInvalid [4, 7] 1 (mkInvalidMoveFilter 10 3) = Inr f' \<and> filter_inv f'
     \<and> invalid_pairs f' = {(4, 1), (7, 1)}"
  using filter_refines_pair_set[of "mkInvalidMoveFilter 10 3" 1 "[4, 7]"] mkInvalidMoveFilter_inv[of 10 3]
  by (auto simp: mkInvalidMoveFilter_def)

text \<open>C23: the two queries of the move generators answer membership in the set of invalid
  pairs: a single move is filtered exactly when its pair is marked, a bundle exactly when some
  object of it is marked, and without a filter nothing is filtered.\<close>

theorem filter_queries_correct:
  assumes "filter_inv f" "c < length (containerToInvalidObjects f)"
    and "i < numObjects f" "\<forall>j \<in> set objectBundle. j < numObjects f"
  shows "isMoveInvalid (Some f) i c = Inr ((i, c) \<in> invalid_pairs f)
    \<and> anyMoveInvalid (Some f) objectBundle c = Inr (\<exists>j \<in> set objectBundle. (j, c) \<in> invalid_pairs f)
    \<and> isMoveInvalid None i c = Inr False \<and> anyMoveInvalid None objectBundle c = Inr False"
  using anyMarkedInvalid_ok[OF assms(1,2), of "[i]"] anyMarkedInvalid_ok[OF assms(1,2,4)] assms(3)
  by (simp_all add: isMoveInvalid_def anyMoveInvalid_def isMarkedInvalid_any)

theorem filter_queries_correct_witness:
  "isMoveInvalid (Some (mkInvalidMoveFilter 10 3)) 4 2 = Inr False"
  using filter_queries_correct[of "mkInvalidMoveFilter 10 3" 2 4 "[]"] mkInvalidMoveFilter_inv[of 10 3]
  by (simp add: mkInvalidMoveFilter_def)

end
