(* ===== verification/Std_Containers.thy ===== *)
theory Std_Containers
  imports Rebalancer_Prelude
begin

text \<open>
  The ordered associative containers of the C++ standard library as the code
  uses them: \<open>std::set\<close> (and the key part of \<open>std::map\<close>) with a comparator,
  as the list of its elements in iteration order. Two elements are the same to
  the container when neither is less than the other. The locale
  \<open>strict_order_on\<close> is what a comparator has to promise; from it follow the
  laws the clients rely on.
\<close>

section \<open>Definitions\<close>

fun std_insert :: "('a \<Rightarrow> 'a \<Rightarrow> bool) \<Rightarrow> 'a \<Rightarrow> 'a list \<Rightarrow> 'a list" where
  "std_insert lt x [] = [x]"
| "std_insert lt x (y # ys) =
    (if lt x y then x # y # ys
     else if lt y x then y # std_insert lt x ys
     else y # ys)"

fun std_erase :: "('a \<Rightarrow> 'a \<Rightarrow> bool) \<Rightarrow> 'a \<Rightarrow> 'a list \<Rightarrow> 'a list" where
  "std_erase lt x [] = []"
| "std_erase lt x (y # ys) =
    (if lt x y then y # ys
     else if lt y x then y # std_erase lt x ys
     else ys)"

fun std_find :: "('a \<Rightarrow> 'a \<Rightarrow> bool) \<Rightarrow> 'a \<Rightarrow> 'a list \<Rightarrow> 'a option" where
  "std_find lt x [] = None"
| "std_find lt x (y # ys) =
    (if lt x y then None
     else if lt y x then std_find lt x ys
     else Some y)"

definition std_contains :: "('a \<Rightarrow> 'a \<Rightarrow> bool) \<Rightarrow> 'a \<Rightarrow> 'a list \<Rightarrow> bool" where
  "std_contains lt x xs \<longleftrightarrow> std_find lt x xs \<noteq> None"

definition std_begin :: "'a list \<Rightarrow> 'a option" where
  "std_begin xs = (case xs of [] \<Rightarrow> None | x # _ \<Rightarrow> Some x)"

datatype 'a set_op = Ins 'a | Era 'a

fun run_op :: "('a \<Rightarrow> 's \<Rightarrow> 's result) \<Rightarrow> ('a \<Rightarrow> 's \<Rightarrow> 's result) \<Rightarrow> 'a set_op \<Rightarrow> 's \<Rightarrow> 's result" where
  "run_op ins era (Ins x) s = ins x s"
| "run_op ins era (Era x) s = era x s"

fun abs_op :: "'a set_op \<Rightarrow> 'a set \<Rightarrow> 'a set" where
  "abs_op (Ins x) A = insert x A"
| "abs_op (Era x) A = A - {x}"

fun op_elem :: "'a set_op \<Rightarrow> 'a" where
  "op_elem (Ins x) = x"
| "op_elem (Era x) = x"

section \<open>The interface of a mutable set\<close>

locale dynamic_set =
  fixes ins :: "'a \<Rightarrow> 's \<Rightarrow> 's result"
    and era :: "'a \<Rightarrow> 's \<Rightarrow> 's result"
    and con :: "'a \<Rightarrow> 's \<Rightarrow> bool"
    and elems :: "'s \<Rightarrow> 'a set"
    and ok :: "'s \<Rightarrow> bool"
    and D :: "'a set"
  assumes ins_spec: "\<lbrakk> ok s; x \<in> D \<rbrakk> \<Longrightarrow> \<exists>s'. ins x s = Inr s' \<and> ok s' \<and> elems s' = insert x (elems s)"
    and era_spec: "\<lbrakk> ok s; x \<in> D \<rbrakk> \<Longrightarrow> \<exists>s'. era x s = Inr s' \<and> ok s' \<and> elems s' = elems s - {x}"
    and con_spec: "\<lbrakk> ok s; x \<in> D \<rbrakk> \<Longrightarrow> con x s \<longleftrightarrow> x \<in> elems s"
begin

lemma run_op_spec:
  "\<lbrakk> ok s; op_elem p \<in> D \<rbrakk> \<Longrightarrow> \<exists>s'. run_op ins era p s = Inr s' \<and> ok s' \<and> elems s' = abs_op p (elems s)"
  using ins_spec era_spec by (cases p) auto

lemma run_refines:
  "\<lbrakk> ok s; \<forall>p \<in> set ops. op_elem p \<in> D \<rbrakk> \<Longrightarrow>
   \<exists>s'. foldE (run_op ins era) ops s = Inr s' \<and> ok s' \<and> elems s' = fold abs_op ops (elems s)"
proof (induction ops arbitrary: s)
  case (Cons p ops)
  then obtain s1 where "run_op ins era p s = Inr s1" "ok s1" "elems s1 = abs_op p (elems s)"
    using run_op_spec[of s p] by auto
  then show ?case using Cons.IH[of s1] Cons.prems by auto
qed simp

end

section \<open>What a comparator promises\<close>

locale strict_order_on =
  fixes lt :: "'a \<Rightarrow> 'a \<Rightarrow> bool"
    and D :: "'a set"
  assumes irrefl: "x \<in> D \<Longrightarrow> \<not> lt x x"
    and trans: "\<lbrakk> x \<in> D; y \<in> D; z \<in> D; lt x y; lt y z \<rbrakk> \<Longrightarrow> lt x z"
    and total: "\<lbrakk> x \<in> D; y \<in> D; x \<noteq> y \<rbrakk> \<Longrightarrow> lt x y \<or> lt y x"
begin

lemma asym: "\<lbrakk> x \<in> D; y \<in> D; lt x y \<rbrakk> \<Longrightarrow> \<not> lt y x"
  using irrefl trans by blast

lemma sorted_distinct: "set xs \<subseteq> D \<Longrightarrow> sorted_wrt lt xs \<Longrightarrow> distinct xs"
  using irrefl by (induction xs) auto

lemma insert_set: "x \<in> D \<Longrightarrow> set xs \<subseteq> D \<Longrightarrow> set (std_insert lt x xs) = insert x (set xs)"
  using total by (induction xs) auto

lemma insert_sorted:
  "\<lbrakk> x \<in> D; set xs \<subseteq> D; sorted_wrt lt xs \<rbrakk> \<Longrightarrow> sorted_wrt lt (std_insert lt x xs)"
proof (induction xs)
  case (Cons y ys)
  then show ?case using insert_set[of x ys] trans[of x y] by auto
qed simp

lemma before_head: "\<lbrakk> x \<in> D; y \<in> D; set ys \<subseteq> D; lt x y; \<forall>z \<in> set ys. lt y z \<rbrakk> \<Longrightarrow> x \<notin> set ys"
  using asym[of x] irrefl[of x] trans[of x y] by blast

lemma erase_remove1:
  "\<lbrakk> x \<in> D; set xs \<subseteq> D; sorted_wrt lt xs \<rbrakk> \<Longrightarrow> std_erase lt x xs = remove1 x xs"
proof (induction xs)
  case (Cons y ys)
  then show ?case using total[of x y] irrefl[of x] before_head[of x y ys]
    by (cases "x = y") (auto simp: remove1_idem)
qed simp

lemma erase_set:
  "\<lbrakk> x \<in> D; set xs \<subseteq> D; sorted_wrt lt xs \<rbrakk> \<Longrightarrow> set (std_erase lt x xs) = set xs - {x}"
  by (simp add: erase_remove1 sorted_distinct)

lemma sorted_remove1: "sorted_wrt lt xs \<Longrightarrow> sorted_wrt lt (remove1 x xs)"
proof (induction xs)
  case (Cons y ys)
  then show ?case using set_remove1_subset[of x ys] by auto
qed simp

lemma erase_sorted:
  "\<lbrakk> x \<in> D; set xs \<subseteq> D; sorted_wrt lt xs \<rbrakk> \<Longrightarrow> sorted_wrt lt (std_erase lt x xs)"
  by (simp add: erase_remove1 sorted_remove1)

lemma find_iff:
  "\<lbrakk> x \<in> D; set xs \<subseteq> D; sorted_wrt lt xs \<rbrakk> \<Longrightarrow>
   std_find lt x xs = (if x \<in> set xs then Some x else None)"
proof (induction xs)
  case (Cons y ys)
  then show ?case using total[of x y] irrefl[of x] before_head[of x y ys] by auto
qed simp

lemma contains_iff:
  "\<lbrakk> x \<in> D; set xs \<subseteq> D; sorted_wrt lt xs \<rbrakk> \<Longrightarrow> std_contains lt x xs \<longleftrightarrow> x \<in> set xs"
  by (simp add: std_contains_def find_iff)

lemma insert_present:
  "\<lbrakk> x \<in> set xs; set xs \<subseteq> D; sorted_wrt lt xs \<rbrakk> \<Longrightarrow> std_insert lt x xs = xs"
proof (induction xs)
  case (Cons y ys)
  then show ?case using irrefl[of x] asym[of y x] by auto
qed simp

lemma sorted_unique:
  "\<lbrakk> set xs \<subseteq> D; sorted_wrt lt xs; sorted_wrt lt ys; set xs = set ys \<rbrakk> \<Longrightarrow> xs = ys"
proof (induction xs arbitrary: ys)
  case (Cons x xs)
  then obtain y zs where ys: "ys = y # zs" by (cases ys) auto
  have "x = y"
  proof (rule ccontr)
    assume "x \<noteq> y"
    then have "x \<in> set zs" "y \<in> set xs" using Cons.prems(4) ys by auto
    then show False using Cons.prems ys asym[of x y] by auto
  qed
  have "x \<notin> set xs" "y \<notin> set zs"
    using sorted_distinct[OF Cons.prems(1,2)] sorted_distinct[OF _ Cons.prems(3)] Cons.prems(1,4) ys
    by (metis distinct.simps(2))+
  then have "set xs = set zs" using Cons.prems(4) ys \<open>x = y\<close> by auto
  then show ?case using Cons.IH[of zs] Cons.prems ys \<open>x = y\<close> by simp
qed simp

lemma begin_least:
  "\<lbrakk> sorted_wrt lt xs; std_begin xs = Some x \<rbrakk> \<Longrightarrow> x \<in> set xs \<and> (\<forall>y \<in> set xs. y \<noteq> x \<longrightarrow> lt x y)"
  by (auto simp: std_begin_def split: list.splits)

end

text \<open>A \<open>std::set\<close> whose comparator is a strict total order is such a mutable set.\<close>

sublocale strict_order_on \<subseteq> std: dynamic_set "\<lambda>x xs. Inr (std_insert lt x xs)" "\<lambda>x xs. Inr (std_erase lt x xs)"
    "std_contains lt" set "\<lambda>xs. set xs \<subseteq> D \<and> sorted_wrt lt xs" D
  by unfold_locales (auto simp: insert_set insert_sorted erase_set erase_sorted contains_iff)

end
