(* ===== verification/Access_Ordered.thy ===== *)
theory Access_Ordered
  imports Std_Containers
begin

text \<open>
  The sets that remember where the previous iteration stopped:
  \<open>AccessOrderedSetBase\<close>, \<open>AccessOrderedFastSet\<close> (a list and a map from
  elements to list iterators) and \<open>AccessOrderedSortedSet\<close> (a \<open>std::set\<close>), all
  in \<open>algopt_common/\<close>. A container is the list of its nodes, a stable iterator
  is the node it points to, and \<open>None\<close> is the end iterator. \<open>access_order\<close> is
  the order in which the next complete iteration visits the nodes.
\<close>

section \<open>The base class\<close>

record 'n AccessOrderedSetBase =
  elementContainer :: "'n list"
  currIter :: "'n option"

definition next_iter :: "'n list \<Rightarrow> 'n \<Rightarrow> 'n option" where
  "next_iter xs x = (case dropWhile (\<lambda>y. y \<noteq> x) xs of _ # y # _ \<Rightarrow> Some y | _ \<Rightarrow> None)"

definition setCurrIterToBegin :: "('n, 'z) AccessOrderedSetBase_scheme \<Rightarrow> ('n, 'z) AccessOrderedSetBase_scheme" where
  "setCurrIterToBegin s = s\<lparr>currIter := std_begin (elementContainer s)\<rparr>"

definition updateCurrIterBeforeErase ::
  "'n \<Rightarrow> ('n, 'z) AccessOrderedSetBase_scheme \<Rightarrow> ('n, 'z) AccessOrderedSetBase_scheme" where
  "updateCurrIterBeforeErase toEraseIter s =
    (if currIter s = Some toEraseIter then
       let nextIter = next_iter (elementContainer s) toEraseIter in
       if nextIter = None \<and> length (elementContainer s) \<ge> 2 then setCurrIterToBegin s
       else s\<lparr>currIter := nextIter\<rparr>
     else s)"

text \<open>Erasing a node that the container does not hold is undefined.\<close>

definition base_erase ::
  "'n \<Rightarrow> ('n, 'z) AccessOrderedSetBase_scheme \<Rightarrow> ('n, 'z) AccessOrderedSetBase_scheme result" where
  "base_erase toEraseIter s =
    (if toEraseIter \<in> set (elementContainer s) then
       let s1 = updateCurrIterBeforeErase toEraseIter s in
       Inr (s1\<lparr>elementContainer := remove1 toEraseIter (elementContainer s1)\<rparr>)
     else Inl Undefined_behaviour)"

subsection \<open>Its iterator\<close>

record 'n SetIterator =
  innerIter :: "'n option"
  nElementsToIterateOver :: nat
  wasIncremented :: bool

definition iter_begin :: "('n, 'z) AccessOrderedSetBase_scheme \<Rightarrow> 'n SetIterator" where
  "iter_begin s = \<lparr>innerIter = currIter s, nElementsToIterateOver = length (elementContainer s),
     wasIncremented = False\<rparr>"

definition iter_end :: "('n, 'z) AccessOrderedSetBase_scheme \<Rightarrow> 'n SetIterator" where
  "iter_end s = \<lparr>innerIter = None, nElementsToIterateOver = 0, wasIncremented = False\<rparr>"

definition iter_equal :: "'n SetIterator \<Rightarrow> 'n SetIterator \<Rightarrow> bool" where
  "iter_equal a b \<longleftrightarrow> nElementsToIterateOver a = nElementsToIterateOver b"

definition iter_deref :: "'n SetIterator \<Rightarrow> 'n result" where
  "iter_deref it = (case innerIter it of None \<Rightarrow> Inl Undefined_behaviour | Some x \<Rightarrow> Inr x)"

text \<open>The counter is a \<open>size_t\<close>: decrementing zero wraps around.\<close>

definition iter_increment ::
  "('n, 'z) AccessOrderedSetBase_scheme \<Rightarrow> 'n SetIterator \<Rightarrow> 'n SetIterator result" where
  "iter_increment s it =
    (case innerIter it of
       None \<Rightarrow> Inl Undefined_behaviour
     | Some x \<Rightarrow> Inr \<lparr>innerIter =
           (case next_iter (elementContainer s) x of
              None \<Rightarrow> std_begin (elementContainer s)
            | Some y \<Rightarrow> Some y),
         nElementsToIterateOver = (nElementsToIterateOver it + 2 ^ 64 - 1) mod 2 ^ 64,
         wasIncremented = True\<rparr>)"

definition iter_destroy ::
  "'n SetIterator \<Rightarrow> ('n, 'z) AccessOrderedSetBase_scheme \<Rightarrow> ('n, 'z) AccessOrderedSetBase_scheme" where
  "iter_destroy it s =
    (if wasIncremented it \<and> nElementsToIterateOver it > 0 then s\<lparr>currIter := innerIter it\<rparr> else s)"

text \<open>A loop over the set that leaves after at most \<open>k\<close> increments: the nodes accessed before
  each increment, and the set after the loop's iterator is destroyed.\<close>

fun visit :: "nat \<Rightarrow> ('n, 'z) AccessOrderedSetBase_scheme \<Rightarrow> 'n SetIterator \<Rightarrow> ('n list \<times> 'n SetIterator) result" where
  "visit 0 s it = Inr ([], it)"
| "visit (Suc k) s it =
    (if iter_equal it (iter_end s) then Inr ([], it)
     else bindE (iter_deref it) (\<lambda>x.
       bindE (iter_increment s it) (\<lambda>it'.
         bindE (visit k s it') (\<lambda>(xs, it''). Inr (x # xs, it'')))))"

definition iterate ::
  "nat \<Rightarrow> ('n, 'z) AccessOrderedSetBase_scheme \<Rightarrow> ('n list \<times> ('n, 'z) AccessOrderedSetBase_scheme) result" where
  "iterate k s = bindE (visit k s (iter_begin s)) (\<lambda>(xs, it). Inr (xs, iter_destroy it s))"

section \<open>AccessOrderedFastSet\<close>

text \<open>List nodes have an identity, drawn from \<open>nextNode\<close>, besides their element.\<close>

record 'a AccessOrderedFastSet = "(nat \<times> 'a) AccessOrderedSetBase" +
  elementToIterator :: "'a \<Rightarrow> (nat \<times> 'a) option"
  nextNode :: nat

definition mkAccessOrderedFastSet :: "'a AccessOrderedFastSet" where
  "mkAccessOrderedFastSet =
    \<lparr>elementContainer = [], currIter = None, elementToIterator = Map.empty, nextNode = 0\<rparr>"

fun populateElementToIterator ::
  "(nat \<times> 'a) list \<Rightarrow> ('a \<Rightarrow> (nat \<times> 'a) option) \<Rightarrow> 'a \<Rightarrow> (nat \<times> 'a) option" where
  "populateElementToIterator [] m = m"
| "populateElementToIterator (nd # nds) m =
    populateElementToIterator nds (if m (snd nd) = None then m(snd nd \<mapsto> nd) else m)"

definition copy_nodes :: "nat \<Rightarrow> (nat \<times> 'a) list \<Rightarrow> (nat \<times> 'a) list" where
  "copy_nodes n nds = zip [n..<n + length nds] (map snd nds)"

definition fast_copy :: "'a AccessOrderedFastSet \<Rightarrow> 'a AccessOrderedFastSet" where
  "fast_copy other =
    (let nds = copy_nodes 0 (elementContainer other) in
     \<lparr>elementContainer = nds, currIter = std_begin nds,
      elementToIterator = populateElementToIterator nds Map.empty, nextNode = length nds\<rparr>)"

definition fast_assign :: "'a AccessOrderedFastSet \<Rightarrow> 'a AccessOrderedFastSet \<Rightarrow> 'a AccessOrderedFastSet" where
  "fast_assign other s =
    (let nds = copy_nodes (nextNode s) (elementContainer other) in
     \<lparr>elementContainer = nds, currIter = std_begin nds,
      elementToIterator = populateElementToIterator nds (elementToIterator s),
      nextNode = nextNode s + length nds\<rparr>)"

definition fast_insert :: "'a \<Rightarrow> 'a AccessOrderedFastSet \<Rightarrow> 'a AccessOrderedFastSet" where
  "fast_insert e s =
    (if elementToIterator s e \<noteq> None then s
     else
       let nd = (nextNode s, e);
           s1 = s\<lparr>elementContainer := elementContainer s @ [nd],
                  elementToIterator := (elementToIterator s)(e \<mapsto> nd), nextNode := Suc (nextNode s)\<rparr>
       in if length (elementContainer s1) = 1 then setCurrIterToBegin s1 else s1)"

definition fast_erase :: "'a \<Rightarrow> 'a AccessOrderedFastSet \<Rightarrow> 'a AccessOrderedFastSet result" where
  "fast_erase e s =
    (case elementToIterator s e of
       None \<Rightarrow> Inr s
     | Some toEraseIter \<Rightarrow> bindE (base_erase toEraseIter s) (\<lambda>s1.
         Inr (s1\<lparr>elementToIterator := (elementToIterator s1)(e := None)\<rparr>)))"

definition fast_contains :: "'a \<Rightarrow> 'a AccessOrderedFastSet \<Rightarrow> bool" where
  "fast_contains e s \<longleftrightarrow> elementToIterator s e \<noteq> None"

definition fast_elements :: "'a AccessOrderedFastSet \<Rightarrow> 'a list" where
  "fast_elements s = map snd (elementContainer s)"

section \<open>AccessOrderedSortedSet\<close>

definition mkAccessOrderedSortedSet :: "'a AccessOrderedSetBase" where
  "mkAccessOrderedSortedSet = \<lparr>elementContainer = [], currIter = None\<rparr>"

definition sorted_copy :: "'a AccessOrderedSetBase \<Rightarrow> 'a AccessOrderedSetBase" where
  "sorted_copy other = setCurrIterToBegin \<lparr>elementContainer = elementContainer other, currIter = None\<rparr>"

definition sorted_insert :: "('a \<Rightarrow> 'a \<Rightarrow> bool) \<Rightarrow> 'a \<Rightarrow> 'a AccessOrderedSetBase \<Rightarrow> 'a AccessOrderedSetBase" where
  "sorted_insert lt e s =
    (if std_contains lt e (elementContainer s) then s
     else setCurrIterToBegin (s\<lparr>elementContainer := std_insert lt e (elementContainer s)\<rparr>))"

definition sorted_erase :: "('a \<Rightarrow> 'a \<Rightarrow> bool) \<Rightarrow> 'a \<Rightarrow> 'a AccessOrderedSetBase \<Rightarrow> 'a AccessOrderedSetBase result" where
  "sorted_erase lt e s =
    (case std_find lt e (elementContainer s) of
       None \<Rightarrow> Inr s
     | Some toEraseIter \<Rightarrow> base_erase toEraseIter s)"

definition sorted_contains :: "('a \<Rightarrow> 'a \<Rightarrow> bool) \<Rightarrow> 'a \<Rightarrow> 'a AccessOrderedSetBase \<Rightarrow> bool" where
  "sorted_contains lt e s \<longleftrightarrow> std_contains lt e (elementContainer s)"

section \<open>The order of the next iteration\<close>

definition order_from :: "'n list \<Rightarrow> 'n \<Rightarrow> 'n list" where
  "order_from xs c = dropWhile (\<lambda>y. y \<noteq> c) xs @ takeWhile (\<lambda>y. y \<noteq> c) xs"

definition access_order :: "('n, 'z) AccessOrderedSetBase_scheme \<Rightarrow> 'n list" where
  "access_order s = (case currIter s of None \<Rightarrow> [] | Some c \<Rightarrow> order_from (elementContainer s) c)"

definition base_inv :: "('n, 'z) AccessOrderedSetBase_scheme \<Rightarrow> bool" where
  "base_inv s \<longleftrightarrow> distinct (elementContainer s)
     \<and> (case currIter s of None \<Rightarrow> elementContainer s = [] | Some c \<Rightarrow> c \<in> set (elementContainer s))"

lemma split_at:
  assumes "c \<in> set xs" "distinct xs"
  obtains ys zs where "xs = ys @ c # zs" "c \<notin> set ys" "c \<notin> set zs" "distinct (ys @ zs)"
proof -
  from assms(1) obtain ys zs where "xs = ys @ c # zs" "c \<notin> set ys" by (meson split_list_first)
  then show thesis using assms(2) that by auto
qed

lemma order_from_split: "c \<notin> set ys \<Longrightarrow> order_from (ys @ c # zs) c = c # zs @ ys"
proof -
  assume "c \<notin> set ys"
  then have "dropWhile (\<lambda>y. y \<noteq> c) (ys @ c # zs) = c # zs" "takeWhile (\<lambda>y. y \<noteq> c) (ys @ c # zs) = ys"
    by (induction ys) auto
  then show ?thesis by (simp add: order_from_def)
qed

lemma next_iter_split: "c \<notin> set ys \<Longrightarrow> next_iter (ys @ c # zs) c = std_begin zs"
  unfolding next_iter_def std_begin_def by (induction ys) (auto split: list.splits)

lemma mset_order_from: "mset (order_from xs c) = mset xs"
  by (metis order_from_def mset_append add.commute takeWhile_dropWhile_id)

lemma order_from_next:
  assumes "distinct xs" "c \<in> set xs"
  shows "\<exists>d. (case next_iter xs c of None \<Rightarrow> std_begin xs | Some y \<Rightarrow> Some y) = Some d
    \<and> d \<in> set xs \<and> order_from xs d = rotate1 (order_from xs c)"
proof -
  from assms obtain ys zs where xs: "xs = ys @ c # zs" "c \<notin> set ys" "c \<notin> set zs" "distinct (ys @ zs)"
    by (metis split_at)
  note next_c = next_iter_split[OF xs(2), of zs] order_from_split[OF xs(2), of zs]
  show ?thesis
  proof (cases zs)
    case Nil
    then show ?thesis using next_c xs order_from_split[of "hd (ys @ [c])" "[]" "tl (ys @ [c])"]
      by (cases ys) (auto simp: std_begin_def)
  next
    case (Cons z zs')
    then have "z \<notin> set (ys @ [c])" using xs by auto
    then show ?thesis using next_c xs(1) Cons order_from_split[of z "ys @ [c]" zs']
      by (auto simp: std_begin_def)
  qed
qed

lemma map_remove1_inj: "distinct (map f xs) \<Longrightarrow> x \<in> set xs \<Longrightarrow> map f (remove1 x xs) = remove1 (f x) (map f xs)"
  by (induction xs) (auto simp: image_iff)

lemma access_order_set: "base_inv s \<Longrightarrow> mset (access_order s) = mset (elementContainer s)"
  by (auto simp: base_inv_def access_order_def mset_order_from split: option.splits)

lemma access_order_length: "base_inv s \<Longrightarrow> length (access_order s) = length (elementContainer s)"
  using access_order_set[of s] by (metis size_mset)

lemma access_order_distinct: "base_inv s \<Longrightarrow> distinct (access_order s) \<and> set (access_order s) = set (elementContainer s)"
  using access_order_set[of s] by (metis base_inv_def mset_eq_imp_distinct_iff mset_eq_setD)

text \<open>The loop walks along the rotated order.\<close>

lemma visit_correct:
  assumes "distinct (elementContainer s)" "c \<in> set (elementContainer s)" "length (elementContainer s) < 2 ^ 64"
    and "innerIter it = Some c" "n = nElementsToIterateOver it" "n \<le> length (elementContainer s)"
  shows "\<exists>d it'. visit k s it = Inr (take (min k n) (order_from (elementContainer s) c), it')
    \<and> innerIter it' = Some d \<and> d \<in> set (elementContainer s)
    \<and> order_from (elementContainer s) d = rotate (min k n) (order_from (elementContainer s) c)
    \<and> nElementsToIterateOver it' = n - min k n
    \<and> (wasIncremented it' \<longleftrightarrow> wasIncremented it \<or> 0 < min k n)"
  using assms
proof (induction k arbitrary: it c n)
  case (Suc k)
  show ?case
  proof (cases "n = 0")
    case True
    then show ?thesis using Suc.prems by (auto simp: iter_equal_def iter_end_def)
  next
    case False
    obtain d where d: "(case next_iter (elementContainer s) c of
          None \<Rightarrow> std_begin (elementContainer s) | Some y \<Rightarrow> Some y) = Some d"
        "d \<in> set (elementContainer s)" "order_from (elementContainer s) d = rotate1 (order_from (elementContainer s) c)"
      using order_from_next[OF Suc.prems(1,2)] by blast
    define it1 where "it1 = \<lparr>innerIter = Some d, nElementsToIterateOver = n - 1, wasIncremented = True\<rparr>"
    have "(n + 2 ^ 64 - 1) mod 2 ^ 64 = n - 1"
      using False Suc.prems(3,6) by (simp add: mod_if)
    then have inc: "iter_increment s it = Inr it1"
      using Suc.prems(4,5) d(1) by (simp add: iter_increment_def it1_def)
    obtain ys zs where "elementContainer s = ys @ c # zs" "c \<notin> set ys" using Suc.prems(1,2) by (metis split_at)
    then obtain rest where rest: "order_from (elementContainer s) c = c # rest" by (simp add: order_from_split)
    have len: "length rest = length (elementContainer s) - 1"
      using rest mset_order_from[of "elementContainer s" c] by (metis size_mset diff_Suc_1 length_Cons)
    define j where "j = min k (n - 1)"
    have j: "min (Suc k) n = Suc j" "n - 1 - j = n - Suc j" "j \<le> length rest"
      using False len Suc.prems(6) by (auto simp: j_def)
    have it1: "innerIter it1 = Some d" "n - 1 = nElementsToIterateOver it1" "n - 1 \<le> length (elementContainer s)"
      using Suc.prems(6) by (auto simp: it1_def)
    obtain e it2 where it2: "visit k s it1 = Inr (take j (rest @ [c]), it2)" "innerIter it2 = Some e"
        "e \<in> set (elementContainer s)" "order_from (elementContainer s) e = rotate j (rest @ [c])"
        "nElementsToIterateOver it2 = n - 1 - j" "wasIncremented it2"
      using Suc.IH[OF Suc.prems(1) d(2) Suc.prems(3) it1] unfolding d(3) rest rotate1.simps j_def[symmetric]
      by (auto simp: it1_def simp del: take_append)
    have "visit (Suc k) s it = Inr (c # take j (rest @ [c]), it2)"
      using it2(1) inc False Suc.prems(4,5) by (simp add: iter_equal_def iter_end_def iter_deref_def)
    then show ?thesis using it2 j rest by (auto simp: rotate1_rotate_swap)
  qed
qed auto

lemma iterate_empty: "elementContainer s = [] \<Longrightarrow> iterate k s = Inr ([], s)"
  by (cases k) (simp_all add: iterate_def iter_begin_def iter_equal_def iter_end_def iter_destroy_def)

lemma iterate_correct:
  assumes "base_inv s" "length (elementContainer s) < 2 ^ 64"
  shows "\<exists>s'. iterate k s = Inr (take k (access_order s), s') \<and> base_inv s'
    \<and> elementContainer s' = elementContainer s
    \<and> access_order s' = rotate (min k (length (elementContainer s))) (access_order s)"
proof (cases "currIter s")
  case None
  then have "elementContainer s = []" "access_order s = []"
    using assms(1) by (simp_all add: base_inv_def access_order_def)
  then show ?thesis using assms(1) by (simp add: iterate_empty)
next
  case (Some c)
  let ?xs = "elementContainer s" and ?n = "length (elementContainer s)"
  define j where "j = min k ?n"
  have c: "distinct ?xs" "c \<in> set ?xs" using assms(1) Some by (auto simp: base_inv_def)
  have order: "access_order s = order_from ?xs c" using Some by (simp add: access_order_def)
  have len: "length (access_order s) = ?n" using access_order_length[OF assms(1)] .
  have b: "innerIter (iter_begin s) = Some c" "?n = nElementsToIterateOver (iter_begin s)" "\<not> wasIncremented (iter_begin s)"
    using Some by (simp_all add: iter_begin_def)
  obtain d it where it: "visit k s (iter_begin s) = Inr (take j (access_order s), it)"
      "innerIter it = Some d" "d \<in> set ?xs" "order_from ?xs d = rotate j (access_order s)"
      "nElementsToIterateOver it = ?n - j" "wasIncremented it \<longleftrightarrow> 0 < j"
    using visit_correct[OF c assms(2) b(1,2) order_refl, of k] b(3) unfolding order j_def by auto
  have taken: "take j (access_order s) = take k (access_order s)" using len by (simp add: j_def min_def)
  define s' where "s' = iter_destroy it s"
  have "iterate k s = Inr (take k (access_order s), s')"
    using it(1) taken by (simp add: iterate_def s'_def)
  moreover have "elementContainer s' = ?xs" by (simp add: s'_def iter_destroy_def)
  moreover have "base_inv s' \<and> access_order s' = rotate j (access_order s)"
  proof (cases "0 < j \<and> j < ?n")
    case True
    then have "s' = s\<lparr>currIter := Some d\<rparr>" using it(2,5,6) by (simp add: s'_def iter_destroy_def)
    then show ?thesis using it(3,4) c(1) by (simp add: base_inv_def access_order_def)
  next
    case False
    then have "s' = s" "j = 0 \<or> j = length (access_order s)"
      using it(5,6) len by (auto simp: s'_def iter_destroy_def j_def)
    then show ?thesis using assms(1) by auto
  qed
  ultimately show ?thesis by (auto simp: j_def)
qed

lemma access_order_split:
  "\<lbrakk> elementContainer s = ys @ c # zs; currIter s = Some c; c \<notin> set ys \<rbrakk> \<Longrightarrow> access_order s = c # zs @ ys"
  by (simp add: access_order_def order_from_split)

lemma updateCurrIterBeforeErase_cursor:
  assumes "elementContainer s = ys @ c # zs" "currIter s = Some c" "c \<notin> set ys"
  shows "updateCurrIterBeforeErase e s = s\<lparr>currIter := (if e = c then std_begin (zs @ ys) else Some c)\<rparr>"
proof (cases "e = c")
  case True
  then show ?thesis using assms next_iter_split[OF assms(3), of zs]
    by (cases zs; cases ys) (simp_all add: updateCurrIterBeforeErase_def setCurrIterToBegin_def std_begin_def)
next
  case False
  then show ?thesis using assms by (simp add: updateCurrIterBeforeErase_def)
qed

lemma erase_cursor_order:
  assumes "elementContainer s = ys @ zs" "currIter s = std_begin (zs @ ys)" "distinct (ys @ zs)"
  shows "base_inv s \<and> access_order s = zs @ ys"
proof (cases zs)
  case Nil
  then show ?thesis using assms access_order_split[of s "[]" "hd ys" "tl ys"]
    by (cases ys) (simp_all add: base_inv_def access_order_def std_begin_def)
next
  case (Cons z zs')
  then show ?thesis using assms access_order_split[of s ys z zs']
    by (simp add: base_inv_def std_begin_def)
qed

lemma base_erase_order:
  assumes "base_inv s" "e \<in> set (elementContainer s)"
  shows "\<exists>s'. base_erase e s = Inr s' \<and> base_inv s' \<and> elementContainer s' = remove1 e (elementContainer s)
    \<and> access_order s' = remove1 e (access_order s)"
proof -
  obtain c where c: "currIter s = Some c" "c \<in> set (elementContainer s)" "distinct (elementContainer s)"
    using assms by (auto simp: base_inv_def split: option.splits)
  then obtain ys zs where xs: "elementContainer s = ys @ c # zs" "c \<notin> set ys" "c \<notin> set zs" "distinct (ys @ zs)"
    by (metis split_at)
  define s' where "s' = s\<lparr>currIter := (if e = c then std_begin (zs @ ys) else Some c),
    elementContainer := remove1 e (elementContainer s)\<rparr>"
  have erase: "base_erase e s = Inr s'"
    using assms(2) updateCurrIterBeforeErase_cursor[OF xs(1) c(1) xs(2)] by (simp add: base_erase_def s'_def)
  have order: "access_order s = c # zs @ ys" using access_order_split[OF xs(1) c(1) xs(2)] .
  have "base_inv s' \<and> access_order s' = remove1 e (access_order s)"
  proof (cases "e = c")
    case True
    then show ?thesis using erase_cursor_order[of s' ys zs] xs order by (simp add: s'_def remove1_append)
  next
    case False
    define ys' where "ys' = remove1 e ys" define zs' where "zs' = remove1 e zs"
    have "e \<notin> set ys \<or> e \<notin> set zs" using xs(4) by auto
    then have el: "elementContainer s' = ys' @ c # zs'" "remove1 e (zs @ ys) = zs' @ ys'"
      using xs(1) False by (auto simp: s'_def ys'_def zs'_def remove1_append remove1_idem)
    have "c \<notin> set ys'" "c \<notin> set zs'" using xs(2,3) by (auto simp: ys'_def zs'_def dest: notin_set_remove1)
    moreover have "distinct (remove1 e (elementContainer s))" using c(3) by (rule distinct_remove1)
    ultimately show ?thesis using access_order_split[of s' ys' c zs'] el order False
      by (auto simp: base_inv_def s'_def)
  qed
  then show ?thesis using erase by (auto simp: s'_def)
qed

section \<open>The fast set is a mutable set\<close>

definition fast_inv :: "'a AccessOrderedFastSet \<Rightarrow> bool" where
  "fast_inv s \<longleftrightarrow> base_inv s \<and> distinct (map snd (elementContainer s))
     \<and> (\<forall>nd \<in> set (elementContainer s). fst nd < nextNode s)
     \<and> (\<forall>e nd. elementToIterator s e = Some nd \<longleftrightarrow> nd \<in> set (elementContainer s) \<and> snd nd = e)"

lemma fast_lookup_iff: "fast_inv s \<Longrightarrow> elementToIterator s e \<noteq> None \<longleftrightarrow> e \<in> set (fast_elements s)"
  by (force simp: fast_inv_def fast_elements_def)

lemma mkAccessOrderedFastSet_inv: "fast_inv mkAccessOrderedFastSet"
  by (simp add: fast_inv_def base_inv_def mkAccessOrderedFastSet_def)

lemma fast_insert_new:
  assumes "fast_inv s" "elementToIterator s e = None"
  shows "fast_inv (fast_insert e s)" "fast_elements (fast_insert e s) = fast_elements s @ [e]"
proof -
  have e: "e \<notin> set (fast_elements s)" using fast_lookup_iff[OF assms(1)] assms(2) by blast
  have new: "(nextNode s, x) \<notin> set (elementContainer s)" for x using assms(1) by (force simp: fast_inv_def)
  show elems: "fast_elements (fast_insert e s) = fast_elements s @ [e]"
    using assms(2) by (simp add: fast_insert_def fast_elements_def Let_def setCurrIterToBegin_def)
  have el: "elementContainer (fast_insert e s) = elementContainer s @ [(nextNode s, e)]"
      "elementToIterator (fast_insert e s) = (elementToIterator s)(e \<mapsto> (nextNode s, e))"
      "nextNode (fast_insert e s) = Suc (nextNode s)"
      "currIter (fast_insert e s) = (if elementContainer s = [] then Some (nextNode s, e) else currIter s)"
    using assms(2) by (auto simp: fast_insert_def Let_def setCurrIterToBegin_def std_begin_def)
  have "base_inv (fast_insert e s)"
    using assms(1) el new by (auto simp: fast_inv_def base_inv_def split: option.splits)
  moreover have "distinct (map snd (elementContainer (fast_insert e s)))"
    using assms(1) e el by (simp add: fast_inv_def fast_elements_def)
  ultimately show "fast_inv (fast_insert e s)"
    using assms(1) e new unfolding fast_inv_def el fast_elements_def
    by (auto simp: less_Suc_eq) (metis snd_conv image_eqI)+
qed

lemma fast_insert_present: "elementToIterator s e \<noteq> None \<Longrightarrow> fast_insert e s = s"
  by (simp add: fast_insert_def)

lemma base_erase_more:
  "base_erase nd s = Inr s1 \<Longrightarrow> elementToIterator s1 = elementToIterator s \<and> nextNode s1 = nextNode s"
  by (auto simp: base_erase_def updateCurrIterBeforeErase_def setCurrIterToBegin_def Let_def split: if_splits)

lemma fast_insert_inv: "fast_inv s \<Longrightarrow> fast_inv (fast_insert e s)"
  using fast_insert_new(1)[of s e] fast_insert_present[of s e] by (cases "elementToIterator s e = None") auto

lemma base_inv_map: "base_inv (s\<lparr>elementToIterator := m\<rparr>) = base_inv s"
  by (simp add: base_inv_def cong: option.case_cong)

lemma fast_erase_present:
  assumes "fast_inv s" "elementToIterator s e = Some nd"
  shows "\<exists>s'. fast_erase e s = Inr s' \<and> fast_inv s' \<and> elementContainer s' = remove1 nd (elementContainer s)
    \<and> access_order s' = remove1 nd (access_order s)"
proof -
  have nd: "nd \<in> set (elementContainer s)" "snd nd = e" "base_inv s"
    using assms unfolding fast_inv_def by blast+
  then obtain s1 where s1: "base_erase nd s = Inr s1" "base_inv s1"
      "elementContainer s1 = remove1 nd (elementContainer s)" "access_order s1 = remove1 nd (access_order s)"
    using base_erase_order[of s nd] by blast
  let ?s' = "s1\<lparr>elementToIterator := (elementToIterator s1)(e := None)\<rparr>"
  have unique: "x \<in> set (elementContainer s) \<Longrightarrow> snd x = e \<Longrightarrow> x = nd" for x
    using assms nd by (metis fast_inv_def option.inject)
  have d: "distinct (elementContainer s)" using nd(3) by (simp add: base_inv_def)
  have "distinct (map snd (remove1 nd (elementContainer s)))"
    using assms(1) by (metis fast_inv_def distinct_map distinct_remove1 inj_on_subset set_remove1_subset)
  moreover have "((elementToIterator s)(e := None)) x = Some y \<longleftrightarrow> y \<in> set (elementContainer s) - {nd} \<and> snd y = x" for x y
  proof (cases "x = e")
    case True
    then show ?thesis using unique[of y] by auto
  next
    case False
    have "elementToIterator s x = Some y \<longleftrightarrow> y \<in> set (elementContainer s) \<and> snd y = x"
      using assms(1) unfolding fast_inv_def by blast
    then show ?thesis using False nd(2) by auto
  qed
  ultimately have "fast_inv ?s'"
    using assms(1) s1(2,3) base_erase_more[OF s1(1)] d base_inv_map[of _ s1] unfolding fast_inv_def
    by (simp add: set_remove1_eq)
  moreover have "access_order ?s' = access_order s1" by (simp add: access_order_def cong: option.case_cong)
  ultimately show ?thesis using assms(2) s1 by (simp add: fast_erase_def)
qed

lemma fast_erase_set:
  assumes "fast_inv s"
  shows "\<exists>s'. fast_erase e s = Inr s' \<and> fast_inv s' \<and> set (fast_elements s') = set (fast_elements s) - {e}"
proof (cases "elementToIterator s e")
  case None
  then show ?thesis using assms fast_lookup_iff[OF assms, of e] by (simp add: fast_erase_def)
next
  case (Some nd)
  have nd: "nd \<in> set (elementContainer s)" "snd nd = e" "distinct (map snd (elementContainer s))"
    using assms Some unfolding fast_inv_def by blast+
  have "set (map snd (remove1 nd (elementContainer s))) = set (map snd (elementContainer s)) - {e}"
    using nd by (auto simp: distinct_map set_remove1_eq dest: inj_onD)
  then show ?thesis using fast_erase_present[OF assms Some] by (auto simp: fast_elements_def)
qed

interpretation fastset: dynamic_set "\<lambda>e s. Inr (fast_insert e s)" fast_erase fast_contains
    "\<lambda>s. set (fast_elements s)" fast_inv UNIV
proof
  fix s :: "'a AccessOrderedFastSet" and x
  assume s: "fast_inv s"
  show "\<exists>s'. Inr (fast_insert x s) = (Inr s' :: _ result) \<and> fast_inv s'
      \<and> set (fast_elements s') = insert x (set (fast_elements s))"
    using s fast_insert_new[OF s] fast_insert_present[of s x] fast_lookup_iff[OF s, of x]
    by (cases "elementToIterator s x = None") (auto simp: insert_absorb)
  show "\<exists>s'. fast_erase x s = Inr s' \<and> fast_inv s' \<and> set (fast_elements s') = set (fast_elements s) - {x}"
    using fast_erase_set[OF s] .
  show "fast_contains x s \<longleftrightarrow> x \<in> set (fast_elements s)"
    using fast_lookup_iff[OF s] by (simp add: fast_contains_def)
qed

section \<open>The sorted set is a mutable set\<close>

definition sorted_ok :: "('a \<Rightarrow> 'a \<Rightarrow> bool) \<Rightarrow> 'a set \<Rightarrow> 'a AccessOrderedSetBase \<Rightarrow> bool" where
  "sorted_ok lt D s \<longleftrightarrow> base_inv s \<and> set (elementContainer s) \<subseteq> D \<and> sorted_wrt lt (elementContainer s)"

lemma setCurrIterToBegin_inv: "distinct (elementContainer s) \<Longrightarrow> base_inv (setCurrIterToBegin s)"
  by (simp add: base_inv_def setCurrIterToBegin_def std_begin_def split: list.splits)

context strict_order_on
begin

lemma sorted_insert_ok:
  assumes "sorted_ok lt D s" "x \<in> D"
  shows "sorted_ok lt D (sorted_insert lt x s)"
    "set (elementContainer (sorted_insert lt x s)) = insert x (set (elementContainer s))"
    "x \<notin> set (elementContainer s) \<Longrightarrow> access_order (sorted_insert lt x s) = elementContainer (sorted_insert lt x s)"
proof -
  let ?xs = "elementContainer s" and ?ys = "std_insert lt x (elementContainer s)"
  have xs: "set ?xs \<subseteq> D" "sorted_wrt lt ?xs" using assms(1) by (auto simp: sorted_ok_def)
  note ins = insert_set[OF assms(2) xs(1)] insert_sorted[OF assms(2) xs]
  have "distinct ?ys" using sorted_distinct[of ?ys] ins xs assms(2) by auto
  then have fresh: "base_inv (setCurrIterToBegin (s\<lparr>elementContainer := ?ys\<rparr>))"
    by (intro setCurrIterToBegin_inv) simp
  show "sorted_ok lt D (sorted_insert lt x s)"
    using fresh ins xs assms by (auto simp: sorted_ok_def sorted_insert_def setCurrIterToBegin_def)
  show "set (elementContainer (sorted_insert lt x s)) = insert x (set ?xs)"
    using ins contains_iff[OF assms(2) xs] by (auto simp: sorted_insert_def setCurrIterToBegin_def)
  show "access_order (sorted_insert lt x s) = elementContainer (sorted_insert lt x s)" if "x \<notin> set ?xs"
  proof -
    have "order_from (y # ys) y = y # ys" for y and ys :: "'a list" by (simp add: order_from_def)
    then show ?thesis using that contains_iff[OF assms(2) xs]
      by (simp add: sorted_insert_def setCurrIterToBegin_def access_order_def std_begin_def split: list.splits)
  qed
qed

lemma sorted_erase_ok:
  assumes "sorted_ok lt D s" "x \<in> D"
  shows "\<exists>s'. sorted_erase lt x s = Inr s' \<and> sorted_ok lt D s' \<and> set (elementContainer s') = set (elementContainer s) - {x}
    \<and> access_order s' = remove1 x (access_order s)"
proof -
  have xs: "set (elementContainer s) \<subseteq> D" "sorted_wrt lt (elementContainer s)" "base_inv s"
    using assms(1) by (auto simp: sorted_ok_def)
  note found = find_iff[OF assms(2) xs(1,2)]
  show ?thesis
  proof (cases "x \<in> set (elementContainer s)")
    case True
    then obtain s' where "base_erase x s = Inr s'" "base_inv s'" "elementContainer s' = remove1 x (elementContainer s)"
        "access_order s' = remove1 x (access_order s)" using base_erase_order[OF xs(3)] by blast
    then show ?thesis using True found erase_set[OF assms(2) xs(1,2)] erase_sorted[OF assms(2) xs(1,2)] xs(1)
      by (auto simp: sorted_erase_def sorted_ok_def erase_remove1[OF assms(2) xs(1,2)])
  next
    case False
    then show ?thesis using found assms(1) access_order_distinct[OF xs(3)]
      by (auto simp: sorted_erase_def remove1_idem)
  qed
qed

lemma sorted_contains_ok: "sorted_ok lt D s \<Longrightarrow> x \<in> D \<Longrightarrow> sorted_contains lt x s \<longleftrightarrow> x \<in> set (elementContainer s)"
  by (simp add: sorted_contains_def sorted_ok_def contains_iff)

end

sublocale strict_order_on \<subseteq> accsorted: dynamic_set "\<lambda>e s. Inr (sorted_insert lt e s)" "sorted_erase lt" "sorted_contains lt"
    "\<lambda>s. set (elementContainer s)" "sorted_ok lt D" D
proof
  fix s x
  assume s: "sorted_ok lt D s" "x \<in> D"
  show "\<exists>s'. Inr (sorted_insert lt x s) = (Inr s' :: _ result) \<and> sorted_ok lt D s'
      \<and> set (elementContainer s') = insert x (set (elementContainer s))"
    using sorted_insert_ok(1,2)[OF s] by blast
  show "\<exists>s'. sorted_erase lt x s = Inr s' \<and> sorted_ok lt D s' \<and> set (elementContainer s') = set (elementContainer s) - {x}"
    using sorted_erase_ok[OF s] by blast
  show "sorted_contains lt x s \<longleftrightarrow> x \<in> set (elementContainer s)" using sorted_contains_ok[OF s] .
qed

section \<open>Copy assignment of the fast set\<close>

lemma populate_keeps: "m e \<noteq> None \<Longrightarrow> populateElementToIterator nds m e \<noteq> None"
  by (induction nds arbitrary: m) auto

lemma populate_fresh:
  "\<lbrakk> distinct (map snd nds); \<forall>nd \<in> set nds. m (snd nd) = None \<rbrakk> \<Longrightarrow>
   populateElementToIterator nds m e = Some nd \<longleftrightarrow> (nd \<in> set nds \<and> snd nd = e) \<or> m e = Some nd"
proof (induction nds arbitrary: m)
  case (Cons x nds)
  have "\<forall>nd \<in> set nds. (m(snd x \<mapsto> x)) (snd nd) = None" using Cons.prems by (auto simp: image_iff)
  then have "populateElementToIterator nds (m(snd x \<mapsto> x)) e = Some nd \<longleftrightarrow>
      (nd \<in> set nds \<and> snd nd = e) \<or> (m(snd x \<mapsto> x)) e = Some nd"
    using Cons.IH Cons.prems(1) by simp
  then show ?case using Cons.prems by auto
qed auto

lemma copy_nodes_elements: "map snd (copy_nodes n nds) = map snd nds"
  by (simp add: copy_nodes_def)

lemma copy_nodes_ids: "nd \<in> set (copy_nodes n nds) \<Longrightarrow> fst nd < n + length nds"
  by (cases nd) (auto simp: copy_nodes_def dest: set_zip_leftD)

lemma fast_copy_inv:
  assumes "fast_inv s"
  shows "fast_inv (fast_copy s) \<and> fast_elements (fast_copy s) = fast_elements s
    \<and> map snd (access_order (fast_copy s)) = fast_elements s"
proof -
  let ?nds = "copy_nodes 0 (elementContainer s)"
  have d: "distinct (map snd ?nds)" using assms by (simp add: copy_nodes_elements fast_inv_def)
  have len: "length ?nds = length (elementContainer s)" by (simp add: copy_nodes_def)
  have base: "base_inv (fast_copy s)" "access_order (fast_copy s) = ?nds"
    using d unfolding distinct_map
    by (auto simp: base_inv_def access_order_def order_from_def fast_copy_def Let_def std_begin_def split: list.splits)
  moreover have "fast_inv (fast_copy s)"
    using base(1) d populate_fresh[OF d, of Map.empty] copy_nodes_ids[of _ 0 "elementContainer s"] len
    by (auto simp: fast_inv_def fast_copy_def Let_def)
  ultimately show ?thesis
    by (simp add: fast_elements_def fast_copy_def Let_def copy_nodes_elements)
qed

section \<open>Properties\<close>

text \<open>C24: an iteration over an access-ordered set resumes where the previous one stopped: a loop
  that leaves after \<open>k\<close> increments visits the first \<open>k\<close> elements of the access order, and the
  following complete loop visits the remaining elements first and then wraps around to those
  \<open>k\<close>, so that the two together visit every element and each loop visits no element twice.\<close>

theorem iteration_resumes:
  assumes "base_inv s" "length (elementContainer s) < 2 ^ 64" "k \<le> length (elementContainer s)"
  shows "\<exists>s' s''. iterate k s = Inr (take k (access_order s), s')
    \<and> iterate (length (elementContainer s')) s' = Inr (drop k (access_order s) @ take k (access_order s), s'')
    \<and> distinct (access_order s) \<and> set (access_order s) = set (elementContainer s)
    \<and> access_order s'' = access_order s' \<and> elementContainer s'' = elementContainer s"
proof -
  have n: "length (access_order s) = length (elementContainer s)" using access_order_length[OF assms(1)] .
  have k: "min k (length (elementContainer s)) = k" using assms(3) by simp
  have rot: "rotate k (access_order s) = drop k (access_order s) @ take k (access_order s)"
    using assms(3) n by (cases "k = length (elementContainer s)") (simp_all add: rotate_drop_take)
  obtain s' where s': "iterate k s = Inr (take k (access_order s), s')" "base_inv s'"
      "elementContainer s' = elementContainer s" "access_order s' = rotate k (access_order s)"
    using iterate_correct[OF assms(1,2), of k] unfolding k by blast
  obtain s'' where s'': "iterate (length (elementContainer s')) s' = Inr (take (length (elementContainer s')) (access_order s'), s'')"
      "elementContainer s'' = elementContainer s'"
      "access_order s'' = rotate (length (elementContainer s')) (access_order s')"
    using iterate_correct[OF s'(2), of "length (elementContainer s')"] s'(3) assms(2) by auto
  have n': "length (elementContainer s') = length (access_order s')" using n s'(3,4) by simp
  have "iterate (length (elementContainer s')) s' = Inr (drop k (access_order s) @ take k (access_order s), s'')"
    using s''(1) s'(4) rot unfolding n' by (metis take_all order_refl)
  moreover have "access_order s'' = access_order s'" using s''(3) unfolding n' by simp
  moreover have "elementContainer s'' = elementContainer s" using s''(2) s'(3) by simp
  ultimately show ?thesis using s'(1) access_order_distinct[OF assms(1)] by blast
qed

theorem iteration_resumes_witness:
  "\<exists>s' s''. iterate 2 \<lparr>elementContainer = [10, 20, 30], currIter = Some (20 :: nat)\<rparr> = Inr ([20, 30], s')
     \<and> iterate (length (elementContainer s')) s' = Inr ([10, 20, 30], s'')"
  using iteration_resumes[of "\<lparr>elementContainer = [10, 20, 30], currIter = Some (20 :: nat)\<rparr>" 2]
  by (auto simp: base_inv_def access_order_def order_from_def)

text \<open>C25: erasing an element between two iterations, including the one the cursor points to, only
  removes it from the order of the next iteration: the cursor stays valid and every other element
  keeps its turn.\<close>

theorem erase_keeps_order:
  assumes "fast_inv s"
  shows "\<exists>s'. fast_erase e s = Inr s' \<and> fast_inv s'
    \<and> map snd (access_order s') = remove1 e (map snd (access_order s))
    \<and> fast_elements s' = remove1 e (fast_elements s)"
proof (cases "elementToIterator s e")
  case None
  then have "e \<notin> set (fast_elements s)" using fast_lookup_iff[OF assms, of e] by blast
  moreover have "set (access_order s) = set (elementContainer s)"
    using assms access_order_distinct[of s] by (simp add: fast_inv_def)
  ultimately have "e \<notin> set (map snd (access_order s))" by (auto simp: fast_elements_def)
  with \<open>e \<notin> set (fast_elements s)\<close> show ?thesis using None assms by (simp add: fast_erase_def remove1_idem)
next
  case (Some nd)
  have nd: "nd \<in> set (elementContainer s)" "snd nd = e" "distinct (map snd (elementContainer s))" "base_inv s"
    using assms Some unfolding fast_inv_def by blast+
  have "mset (map snd (access_order s)) = mset (map snd (elementContainer s))"
    using access_order_set[OF nd(4)] by simp
  then have "distinct (map snd (access_order s))" using nd(3) by (metis mset_eq_imp_distinct_iff)
  then have "map snd (remove1 nd xs) = remove1 e (map snd xs)"
    if "xs = access_order s \<or> xs = elementContainer s" for xs
    using that nd access_order_distinct[OF nd(4)] map_remove1_inj[of snd xs nd] by auto
  then show ?thesis using fast_erase_present[OF assms Some] by (auto simp: fast_elements_def)
qed

lemma fast_abc:
  "map snd (access_order (fast_insert 30 (fast_insert 20 (fast_insert (10 :: nat) mkAccessOrderedFastSet)))) = [10, 20, 30]"
  by code_simp

theorem erase_keeps_order_witness:
  "\<exists>s'. fast_erase 20 (fast_insert 30 (fast_insert 20 (fast_insert (10 :: nat) mkAccessOrderedFastSet))) = Inr s'
     \<and> map snd (access_order s') = [10, 30]"
proof -
  have "fast_inv (fast_insert 30 (fast_insert 20 (fast_insert (10 :: nat) mkAccessOrderedFastSet)))"
    by (intro fast_insert_inv mkAccessOrderedFastSet_inv)
  from erase_keeps_order[OF this, of 20]
  have "\<exists>s'. fast_erase 20 (fast_insert 30 (fast_insert 20 (fast_insert (10 :: nat) mkAccessOrderedFastSet))) = Inr s'
      \<and> map snd (access_order s') = remove1 20 [10, 20, 30]" unfolding fast_abc by blast
  moreover have "remove1 20 [10, 20, 30 :: nat] = [10, 30]" by simp
  ultimately show ?thesis by metis
qed

text \<open>C26: every history of insertions and erasures of an \<open>AccessOrderedFastSet\<close> leaves the set that
  the same history leaves in a mathematical set, never fails, and \<open>contains\<close> answers membership.\<close>

theorem fast_set_refines_set:
  "\<exists>s. foldE (run_op (\<lambda>e s. Inr (fast_insert e s)) fast_erase) ops mkAccessOrderedFastSet = Inr s
     \<and> fast_inv s \<and> set (fast_elements s) = fold abs_op ops {}
     \<and> (\<forall>e. fast_contains e s = (e \<in> fold abs_op ops {}))"
proof -
  have "set (fast_elements (mkAccessOrderedFastSet :: 'a AccessOrderedFastSet)) = {}"
    by (simp add: fast_elements_def mkAccessOrderedFastSet_def)
  then obtain s where "foldE (run_op (\<lambda>e s. Inr (fast_insert e s)) fast_erase) ops mkAccessOrderedFastSet = Inr s"
      "fast_inv s" "set (fast_elements s) = fold abs_op ops {}"
    using fastset.run_refines[OF mkAccessOrderedFastSet_inv, of ops] by auto
  then show ?thesis using fastset.con_spec[of s] by auto
qed

text \<open>C34: copy assignment does not clear \<open>elementToIterator_\<close>: after assigning the empty set to a
  non-empty one, \<open>contains\<close> still answers true for an old element that the container no longer
  holds, and erasing that element follows a dangling iterator.\<close>

theorem fast_assign_keeps_stale_entries:
  assumes "fast_inv s" "e \<in> set (fast_elements s)"
  shows "fast_contains e (fast_assign mkAccessOrderedFastSet s)
    \<and> fast_elements (fast_assign mkAccessOrderedFastSet s) = []
    \<and> fast_erase e (fast_assign mkAccessOrderedFastSet s) = Inl Undefined_behaviour"
proof -
  have "elementToIterator s e \<noteq> None" using fast_lookup_iff[OF assms(1), of e] assms(2) by blast
  then show ?thesis
    by (auto simp: fast_contains_def fast_elements_def fast_erase_def fast_assign_def base_erase_def
        mkAccessOrderedFastSet_def copy_nodes_def Let_def)
qed

theorem fast_assign_keeps_stale_entries_witness:
  "fast_contains (7 :: nat) (fast_assign mkAccessOrderedFastSet (fast_insert 7 mkAccessOrderedFastSet))"
proof -
  have inv: "fast_inv (fast_insert (7 :: nat) mkAccessOrderedFastSet)" by (intro fast_insert_inv mkAccessOrderedFastSet_inv)
  have "fast_elements (fast_insert (7 :: nat) mkAccessOrderedFastSet) = [7]" by code_simp
  then show ?thesis using fast_assign_keeps_stale_entries[OF inv, of 7] by simp
qed

end
