(* ===== verification/Object_Store.thy ===== *)
theory Object_Store
  imports Access_Ordered
begin

text \<open>
  \<open>ObjectStore\<close> (\<open>solver/utils/ObjectStore.{h,cpp}\<close>): the objects of one
  container, held in one of four set representations, and the comparator
  \<open>ObjectScores\<close> that orders two of them, with its hash tie-break
  \<open>MurmurRehash64A\<close>. The order in which an unordered hash set is iterated is the
  parameter \<open>hash_order\<close>.
\<close>

unbundle bit_operations_syntax

section \<open>Definitions\<close>

definition murmur_m :: "64 word" where
  "murmur_m = 14313749767032793493"

definition MurmurRehash64A :: "64 word \<Rightarrow> 64 word" where
  "MurmurRehash64A key =
    (let h = 4193360111 XOR (8 * murmur_m);
         key = key * murmur_m;
         key = key XOR drop_bit 47 key;
         key = key * murmur_m;
         h = h XOR key;
         h = h * murmur_m;
         h = h XOR drop_bit 47 h;
         h = h * murmur_m;
         h = h XOR drop_bit 47 h
     in h)"

definition ObjectScores :: "(ObjectId \<Rightarrow> real) \<Rightarrow> ObjectId \<Rightarrow> ObjectId \<Rightarrow> bool" where
  "ObjectScores objectValues lhs rhs =
    (if objectValues lhs = objectValues rhs
     then MurmurRehash64A (of_nat lhs) < MurmurRehash64A (of_nat rhs)
     else objectValues lhs > objectValues rhs)"

datatype ObjectStore =
    SortedObjects "ObjectId \<Rightarrow> real" "ObjectId list"
  | UnorderedObjects "ObjectId set"
  | DynamicUnorderedObjects "ObjectId AccessOrderedFastSet"
  | DynamicSortedObjects "ObjectId \<Rightarrow> real" "ObjectId AccessOrderedSetBase"

definition factory_get :: "(ObjectId \<Rightarrow> real) option \<Rightarrow> bool \<Rightarrow> ObjectStore" where
  "factory_get scores useDynamicObjectOrdering =
    (case scores of
       None \<Rightarrow> if useDynamicObjectOrdering then DynamicUnorderedObjects mkAccessOrderedFastSet
               else UnorderedObjects {}
     | Some v \<Rightarrow> if useDynamicObjectOrdering then DynamicSortedObjects v mkAccessOrderedSortedSet
               else SortedObjects v [])"

fun store_insert :: "ObjectId \<Rightarrow> ObjectStore \<Rightarrow> ObjectStore result" where
  "store_insert obj (SortedObjects v xs) = Inr (SortedObjects v (std_insert (ObjectScores v) obj xs))"
| "store_insert obj (UnorderedObjects A) = Inr (UnorderedObjects (insert obj A))"
| "store_insert obj (DynamicUnorderedObjects s) = Inr (DynamicUnorderedObjects (fast_insert obj s))"
| "store_insert obj (DynamicSortedObjects v s) = Inr (DynamicSortedObjects v (sorted_insert (ObjectScores v) obj s))"

fun store_erase :: "ObjectId \<Rightarrow> ObjectStore \<Rightarrow> ObjectStore result" where
  "store_erase obj (SortedObjects v xs) = Inr (SortedObjects v (std_erase (ObjectScores v) obj xs))"
| "store_erase obj (UnorderedObjects A) = Inr (UnorderedObjects (A - {obj}))"
| "store_erase obj (DynamicUnorderedObjects s) = bindE (fast_erase obj s) (\<lambda>s'. Inr (DynamicUnorderedObjects s'))"
| "store_erase obj (DynamicSortedObjects v s) =
     bindE (sorted_erase (ObjectScores v) obj s) (\<lambda>s'. Inr (DynamicSortedObjects v s'))"

fun store_size :: "ObjectStore \<Rightarrow> nat" where
  "store_size (SortedObjects v xs) = length xs"
| "store_size (UnorderedObjects A) = card A"
| "store_size (DynamicUnorderedObjects s) = length (elementContainer s)"
| "store_size (DynamicSortedObjects v s) = length (elementContainer s)"

fun store_empty :: "ObjectStore \<Rightarrow> bool" where
  "store_empty (SortedObjects v xs) = (xs = [])"
| "store_empty (UnorderedObjects A) = (A = {})"
| "store_empty (DynamicUnorderedObjects s) = (elementContainer s = [])"
| "store_empty (DynamicSortedObjects v s) = (elementContainer s = [])"

fun store_contains :: "ObjectId \<Rightarrow> ObjectStore \<Rightarrow> bool" where
  "store_contains obj (SortedObjects v xs) = std_contains (ObjectScores v) obj xs"
| "store_contains obj (UnorderedObjects A) = (obj \<in> A)"
| "store_contains obj (DynamicUnorderedObjects s) = fast_contains obj s"
| "store_contains obj (DynamicSortedObjects v s) = sorted_contains (ObjectScores v) obj s"

text \<open>The objects that a complete loop from \<open>begin()\<close> to \<open>end()\<close> sees.\<close>

fun store_iteration :: "(ObjectId set \<Rightarrow> ObjectId list) \<Rightarrow> ObjectStore \<Rightarrow> ObjectId list" where
  "store_iteration hash_order (SortedObjects v xs) = xs"
| "store_iteration hash_order (UnorderedObjects A) = hash_order A"
| "store_iteration hash_order (DynamicUnorderedObjects s) = map snd (access_order s)"
| "store_iteration hash_order (DynamicSortedObjects v s) = access_order s"

section \<open>The hash is injective\<close>

definition xor_shift :: "64 word \<Rightarrow> 64 word" where
  "xor_shift x = x XOR drop_bit 47 x"

lemma xor_shift_involutive: "xor_shift (xor_shift x) = x"
proof (rule bit_eqI)
  fix n
  have "\<not> bit x (n + 94)" using bit_imp_le_length[of x "n + 94"] by auto
  then show "bit (xor_shift (xor_shift x)) n = bit x n"
    by (auto simp: xor_shift_def bit_xor_iff bit_drop_bit_eq add.commute add.left_commute)
qed

lemma xor_shift_inject: "xor_shift x = xor_shift y \<longleftrightarrow> x = y"
  by (metis xor_shift_involutive)

lemma murmur_m_inverse: "murmur_m * 6879827495036328381 = 1"
  by (simp add: murmur_m_def)

lemma mult_murmur_inject: "x * murmur_m = y * murmur_m \<longleftrightarrow> x = y"
proof
  assume "x * murmur_m = y * murmur_m"
  then have "x * murmur_m * 6879827495036328381 = y * murmur_m * 6879827495036328381" by (rule arg_cong)
  then show "x = y" by (simp only: mult.assoc murmur_m_inverse mult_1_right)
qed simp

lemma xor_left_inject: "(a :: 64 word) XOR x = a XOR y \<longleftrightarrow> x = y"
proof
  assume "a XOR x = a XOR y"
  then have "a XOR (a XOR x) = a XOR (a XOR y)" by simp
  then show "x = y" by (simp only: xor.assoc[symmetric] xor_self_eq xor.left_neutral)
qed simp

lemma MurmurRehash64A_inject: "MurmurRehash64A x = MurmurRehash64A y \<longleftrightarrow> x = y"
  unfolding MurmurRehash64A_def Let_def xor_shift_def[symmetric]
  by (simp only: xor_shift_inject mult_murmur_inject xor_left_inject)

definition objectIdRange :: "ObjectId set" where
  "objectIdRange = {..<2 ^ 64}"

lemma of_nat_inject_range:
  assumes "i \<in> objectIdRange" "j \<in> objectIdRange"
  shows "(of_nat i :: 64 word) = of_nat j \<longleftrightarrow> i = j"
proof -
  have "unat (of_nat i :: 64 word) = i" "unat (of_nat j :: 64 word) = j"
    using assms by (simp_all add: objectIdRange_def unat_of_nat)
  then show ?thesis by metis
qed

interpretation scores: strict_order_on "ObjectScores v" objectIdRange for v
proof
  fix x y z :: ObjectId
  assume "x \<in> objectIdRange"
  then show "\<not> ObjectScores v x x" by (simp add: ObjectScores_def)
  show "ObjectScores v x z" if "ObjectScores v x y" "ObjectScores v y z"
    using that by (auto simp: ObjectScores_def split: if_splits)
  show "ObjectScores v x y \<or> ObjectScores v y x" if "y \<in> objectIdRange" "x \<noteq> y"
    using that \<open>x \<in> objectIdRange\<close> MurmurRehash64A_inject[of "of_nat x" "of_nat y"] of_nat_inject_range[of x y]
    by (auto simp: ObjectScores_def)
qed

section \<open>The store is a mutable set\<close>

fun store_elems :: "ObjectStore \<Rightarrow> ObjectId set" where
  "store_elems (SortedObjects v xs) = set xs"
| "store_elems (UnorderedObjects A) = A"
| "store_elems (DynamicUnorderedObjects s) = set (fast_elements s)"
| "store_elems (DynamicSortedObjects v s) = set (elementContainer s)"

fun store_ok :: "ObjectStore \<Rightarrow> bool" where
  "store_ok (SortedObjects v xs) \<longleftrightarrow> set xs \<subseteq> objectIdRange \<and> sorted_wrt (ObjectScores v) xs"
| "store_ok (UnorderedObjects A) \<longleftrightarrow> finite A"
| "store_ok (DynamicUnorderedObjects s) \<longleftrightarrow> fast_inv s"
| "store_ok (DynamicSortedObjects v s) \<longleftrightarrow> sorted_ok (ObjectScores v) objectIdRange s"

lemma store_insert_spec:
  assumes "store_ok s" "x \<in> objectIdRange"
  shows "\<exists>s'. store_insert x s = Inr s' \<and> store_ok s' \<and> store_elems s' = insert x (store_elems s)"
proof (cases s)
  case (SortedObjects v xs)
  then show ?thesis using assms scores.insert_set[of x xs v] scores.insert_sorted[of x xs v] by simp
next
  case (DynamicUnorderedObjects f)
  then show ?thesis using assms fastset.ins_spec[of f x] by simp
next
  case (DynamicSortedObjects v f)
  then show ?thesis using assms scores.sorted_insert_ok(1,2)[of v f x] by simp
qed (use assms in simp)

lemma store_erase_spec:
  assumes "store_ok s" "x \<in> objectIdRange"
  shows "\<exists>s'. store_erase x s = Inr s' \<and> store_ok s' \<and> store_elems s' = store_elems s - {x}"
proof (cases s)
  case (SortedObjects v xs)
  then show ?thesis using assms scores.erase_set[of x xs v] scores.erase_sorted[of x xs v] by auto
next
  case (DynamicUnorderedObjects f)
  then show ?thesis using assms fastset.era_spec[of f x] by auto
next
  case (DynamicSortedObjects v f)
  then show ?thesis using assms scores.sorted_erase_ok[of v f x] by auto
qed (use assms in simp)

lemma store_contains_spec: "store_ok s \<Longrightarrow> x \<in> objectIdRange \<Longrightarrow> store_contains x s \<longleftrightarrow> x \<in> store_elems s"
  by (cases s) (simp_all add: scores.contains_iff fastset.con_spec scores.sorted_contains_ok)

interpretation store: dynamic_set store_insert store_erase store_contains store_elems store_ok objectIdRange
  using store_insert_spec store_erase_spec store_contains_spec by unfold_locales

lemma factory_get_ok: "store_ok (factory_get scores dyn)" "store_elems (factory_get scores dyn) = {}"
proof -
  show "store_ok (factory_get scores dyn)"
    by (auto simp: factory_get_def mkAccessOrderedFastSet_inv mkAccessOrderedSortedSet_def sorted_ok_def base_inv_def
        split: option.splits)
  show "store_elems (factory_get scores dyn) = {}"
    by (auto simp: factory_get_def mkAccessOrderedSortedSet_def fast_elements_def mkAccessOrderedFastSet_def
        split: option.splits)
qed

lemma store_size_ok: "store_ok s \<Longrightarrow> store_size s = card (store_elems s)"
proof (cases s)
  case (DynamicUnorderedObjects f)
  moreover assume "store_ok s"
  ultimately have "distinct (fast_elements f)" by (simp add: fast_inv_def fast_elements_def)
  then show ?thesis using DynamicUnorderedObjects distinct_card[of "fast_elements f"] by (simp add: fast_elements_def)
qed (auto simp: sorted_ok_def base_inv_def distinct_card scores.sorted_distinct)

lemma store_empty_ok: "store_ok s \<Longrightarrow> store_empty s \<longleftrightarrow> store_elems s = {}"
  by (cases s) (auto simp: fast_elements_def)

lemma store_iteration_ok:
  assumes "store_ok s" "\<forall>A. finite A \<longrightarrow> distinct (hash_order A) \<and> set (hash_order A) = A"
  shows "distinct (store_iteration hash_order s) \<and> set (store_iteration hash_order s) = store_elems s"
proof (cases s)
  case (DynamicUnorderedObjects f)
  then have "base_inv f" "distinct (map snd (elementContainer f))" using assms(1) by (auto simp: fast_inv_def)
  then have "mset (map snd (access_order f)) = mset (fast_elements f)" "distinct (fast_elements f)"
    using access_order_set[of f] by (simp_all add: fast_elements_def)
  then show ?thesis using DynamicUnorderedObjects by (metis store_iteration.simps(3) store_elems.simps(3) mset_eq_setD mset_eq_imp_distinct_iff)
next
  case (DynamicSortedObjects v f)
  then show ?thesis using assms(1) access_order_distinct[of f] by (simp add: sorted_ok_def)
qed (use assms scores.sorted_distinct in auto)

section \<open>Properties\<close>

text \<open>C11: \<open>MurmurRehash64A\<close> is a bijection of the 64-bit words, so the comparator
  \<open>ObjectScores\<close> is a strict total order on object ids: objects with equal values are never
  considered equivalent, hence no ordered set built on it drops an object.\<close>

theorem ObjectScores_total_order:
  "bij MurmurRehash64A
   \<and> (\<forall>i j. i < 2 ^ 64 \<longrightarrow> j < 2 ^ 64 \<longrightarrow>
        (i \<noteq> j \<longleftrightarrow> ObjectScores v i j \<or> ObjectScores v j i) \<and> \<not> (ObjectScores v i j \<and> ObjectScores v j i))
   \<and> (\<forall>i j k. ObjectScores v i j \<longrightarrow> ObjectScores v j k \<longrightarrow> ObjectScores v i k)"
proof (intro conjI allI impI)
  have "inj MurmurRehash64A" by (simp add: inj_def MurmurRehash64A_inject)
  then show "bij MurmurRehash64A" by (simp add: bij_def finite_UNIV_inj_surj)
  fix i j k :: nat
  show "ObjectScores v i k" if "ObjectScores v i j" "ObjectScores v j k"
    using that by (auto simp: ObjectScores_def split: if_splits)
  assume ij: "i < 2 ^ 64" "j < 2 ^ 64"
  then show "i \<noteq> j \<longleftrightarrow> ObjectScores v i j \<or> ObjectScores v j i"
    using scores.total[of i j v] scores.irrefl[of i v] by (auto simp: objectIdRange_def)
  show "\<not> (ObjectScores v i j \<and> ObjectScores v j i)"
    using ij scores.asym[of i j v] by (auto simp: objectIdRange_def)
qed

theorem ObjectScores_total_order_witness:
  "ObjectScores (\<lambda>_. 0) 1 2 \<or> ObjectScores (\<lambda>_. 0) 2 1"
  using ObjectScores_total_order[of "\<lambda>_. 0", THEN conjunct2, THEN conjunct1, rule_format, of 1 2] by simp

text \<open>C9: whichever of the four representations the factory picks, any history of insertions and
  erasures leaves exactly the objects a mathematical set would hold; \<open>contains\<close>, \<open>size\<close> and
  \<open>empty\<close> agree with it and a complete iteration visits every object exactly once.\<close>

theorem object_store_refines_set:
  assumes "\<forall>p \<in> set ops. op_elem p < 2 ^ 64"
    and "\<forall>A. finite A \<longrightarrow> distinct (hash_order A) \<and> set (hash_order A) = A"
  shows "\<exists>s. foldE (run_op store_insert store_erase) ops (factory_get scores dyn) = Inr s
    \<and> (\<forall>x < 2 ^ 64. store_contains x s \<longleftrightarrow> x \<in> fold abs_op ops {})
    \<and> store_size s = card (fold abs_op ops {})
    \<and> (store_empty s \<longleftrightarrow> fold abs_op ops {} = {})
    \<and> distinct (store_iteration hash_order s) \<and> set (store_iteration hash_order s) = fold abs_op ops {}"
proof -
  obtain s where s: "foldE (run_op store_insert store_erase) ops (factory_get scores dyn) = Inr s"
      "store_ok s" "store_elems s = fold abs_op ops {}"
    using store.run_refines[OF factory_get_ok(1), of ops scores dyn] assms(1) factory_get_ok(2)
    by (auto simp: objectIdRange_def)
  then show ?thesis
    using store_size_ok[OF s(2)] store_empty_ok[OF s(2)] store_iteration_ok[OF s(2) assms(2)] store.con_spec[OF s(2)]
    by (auto simp: objectIdRange_def)
qed

theorem object_store_refines_set_witness:
  "\<exists>s. foldE (run_op store_insert store_erase) [Ins 4, Ins 9, Era 4] (factory_get (Some real) False) = Inr s
     \<and> store_size s = 1"
proof -
  have "\<forall>A. finite A \<longrightarrow> distinct (sorted_list_of_set A) \<and> set (sorted_list_of_set A) = (A :: nat set)" by simp
  from object_store_refines_set[of "[Ins 4, Ins 9, Era 4]", OF _ this]
  obtain s where "foldE (run_op store_insert store_erase) [Ins 4, Ins 9, Era 4] (factory_get (Some real) False) = Inr s"
      "store_size s = card (fold abs_op [Ins 4, Ins 9, Era 4] ({} :: nat set))" by fastforce
  moreover have "fold abs_op [Ins 4, Ins 9, Era 4] ({} :: nat set) = {9}" by auto
  ultimately show ?thesis by simp
qed

end
