(* ===== verification/Aggregate_Alist.thy ===== *)
theory Aggregate_Alist
  imports Rebalancer_Prelude
begin

text \<open>
  The reference against which the aggregating search trees are verified: key
  sorted association lists with update and deletion, and the aggregation of
  their values. The locale \<open>comm_aggregate\<close> is what the trees rely on from the
  operation they are instantiated with; the sum over the reals, which every use
  in the solver picks, satisfies it.
\<close>

section \<open>Sorted association lists\<close>

definition keys_sorted :: "('k::linorder \<times> 'v) list \<Rightarrow> bool" where
  "keys_sorted xs \<longleftrightarrow> sorted_wrt (<) (map fst xs)"

fun al_put :: "'k::linorder \<Rightarrow> 'v \<Rightarrow> ('k \<times> 'v) list \<Rightarrow> ('k \<times> 'v) list" where
  "al_put k v [] = [(k, v)]"
| "al_put k v (e # es) =
    (if fst e < k then e # al_put k v es else if fst e = k then (k, v) # es else (k, v) # e # es)"

definition al_remove :: "'k \<Rightarrow> ('k \<times> 'v) list \<Rightarrow> ('k \<times> 'v) list" where
  "al_remove k es = filter (\<lambda>e. fst e \<noteq> k) es"

named_theorems alist_simps

lemma keys_sorted_split [alist_simps]:
  "keys_sorted (xs @ (k, v) # ys) \<longleftrightarrow>
     keys_sorted xs \<and> keys_sorted ys \<and> (\<forall>e \<in> set xs. fst e < k) \<and> (\<forall>e \<in> set ys. k < fst e)"
  by (auto simp: keys_sorted_def sorted_wrt_append) (metis fst_conv less_trans)

lemma keys_sorted_Nil [simp]: "keys_sorted []"
  by (simp add: keys_sorted_def)

lemma keys_sorted_Cons [simp]: "keys_sorted (e # es) \<longleftrightarrow> (\<forall>d \<in> set es. fst e < fst d) \<and> keys_sorted es"
  by (auto simp: keys_sorted_def)

lemma keys_sorted_distinct: "keys_sorted xs \<Longrightarrow> distinct (map fst xs)"
  by (simp add: keys_sorted_def strict_sorted_iff)

lemma al_put_middle:
  "(\<forall>e \<in> set xs. fst e < k) \<Longrightarrow> al_put k v (xs @ ys) = xs @ al_put k v ys"
  by (induction xs) auto

lemma al_put_before:
  "k < a \<Longrightarrow> al_put k v (xs @ (a, b) # ys) = al_put k v xs @ (a, b) # ys"
  by (induction xs) auto

lemma al_put_keys: "fst ` set (al_put k v xs) = insert k (fst ` set xs)"
  by (induction xs) auto

lemma al_put_sorted [alist_simps]: "keys_sorted xs \<Longrightarrow> keys_sorted (al_put k v xs)"
proof (induction xs)
  case (Cons e es)
  have "fst e < fst d" if "d \<in> set (al_put k v es)" "fst e < k" for d
  proof -
    have "fst d \<in> insert k (fst ` set es)" using that(1) al_put_keys[of k v es] by (metis image_eqI)
    then show ?thesis using that(2) Cons.prems by auto
  qed
  then show ?case using Cons by (auto simp: not_less order.order_iff_strict)
qed simp

lemma map_of_al_put [alist_simps]: "keys_sorted xs \<Longrightarrow> map_of (al_put k v xs) = (map_of xs)(k \<mapsto> v)"
  by (induction xs) (auto simp: fun_eq_iff)

lemma al_remove_append [alist_simps]: "al_remove k (xs @ ys) = al_remove k xs @ al_remove k ys"
  by (simp add: al_remove_def)

lemma al_remove_Cons [alist_simps]:
  "al_remove k ((a, b) # ys) = (if a = k then al_remove k ys else (a, b) # al_remove k ys)"
  by (simp add: al_remove_def)

lemma al_remove_idem: "\<forall>e \<in> set xs. fst e \<noteq> k \<Longrightarrow> al_remove k xs = xs"
  by (simp add: al_remove_def filter_id_conv)

lemma al_remove_sorted [alist_simps]: "keys_sorted xs \<Longrightarrow> keys_sorted (al_remove k xs)"
  by (induction xs) (auto simp: al_remove_def)

lemma map_of_al_remove [alist_simps]: "map_of (al_remove k xs) = (map_of xs)(k := None)"
  by (induction xs) (auto simp: al_remove_def fun_eq_iff)

lemma map_of_notin: "\<forall>e \<in> set xs. fst e \<noteq> k \<Longrightarrow> map_of xs k = None"
  by (metis image_iff map_of_eq_None_iff)

section \<open>Aggregation\<close>

fun agg :: "('v \<Rightarrow> 'v \<Rightarrow> 'v) \<Rightarrow> 'v \<Rightarrow> ('k \<times> 'v) list \<Rightarrow> 'v" where
  "agg operation neutral [] = neutral"
| "agg operation neutral (e # es) = operation (snd e) (agg operation neutral es)"

locale comm_aggregate =
  fixes operation :: "'v \<Rightarrow> 'v \<Rightarrow> 'v"
    and neutral :: 'v
  assumes assoc: "operation (operation a b) c = operation a (operation b c)"
    and commute: "operation a b = operation b a"
    and neutral_left: "operation neutral a = a"
begin

lemma neutral_right: "operation a neutral = a"
  using commute neutral_left by metis

lemma left_commute: "operation a (operation b c) = operation b (operation a c)"
  using assoc commute by metis

lemmas aggregate_simps = assoc commute left_commute neutral_left neutral_right

lemma agg_append: "agg operation neutral (xs @ ys) = operation (agg operation neutral xs) (agg operation neutral ys)"
  by (induction xs) (simp_all add: assoc neutral_left)

lemma agg_perm: "mset xs = mset ys \<Longrightarrow> agg operation neutral xs = agg operation neutral ys"
proof (induction xs arbitrary: ys)
  case (Cons x xs)
  then obtain as bs where ys: "ys = as @ x # bs" by (metis list.set_intros(1) mset_eq_setD split_list)
  with Cons.prems have "mset xs = mset (as @ bs)" by simp
  then show ?case using Cons.IH[of "as @ bs"] ys by (simp add: agg_append left_commute)
qed simp

text \<open>Replacing the value of a key by the neutral element removes it from every aggregate.\<close>

lemma agg_put_neutral:
  assumes "keys_sorted xs" "k \<in> fst ` set xs"
  shows "agg operation neutral (filter P (al_put k neutral xs)) = agg operation neutral (filter P (al_remove k xs))"
  using assms
proof (induction xs)
  case (Cons e es)
  have "fst e = k \<Longrightarrow> al_remove k es = es" using Cons.prems by (intro al_remove_idem) auto
  moreover have "fst e \<noteq> k \<Longrightarrow> k \<in> fst ` set es" using Cons.prems(2) by auto
  ultimately show ?case using Cons.IH Cons.prems(1) by (auto simp: al_remove_def neutral_left)
qed simp

end

interpretation real_sum: comm_aggregate "(+)" "0 :: real"
  by unfold_locales auto

end
