(* ===== verification/Avl_Map.thy ===== *)
theory Avl_Map
  imports Aggregate_Alist
begin

text \<open>
  \<open>AssociativeMap\<close> (\<open>algopt_common/AssociativeMap.h\<close>): an AVL tree whose nodes
  cache the aggregation of their subtree. A null pointer is \<open>Leaf\<close>; every
  member function is a definition with the order of calls of the code, the
  cached heights and results included. The functions that the code only calls
  on non-null nodes return a \<open>Leaf\<close> unchanged.
\<close>

section \<open>Definitions\<close>

datatype ('k, 'v) AvlNode =
    Leaf
  | Node (node_key: 'k) (node_value: 'v) (node_result: 'v) (node_height: nat)
      (left_child: "('k, 'v) AvlNode") (right_child: "('k, 'v) AvlNode")

datatype InsertOrUpdate = INSERT | UPDATE

definition mkNode :: "'k \<Rightarrow> 'v \<Rightarrow> ('k, 'v) AvlNode" where
  "mkNode k v = Node k v v 1 Leaf Leaf"

fun avl_height :: "('k, 'v) AvlNode \<Rightarrow> nat" where
  "avl_height Leaf = 0"
| "avl_height (Node k v res h l r) = h"

fun getValueIfExists :: "('k::linorder, 'v) AvlNode \<Rightarrow> 'k \<Rightarrow> 'v option" where
  "getValueIfExists Leaf key = None"
| "getValueIfExists (Node k v res h l r) key =
    (if key = k then Some v
     else if key < k then getValueIfExists l key
     else getValueIfExists r key)"

fun update_height :: "('k, 'v) AvlNode \<Rightarrow> ('k, 'v) AvlNode" where
  "update_height Leaf = Leaf"
| "update_height (Node k v res h l r) = Node k v res (1 + max (avl_height l) (avl_height r)) l r"

definition combine :: "('v \<Rightarrow> 'v \<Rightarrow> 'v) \<Rightarrow> 'v \<Rightarrow> ('k, 'v) AvlNode \<Rightarrow> ('k, 'v) AvlNode \<Rightarrow> 'v" where
  "combine operation v l r =
    (let res = v;
         res = (if l \<noteq> Leaf then operation res (node_result l) else res);
         res = (if r \<noteq> Leaf then operation res (node_result r) else res)
     in res)"

fun update_result :: "('v \<Rightarrow> 'v \<Rightarrow> 'v) \<Rightarrow> ('k, 'v) AvlNode \<Rightarrow> ('k, 'v) AvlNode" where
  "update_result operation Leaf = Leaf"
| "update_result operation (Node k v res h l r) = Node k v (combine operation v l r) h l r"

definition update_height_and_result :: "('v \<Rightarrow> 'v \<Rightarrow> 'v) \<Rightarrow> ('k, 'v) AvlNode \<Rightarrow> ('k, 'v) AvlNode" where
  "update_height_and_result operation t = update_result operation (update_height t)"

fun rotate_left :: "('v \<Rightarrow> 'v \<Rightarrow> 'v) \<Rightarrow> ('k, 'v) AvlNode \<Rightarrow> ('k, 'v) AvlNode" where
  "rotate_left operation (Node ak av ares ah b (Node ck cv cres ch d e)) =
    update_height_and_result operation
      (Node ck cv cres ch (update_height_and_result operation (Node ak av ares ah b d)) e)"
| "rotate_left operation t = t"

fun rotate_right :: "('v \<Rightarrow> 'v \<Rightarrow> 'v) \<Rightarrow> ('k, 'v) AvlNode \<Rightarrow> ('k, 'v) AvlNode" where
  "rotate_right operation (Node ak av ares ah (Node bk bv bres bh d e) c) =
    update_height_and_result operation
      (Node bk bv bres bh d (update_height_and_result operation (Node ak av ares ah e c)))"
| "rotate_right operation t = t"

fun rebalance :: "('v \<Rightarrow> 'v \<Rightarrow> 'v) \<Rightarrow> ('k, 'v) AvlNode \<Rightarrow> ('k, 'v) AvlNode" where
  "rebalance operation Leaf = Leaf"
| "rebalance operation (Node k v res h l r) =
    (if avl_height l > avl_height r + 1 then
       rotate_right operation (Node k v res h
         (if avl_height (right_child l) > avl_height (left_child l) then rotate_left operation l else l) r)
     else if avl_height r > avl_height l + 1 then
       rotate_left operation (Node k v res h l
         (if avl_height (left_child r) > avl_height (right_child r) then rotate_right operation r else r))
     else update_height_and_result operation (Node k v res h l r))"

fun insert_or_update ::
  "('v \<Rightarrow> 'v \<Rightarrow> 'v) \<Rightarrow> ('k::linorder, 'v) AvlNode \<Rightarrow> 'k \<Rightarrow> 'v \<Rightarrow> ('k, 'v) AvlNode \<times> InsertOrUpdate" where
  "insert_or_update operation Leaf key val = (mkNode key val, INSERT)"
| "insert_or_update operation (Node k v res h l r) key val =
    (if key = k then (update_result operation (Node k val res h l r), UPDATE)
     else
       let (t, inserted) =
         (if key < k
          then (let (l', i) = insert_or_update operation l key val in (Node k v res h l' r, i))
          else (let (r', i) = insert_or_update operation r key val in (Node k v res h l r', i)))
       in if inserted = UPDATE then (update_result operation t, inserted)
          else (rebalance operation t, inserted))"

text \<open>The extracted node keeps its key, value, result and height; its children are moved out.\<close>

fun extract_min :: "('v \<Rightarrow> 'v \<Rightarrow> 'v) \<Rightarrow> ('k, 'v) AvlNode \<Rightarrow> (('k \<times> 'v \<times> 'v \<times> nat) \<times> ('k, 'v) AvlNode) option" where
  "extract_min operation Leaf = None"
| "extract_min operation (Node k v res h l r) =
    (case extract_min operation l of
       None \<Rightarrow> Some ((k, v, res, h), r)
     | Some (min_node, l') \<Rightarrow> Some (min_node, rebalance operation (Node k v res h l' r)))"

definition avl_merge :: "('v \<Rightarrow> 'v \<Rightarrow> 'v) \<Rightarrow> ('k, 'v) AvlNode \<Rightarrow> ('k, 'v) AvlNode \<Rightarrow> ('k, 'v) AvlNode" where
  "avl_merge operation l r =
    (case extract_min operation r of
       None \<Rightarrow> l
     | Some ((k, v, res, h), r') \<Rightarrow> rebalance operation (Node k v res h l r'))"

fun avl_remove :: "('v \<Rightarrow> 'v \<Rightarrow> 'v) \<Rightarrow> ('k::linorder, 'v) AvlNode \<Rightarrow> 'k \<Rightarrow> ('k, 'v) AvlNode" where
  "avl_remove operation Leaf key = Leaf"
| "avl_remove operation (Node k v res h l r) key =
    (if key = k then avl_merge operation l r
     else if key < k then rebalance operation (Node k v res h (avl_remove operation l key) r)
     else rebalance operation (Node k v res h l (avl_remove operation r key)))"

definition avl_update :: "('v \<Rightarrow> 'v \<Rightarrow> 'v) \<Rightarrow> 'k::linorder \<Rightarrow> 'v \<Rightarrow> ('k, 'v) AvlNode \<Rightarrow> ('k, 'v) AvlNode" where
  "avl_update operation key val rt = fst (insert_or_update operation rt key val)"

definition avl_query :: "'v \<Rightarrow> ('k, 'v) AvlNode \<Rightarrow> 'v" where
  "avl_query neutral rt = (if rt = Leaf then neutral else node_result rt)"

fun avl_less_than :: "('v \<Rightarrow> 'v \<Rightarrow> 'v) \<Rightarrow> 'v \<Rightarrow> ('k::linorder, 'v) AvlNode \<Rightarrow> 'k \<Rightarrow> bool \<Rightarrow> 'v" where
  "avl_less_than operation neutral Leaf key strict = neutral"
| "avl_less_than operation neutral (Node k v res h l r) key strict =
    (if (strict \<and> k < key) \<or> (\<not> strict \<and> k \<le> key) then
       let res1 = v;
           res2 = (if l \<noteq> Leaf then operation res1 (node_result l) else res1)
       in if r \<noteq> Leaf then operation res2 (avl_less_than operation neutral r key strict) else res2
     else if l \<noteq> Leaf then avl_less_than operation neutral l key strict
     else neutral)"

definition avl_query_lt :: "('v \<Rightarrow> 'v \<Rightarrow> 'v) \<Rightarrow> 'v \<Rightarrow> ('k::linorder, 'v) AvlNode \<Rightarrow> 'k \<Rightarrow> 'v" where
  "avl_query_lt operation neutral rt key =
    (if rt = Leaf then neutral else avl_less_than operation neutral rt key True)"

definition avl_query_le :: "('v \<Rightarrow> 'v \<Rightarrow> 'v) \<Rightarrow> 'v \<Rightarrow> ('k::linorder, 'v) AvlNode \<Rightarrow> 'k \<Rightarrow> 'v" where
  "avl_query_le operation neutral rt key =
    (if rt = Leaf then neutral else avl_less_than operation neutral rt key False)"

definition avl_clear :: "('k, 'v) AvlNode \<Rightarrow> ('k, 'v) AvlNode" where
  "avl_clear rt = Leaf"

section \<open>Invariants\<close>

fun entries :: "('k, 'v) AvlNode \<Rightarrow> ('k \<times> 'v) list" where
  "entries Leaf = []"
| "entries (Node k v res h l r) = entries l @ (k, v) # entries r"

fun balanced :: "('k, 'v) AvlNode \<Rightarrow> bool" where
  "balanced Leaf = True"
| "balanced (Node k v res h l r) \<longleftrightarrow> balanced l \<and> balanced r \<and> h = 1 + max (avl_height l) (avl_height r)
     \<and> avl_height l \<le> avl_height r + 1 \<and> avl_height r \<le> avl_height l + 1"

fun results_ok :: "('v \<Rightarrow> 'v \<Rightarrow> 'v) \<Rightarrow> ('k, 'v) AvlNode \<Rightarrow> bool" where
  "results_ok operation Leaf = True"
| "results_ok operation (Node k v res h l r) \<longleftrightarrow>
     results_ok operation l \<and> results_ok operation r \<and> res = combine operation v l r"

definition avl_inv :: "('v \<Rightarrow> 'v \<Rightarrow> 'v) \<Rightarrow> ('k::linorder, 'v) AvlNode \<Rightarrow> bool" where
  "avl_inv operation t \<longleftrightarrow> keys_sorted (entries t) \<and> balanced t \<and> results_ok operation t"

named_theorems avl_simps

lemma uhr_simps [avl_simps]:
  "update_height_and_result operation (Node k v res h l r) =
     Node k v (combine operation v l r) (1 + max (avl_height l) (avl_height r)) l r"
  by (simp add: update_height_and_result_def)

lemma entries_rotate_left [simp]: "entries (rotate_left operation t) = entries t"
  by (cases "(operation, t)" rule: rotate_left.cases) (simp_all add: avl_simps)

lemma entries_rotate_right [simp]: "entries (rotate_right operation t) = entries t"
  by (cases "(operation, t)" rule: rotate_right.cases) (simp_all add: avl_simps)

lemma entries_rebalance [simp]: "entries (rebalance operation t) = entries t"
  by (cases t) (auto simp: avl_simps)

lemma results_rebalance:
  "results_ok operation l \<Longrightarrow> results_ok operation r \<Longrightarrow> results_ok operation (rebalance operation (Node k v res h l r))"
proof (cases "avl_height l > avl_height r + 1")
  case True
  moreover assume "results_ok operation l" "results_ok operation r"
  ultimately show ?thesis by (cases l; cases "right_child l") (auto simp: avl_simps)
next
  case False
  moreover assume "results_ok operation l" "results_ok operation r"
  ultimately show ?thesis by (cases r; cases "left_child r") (auto simp: avl_simps)
qed

lemma balanced_height_pos: "balanced t \<Longrightarrow> avl_height t = 0 \<longleftrightarrow> t = Leaf"
  by (cases t) auto

lemma balanced_rebalance:
  assumes "balanced l" "balanced r" "avl_height l \<le> avl_height r + 2" "avl_height r \<le> avl_height l + 2"
  shows "balanced (rebalance operation (Node k v res h l r))
    \<and> avl_height (rebalance operation (Node k v res h l r)) \<in> {max (avl_height l) (avl_height r), 1 + max (avl_height l) (avl_height r)}
    \<and> (avl_height l \<le> avl_height r + 1 \<longrightarrow> avl_height r \<le> avl_height l + 1
        \<longrightarrow> avl_height (rebalance operation (Node k v res h l r)) = 1 + max (avl_height l) (avl_height r))"
proof (cases "avl_height l > avl_height r + 1 \<or> avl_height r > avl_height l + 1")
  case False
  then show ?thesis using assms by (auto simp: avl_simps)
next
  case True
  then show ?thesis
  proof
    assume left: "avl_height l > avl_height r + 1"
    then obtain lk lv lres lh ll lr where l: "l = Node lk lv lres lh ll lr" by (cases l) auto
    show ?thesis
    proof (cases "avl_height lr > avl_height ll")
      case True
      then obtain k2 v2 res2 h2 l2 r2 where "lr = Node k2 v2 res2 h2 l2 r2" by (cases lr) auto
      then show ?thesis using assms left l True by (auto simp: avl_simps max_def)
    next
      case False
      then show ?thesis using assms left l by (auto simp: avl_simps max_def)
    qed
  next
    assume right: "avl_height r > avl_height l + 1"
    then obtain rk rv rres rh rl rr where r: "r = Node rk rv rres rh rl rr" by (cases r) auto
    show ?thesis
    proof (cases "avl_height rl > avl_height rr")
      case True
      then obtain k2 v2 res2 h2 l2 r2 where "rl = Node k2 v2 res2 h2 l2 r2" by (cases rl) auto
      then show ?thesis using assms right r True by (auto simp: avl_simps max_def)
    next
      case False
      then show ?thesis using assms right r by (auto simp: avl_simps max_def)
    qed
  qed
qed

section \<open>Insertion\<close>

lemma entries_update_result [simp]: "entries (update_result operation t) = entries t"
  by (cases t) auto

lemma balanced_update_result [simp]:
  "balanced (update_result operation t) = balanced t" "avl_height (update_result operation t) = avl_height t"
  by (cases t; simp)+

lemma results_update_result:
  "results_ok operation l \<Longrightarrow> results_ok operation r \<Longrightarrow> results_ok operation (update_result operation (Node k v res h l r))"
  by simp

lemma entries_insert:
  "keys_sorted (entries t) \<Longrightarrow> entries (fst (insert_or_update operation t key val)) = al_put key val (entries t)"
proof (induction t)
  case Leaf
  then show ?case by (simp add: mkNode_def)
next
  case (Node k v res h l r)
  then have sorted: "keys_sorted (entries l)" "keys_sorted (entries r)" "\<forall>e \<in> set (entries l). fst e < k"
    by (auto simp: alist_simps)
  consider "key = k" | "key < k" | "key > k" by fastforce
  then show ?case
  proof cases
    case 1
    then show ?thesis using sorted(3) by (simp add: al_put_middle)
  next
    case 2
    then show ?thesis using Node.IH(1)[OF sorted(1)]
      by (auto simp: al_put_before Let_def split: prod.splits)
  next
    case 3
    then have "\<forall>e \<in> set (entries l @ [(k, v)]). fst e < key" using sorted(3) by auto
    then have "al_put key val (entries l @ (k, v) # entries r) = entries l @ (k, v) # al_put key val (entries r)"
      using al_put_middle[of "entries l @ [(k, v)]" key val "entries r"] by simp
    then show ?thesis using Node.IH(2)[OF sorted(2)] 3 by (auto simp: Let_def split: prod.splits)
  qed
qed

lemma results_insert:
  "results_ok operation t \<Longrightarrow> results_ok operation (fst (insert_or_update operation t key val))"
  by (induction t)
    (auto simp: mkNode_def combine_def Let_def results_rebalance simp del: rebalance.simps split: prod.splits)

lemma rebalance_grow:
  assumes "balanced l" "balanced r" "hl \<le> hr + 1" "hr \<le> hl + 1"
    and "hl \<le> avl_height l" "hr \<le> avl_height r" "avl_height l + avl_height r \<le> hl + hr + 1"
  shows "balanced (rebalance operation (Node k v res h l r))
    \<and> avl_height (rebalance operation (Node k v res h l r)) \<le> 2 + max hl hr
    \<and> 1 + max hl hr \<le> avl_height (rebalance operation (Node k v res h l r))"
proof -
  define H where "H = avl_height (rebalance operation (Node k v res h l r))"
  have "balanced (rebalance operation (Node k v res h l r))"
    "H \<in> {max (avl_height l) (avl_height r), 1 + max (avl_height l) (avl_height r)}"
    "avl_height l \<le> avl_height r + 1 \<longrightarrow> avl_height r \<le> avl_height l + 1 \<longrightarrow> H = 1 + max (avl_height l) (avl_height r)"
    using balanced_rebalance[of l r operation k v res h] assms unfolding H_def by auto
  then show ?thesis using assms(3-7) unfolding H_def[symmetric] by auto
qed

lemma balanced_insert:
  "balanced t \<Longrightarrow> balanced (fst (insert_or_update operation t key val))
     \<and> avl_height (fst (insert_or_update operation t key val)) \<le> 1 + avl_height t
     \<and> avl_height t \<le> avl_height (fst (insert_or_update operation t key val))
     \<and> (snd (insert_or_update operation t key val) = UPDATE
          \<longrightarrow> avl_height (fst (insert_or_update operation t key val)) = avl_height t)"
proof (induction t)
  case Leaf
  then show ?case by (simp add: mkNode_def)
next
  case (Node k v res h l r)
  consider "key = k" | "key < k" | "key > k" by fastforce
  then show ?case
  proof cases
    case 1
    then show ?thesis using Node.prems by auto
  next
    case 2
    obtain l' i where l': "insert_or_update operation l key val = (l', i)" by fastforce
    then show ?thesis using 2 Node.IH(1) Node.prems
        rebalance_grow[of l' r "avl_height l" "avl_height r" operation k v res h]
      by (auto simp: Let_def simp del: rebalance.simps)
  next
    case 3
    obtain r' i where r': "insert_or_update operation r key val = (r', i)" by fastforce
    then show ?thesis using 3 Node.IH(2) Node.prems
        rebalance_grow[of l r' "avl_height l" "avl_height r" operation k v res h]
      by (auto simp: Let_def simp del: rebalance.simps)
  qed
qed

lemma avl_update_inv:
  assumes "avl_inv operation t"
  shows "avl_inv operation (avl_update operation key val t)"
    "entries (avl_update operation key val t) = al_put key val (entries t)"
  using assms entries_insert[of t operation key val] results_insert[of operation t key val]
    balanced_insert[of t operation key val] al_put_sorted[of "entries t" key val]
  by (auto simp: avl_inv_def avl_update_def)

section \<open>Removal\<close>

lemma extract_min_Leaf: "extract_min operation t = None \<longleftrightarrow> t = Leaf"
  by (cases t) (auto split: option.splits)

lemma rebalance_shrink:
  assumes "balanced l" "balanced r" "hl \<le> hr + 1" "hr \<le> hl + 1"
    and "avl_height l \<le> hl" "avl_height r \<le> hr" "hl + hr \<le> avl_height l + avl_height r + 1"
  shows "balanced (rebalance operation (Node k v res h l r))
    \<and> avl_height (rebalance operation (Node k v res h l r)) \<le> 1 + max hl hr
    \<and> max hl hr \<le> avl_height (rebalance operation (Node k v res h l r))"
proof -
  define H where "H = avl_height (rebalance operation (Node k v res h l r))"
  have "balanced (rebalance operation (Node k v res h l r))"
    "H \<in> {max (avl_height l) (avl_height r), 1 + max (avl_height l) (avl_height r)}"
    "avl_height l \<le> avl_height r + 1 \<longrightarrow> avl_height r \<le> avl_height l + 1 \<longrightarrow> H = 1 + max (avl_height l) (avl_height r)"
    using balanced_rebalance[of l r operation k v res h] assms unfolding H_def by auto
  then show ?thesis using assms(3-7) unfolding H_def[symmetric] by auto
qed

lemma extract_min_correct:
  "extract_min operation t = Some ((k, v, res, h), t') \<Longrightarrow>
     entries t = (k, v) # entries t' \<and> (results_ok operation t \<longrightarrow> results_ok operation t')
     \<and> (balanced t \<longrightarrow> balanced t' \<and> avl_height t' \<le> avl_height t \<and> avl_height t \<le> avl_height t' + 1)"
proof (induction t arbitrary: t')
  case (Node k1 v1 res1 h1 l r)
  show ?case
  proof (cases "extract_min operation l")
    case None
    then show ?thesis using Node.prems by (auto simp: extract_min_Leaf)
  next
    case (Some m)
    then obtain l' where m: "extract_min operation l = Some ((k, v, res, h), l')"
        "t' = rebalance operation (Node k1 v1 res1 h1 l' r)"
      using Node.prems by (auto simp del: rebalance.simps split: prod.splits)
    then show ?thesis
      using Node.IH(1)[OF m(1)] results_rebalance[of operation l' r]
        rebalance_shrink[of l' r "avl_height l" "avl_height r" operation k1 v1 res1 h1]
      by (auto simp del: rebalance.simps)
  qed
qed simp

lemma avl_merge_correct:
  assumes "balanced l" "balanced r" "avl_height l \<le> avl_height r + 1" "avl_height r \<le> avl_height l + 1"
    and "results_ok operation l" "results_ok operation r"
  shows "entries (avl_merge operation l r) = entries l @ entries r
    \<and> results_ok operation (avl_merge operation l r) \<and> balanced (avl_merge operation l r)
    \<and> avl_height (avl_merge operation l r) \<le> 1 + max (avl_height l) (avl_height r)
    \<and> max (avl_height l) (avl_height r) \<le> avl_height (avl_merge operation l r)"
proof (cases "extract_min operation r")
  case None
  then show ?thesis using assms by (auto simp: avl_merge_def extract_min_Leaf)
next
  case (Some m)
  then obtain k v res h r' where r': "extract_min operation r = Some ((k, v, res, h), r')" by (metis prod_cases4 surj_pair)
  then show ?thesis
    using extract_min_correct[OF r'] results_rebalance[of operation l r'] assms
      rebalance_shrink[of l r' "avl_height l" "avl_height r" operation k v res h]
    by (simp add: avl_merge_def del: rebalance.simps)
qed

lemma entries_remove:
  "keys_sorted (entries t) \<Longrightarrow> balanced t \<Longrightarrow> results_ok operation t \<Longrightarrow>
   entries (avl_remove operation t key) = al_remove key (entries t)
   \<and> results_ok operation (avl_remove operation t key) \<and> balanced (avl_remove operation t key)
   \<and> avl_height (avl_remove operation t key) \<le> avl_height t \<and> avl_height t \<le> avl_height (avl_remove operation t key) + 1"
proof (induction t)
  case (Node k v res h l r)
  then have sorted: "keys_sorted (entries l)" "keys_sorted (entries r)" "\<forall>e \<in> set (entries l). fst e < k"
    "\<forall>e \<in> set (entries r). k < fst e" by (auto simp: alist_simps)
  consider "key = k" | "key < k" | "key > k" by fastforce
  then show ?case
  proof cases
    case 1
    then have "al_remove key (entries l) = entries l" "al_remove key (entries r) = entries r"
      using sorted(3,4) by (intro al_remove_idem; force)+
    then show ?thesis using 1 avl_merge_correct[of l r operation] Node.prems(2,3) by (auto simp: alist_simps)
  next
    case 2
    then have "al_remove key (entries r) = entries r" using sorted(4) by (intro al_remove_idem) force
    then show ?thesis
      using 2 Node.IH(1)[OF sorted(1)] Node.prems(2,3) results_rebalance[of operation "avl_remove operation l key" r k v res h]
        rebalance_shrink[of "avl_remove operation l key" r "avl_height l" "avl_height r" operation k v res h]
      by (auto simp: alist_simps simp del: rebalance.simps)
  next
    case 3
    then have "al_remove key (entries l) = entries l" using sorted(3) by (intro al_remove_idem) force
    then show ?thesis
      using 3 Node.IH(2)[OF sorted(2)] Node.prems(2,3) results_rebalance[of operation l "avl_remove operation r key" k v res h]
        rebalance_shrink[of l "avl_remove operation r key" "avl_height l" "avl_height r" operation k v res h]
      by (auto simp: alist_simps simp del: rebalance.simps)
  qed
qed (simp add: al_remove_def)

lemma avl_remove_inv:
  assumes "avl_inv operation t"
  shows "avl_inv operation (avl_remove operation t key)"
    "entries (avl_remove operation t key) = al_remove key (entries t)"
  using assms entries_remove[of t operation key] al_remove_sorted[of "entries t" key] by (auto simp: avl_inv_def)

section \<open>Queries\<close>

lemma getValueIfExists_correct:
  "keys_sorted (entries t) \<Longrightarrow> getValueIfExists t key = map_of (entries t) key"
proof (induction t)
  case (Node k v res h l r)
  then have sorted: "keys_sorted (entries l)" "keys_sorted (entries r)" "\<forall>e \<in> set (entries l). fst e < k"
    "\<forall>e \<in> set (entries r). k < fst e" by (auto simp: alist_simps)
  then have "key \<le> k \<Longrightarrow> map_of (entries r) key = None" "k \<le> key \<Longrightarrow> map_of (entries l) key = None"
    by (intro map_of_notin; force)+
  then show ?case using Node.IH sorted by (auto simp: map_add_def split: option.splits)
qed simp

context comm_aggregate
begin

lemma result_agg: "results_ok operation t \<Longrightarrow> t \<noteq> Leaf \<Longrightarrow> node_result t = agg operation neutral (entries t)"
proof (induction t)
  case (Node k v res h l r)
  then show ?case
    by (cases "l = Leaf"; cases "r = Leaf") (simp_all add: combine_def agg_append aggregate_simps)
qed simp

lemma avl_query_agg: "results_ok operation t \<Longrightarrow> avl_query neutral t = agg operation neutral (entries t)"
  using result_agg[of t] by (simp add: avl_query_def)

lemma avl_less_than_agg:
  "\<lbrakk> results_ok operation t; keys_sorted (entries t) \<rbrakk> \<Longrightarrow>
   avl_less_than operation neutral t key strict =
     agg operation neutral (filter (\<lambda>e. if strict then fst e < key else fst e \<le> key) (entries t))"
proof (induction t)
  case (Node k v res h l r)
  let ?P = "\<lambda>e. if strict then fst e < key else fst e \<le> key"
  have sorted: "keys_sorted (entries l)" "keys_sorted (entries r)" "\<forall>e \<in> set (entries l). fst e < k"
    "\<forall>e \<in> set (entries r). k < fst e" using Node.prems by (auto simp: alist_simps)
  have res: "results_ok operation l" "results_ok operation r" using Node.prems by auto
  show ?case
  proof (cases "if strict then k < key else k \<le> key")
    case True
    then have "filter ?P (entries l) = entries l" using sorted(3) by (auto simp: filter_id_conv split: if_splits)
    then show ?thesis
      using True result_agg[OF res(1)] Node.IH(2)[OF res(2) sorted(2)]
      by (cases "l = Leaf"; cases "r = Leaf") (auto simp: agg_append aggregate_simps split: if_splits)
  next
    case False
    then have "filter ?P (entries r) = []" using sorted(4) by (auto simp: filter_empty_conv split: if_splits)
    then show ?thesis
      using False Node.IH(1)[OF res(1) sorted(1)] by (cases "l = Leaf") (auto simp: agg_append neutral_right split: if_splits)
  qed
qed simp

end

lemma avl_height_size: "balanced t \<Longrightarrow> 2 ^ (avl_height t div 2) \<le> length (entries t) + 1"
proof (induction t)
  case (Node k v res h l r)
  define hl where "hl = avl_height l"
  define hr where "hr = avl_height r"
  have h: "h = 1 + max hl hr" "hl \<le> hr + 1" "hr \<le> hl + 1" using Node.prems by (auto simp: hl_def hr_def)
  then have half: "h div 2 \<le> Suc (hl div 2)" "h div 2 \<le> Suc (hr div 2)" by auto
  have "(2::nat) ^ (h div 2) \<le> 2 ^ Suc (hl div 2)" "(2::nat) ^ (h div 2) \<le> 2 ^ Suc (hr div 2)"
    using half by (intro power_increasing; simp)+
  moreover have "2 ^ (hl div 2) \<le> length (entries l) + 1" "2 ^ (hr div 2) \<le> length (entries r) + 1"
    using Node by (simp_all add: hl_def hr_def)
  ultimately show ?case by simp
qed simp

lemma avl_inv_Leaf: "avl_inv operation Leaf"
  by (simp add: avl_inv_def)

section \<open>Properties\<close>

text \<open>C3: \<open>update\<close> and \<open>remove\<close> of the AVL map keep the search-tree order, the balance, the
  stored heights and the cached results, and act on the lookup function as map update and map
  deletion.\<close>

theorem avl_map_refines_map:
  assumes "avl_inv operation t"
  shows "avl_inv operation (avl_update operation key val t)
    \<and> getValueIfExists (avl_update operation key val t) = (getValueIfExists t)(key \<mapsto> val)
    \<and> avl_inv operation (avl_remove operation t key)
    \<and> getValueIfExists (avl_remove operation t key) = (getValueIfExists t)(key := None)"
proof -
  have lookup: "getValueIfExists u = map_of (entries u)" if "avl_inv operation u" for u
    using that getValueIfExists_correct[of u] by (auto simp: avl_inv_def)
  have "keys_sorted (entries t)" using assms by (simp add: avl_inv_def)
  then show ?thesis
    using avl_update_inv[OF assms, of key val] avl_remove_inv[OF assms, of key] lookup[OF assms]
      lookup[OF avl_update_inv(1)[OF assms, of key val]] lookup[OF avl_remove_inv(1)[OF assms, of key]]
    by (simp add: map_of_al_put map_of_al_remove)
qed

theorem avl_map_refines_map_witness:
  "getValueIfExists (avl_update (+) (3 :: nat) (5 :: int) Leaf) = (getValueIfExists Leaf)(3 \<mapsto> 5)"
  using avl_map_refines_map[OF avl_inv_Leaf, of "(+)" 3 5] by blast

text \<open>C4: for a commutative and associative operation with its neutral element, the cached result
  at the root is the aggregation of all values, and \<open>query_lt\<close> and \<open>query_le\<close>, which walk one
  path only, are the aggregations over exactly the keys below, or at most, the given key.\<close>

theorem avl_queries_correct:
  assumes "comm_aggregate operation neutral" "avl_inv operation t"
  shows "avl_query neutral t = agg operation neutral (entries t)
    \<and> avl_query_lt operation neutral t key = agg operation neutral (filter (\<lambda>e. fst e < key) (entries t))
    \<and> avl_query_le operation neutral t key = agg operation neutral (filter (\<lambda>e. fst e \<le> key) (entries t))"
proof -
  have t: "results_ok operation t" "keys_sorted (entries t)" using assms(2) by (auto simp: avl_inv_def)
  show ?thesis
    using comm_aggregate.avl_query_agg[OF assms(1) t(1)] comm_aggregate.avl_less_than_agg[OF assms(1) t, of key True]
      comm_aggregate.avl_less_than_agg[OF assms(1) t, of key False]
    by (auto simp: avl_query_lt_def avl_query_le_def)
qed

theorem avl_queries_correct_witness:
  "avl_query_lt (+) 0 (avl_update (+) (2 :: nat) 7 (avl_update (+) 1 (5 :: real) Leaf)) 2 = 5"
proof -
  let ?t = "avl_update (+) (2 :: nat) 7 (avl_update (+) 1 (5 :: real) Leaf)"
  have "avl_inv (+) ?t" by (intro avl_update_inv avl_inv_Leaf)
  moreover have "entries ?t = [(1, 5), (2, 7)]"
    by (simp add: avl_update_def mkNode_def update_height_and_result_def combine_def)
  ultimately show ?thesis
    using avl_queries_correct[OF real_sum.comm_aggregate_axioms, of ?t 2] by simp
qed




end
