(* ===== verification/Heap_Index.thy ===== *)
theory Heap_Index
  imports Rebalancer_Prelude
begin

text \<open>
  Binary trees laid out in an array: the children of index \<open>i\<close> are \<open>2 i\<close> and
  \<open>2 i + 1\<close>. The relation \<open>in_subtree\<close> and its facts are shared by the fixed map
  and the segment tree, whose updates stay inside one subtree.
\<close>

text \<open>The values of an \<open>int\<close> of the code; an operation whose result is none of them overflows.\<close>

definition in_int :: "int \<Rightarrow> bool" where
  "in_int x \<longleftrightarrow> - (2 ^ 31) \<le> x \<and> x < 2 ^ 31"

definition in_subtree :: "nat \<Rightarrow> nat \<Rightarrow> bool" where
  "in_subtree i j \<longleftrightarrow> (\<exists>d. j div 2 ^ d = i)"

lemma in_subtree_refl [simp]: "in_subtree i i"
  unfolding in_subtree_def by (rule exI[of _ 0]) simp

lemma in_subtree_child: "in_subtree (2 * i) j \<or> in_subtree (2 * i + 1) j \<Longrightarrow> in_subtree i j"
proof -
  have "in_subtree i j" if "j div 2 ^ d = 2 * i \<or> j div 2 ^ d = 2 * i + 1" for d
    using that unfolding in_subtree_def by (intro exI[of _ "Suc d"]) (auto simp: power_Suc2 div_mult2_eq simp del: power_Suc)
  then show "in_subtree (2 * i) j \<or> in_subtree (2 * i + 1) j \<Longrightarrow> in_subtree i j"
    by (auto simp: in_subtree_def[of "2 * i"] in_subtree_def[of "Suc (2 * i)"])
qed

lemma in_subtree_le: "in_subtree i j \<Longrightarrow> i \<le> j"
  by (auto simp: in_subtree_def)

lemma in_subtree_siblings: "0 < i \<Longrightarrow> in_subtree (2 * i) j \<Longrightarrow> \<not> in_subtree (2 * i + 1) j"
proof
  assume i: "0 < i" and "in_subtree (2 * i) j" "in_subtree (2 * i + 1) j"
  then obtain c d where cd: "j div 2 ^ c = 2 * i" "j div 2 ^ d = 2 * i + 1" by (auto simp: in_subtree_def)
  have shift: "j div 2 ^ (a + b) = j div 2 ^ a div 2 ^ b" for a b by (simp add: power_add div_mult2_eq)
  have small: "m div 2 ^ Suc b \<le> m div 2" for m b :: nat by (simp add: div_mult2_eq)
  consider "c = d" | b where "d = c + Suc b" | b where "c = d + Suc b"
    by (metis add_Suc_right less_imp_Suc_add linorder_neqE_nat)
  then show False
  proof cases
    case 1
    then show False using cd by simp
  next
    case (2 b)
    then have "2 * i + 1 \<le> 2 * i div 2" using cd shift[of c "Suc b"] small[of "2 * i" b] by simp
    then show False by simp
  next
    case (3 b)
    then have "2 * i \<le> (2 * i + 1) div 2" using cd shift[of d "Suc b"] small[of "2 * i + 1" b] by simp
    then show False using i by simp
  qed
qed

lemma not_in_child_subtree: "0 < i \<Longrightarrow> \<not> in_subtree (2 * i) i \<and> \<not> in_subtree (2 * i + 1) i"
  using in_subtree_le by fastforce

lemma in_subtree_root: "0 < j \<Longrightarrow> in_subtree 1 j"
proof (induction j rule: less_induct)
  case (less j)
  show ?case
  proof (cases "j = 1")
    case False
    then have "in_subtree 1 (j div 2)" using less by auto
    then obtain d where "j div 2 div 2 ^ d = 1" by (auto simp: in_subtree_def)
    then show ?thesis unfolding in_subtree_def by (intro exI[of _ "Suc d"]) (simp add: div_mult2_eq)
  qed simp
qed

end
