(* ===== verification/Fixed_Map.thy ===== *)
theory Fixed_Map
  imports Aggregate_Alist Heap_Index "HOL-Library.Product_Lexorder"
begin

text \<open>
  \<open>AssociativeFixedMap\<close> (\<open>algopt_common/AssociativeFixedMap.h\<close>): an aggregating
  search tree laid out in one array, the children of index \<open>i\<close> at \<open>2 i\<close> and
  \<open>2 i + 1\<close>, index 0 unused. Array slots are optional nodes, as the pointers of
  the code; dereferencing a null pointer is \<open>Undefined_behaviour\<close>. Indices and
  sizes are \<open>int\<close> in the code and natural numbers here: every one of them is
  bounded by twice the number of items.
\<close>

section \<open>Definitions\<close>

record ('k, 'v) FixedNode =
  fkey :: 'k
  fvalue :: 'v
  fresult :: 'v

type_synonym ('k, 'v) nodes = "('k, 'v) FixedNode option list"

definition deref :: "('k, 'v) nodes \<Rightarrow> nat \<Rightarrow> ('k, 'v) FixedNode result" where
  "deref nodes i =
    (if i < length nodes then (case nodes ! i of None \<Rightarrow> Inl Undefined_behaviour | Some nd \<Rightarrow> Inr nd)
     else Inl Undefined_behaviour)"

text \<open>The loop of \<open>left_child_size\<close> that finds the number of complete levels.\<close>

lemma complete_levels: "1 + 2 * (2 ^ (h + 1) - 1) = (2 ^ (h + 2) - 1 :: nat)"
proof -
  obtain x where "2 ^ h = Suc x" by (metis not0_implies_Suc power_not_zero zero_neq_numeral)
  then show ?thesis by (simp add: power_add)
qed

function level_loop :: "nat \<Rightarrow> nat \<Rightarrow> nat" where
  "level_loop n h = (if 1 + 2 * (2 ^ (h + 1) - 1) \<le> n then level_loop n (Suc h) else h)"
  by pat_completeness auto
termination
proof (relation "measure (\<lambda>(n, h). n - h)")
  fix n h :: nat
  assume "1 + 2 * (2 ^ (h + 1) - 1) \<le> n"
  then have "2 ^ (h + 2) - 1 \<le> n" unfolding complete_levels .
  moreover have "(2 :: nat) ^ (h + 2) = 4 * 2 ^ h" by simp
  moreover have "h < 2 ^ h" by (rule less_exp)
  ultimately have "h < n" by linarith
  then show "((n, Suc h), n, h) \<in> measure (\<lambda>(n, h). n - h)" by simp
qed simp

declare level_loop.simps [simp del]

definition left_child_size :: "nat \<Rightarrow> nat" where
  "left_child_size n =
    (let h = level_loop n 0;
         p = min (2 ^ h) (n - 1 - 2 * (2 ^ h - 1))
     in 2 ^ h - 1 + p)"

definition fixed_update_result :: "('v \<Rightarrow> 'v \<Rightarrow> 'v) \<Rightarrow> nat \<Rightarrow> ('k, 'v) nodes \<Rightarrow> ('k, 'v) nodes result" where
  "fixed_update_result operation node_index nodes =
    bindE (deref nodes node_index) (\<lambda>nd.
    bindE (if 2 * node_index < length nodes
           then bindE (deref nodes (2 * node_index)) (\<lambda>l. Inr (operation (fresult l) (fvalue nd)))
           else Inr (fvalue nd)) (\<lambda>res1.
    bindE (if 2 * node_index + 1 < length nodes
           then bindE (deref nodes (2 * node_index + 1)) (\<lambda>r. Inr (operation res1 (fresult r)))
           else Inr res1) (\<lambda>res2.
    Inr (nodes[node_index := Some (nd\<lparr>fresult := res2\<rparr>)]))))"

lemma level_loop_bounds:
  assumes "2 ^ (h + 1) - 1 \<le> n"
  shows "2 ^ (level_loop n h + 1) - 1 \<le> n" "n < 2 ^ (level_loop n h + 2) - 1"
  using assms
proof (induction n h rule: level_loop.induct)
  case (1 n h)
  { case 1
    then show ?case using "1.IH"(1) level_loop.simps[of n h] unfolding complete_levels by (simp split: if_splits)
  next
    case 2
    then show ?case using "1.IH"(2) level_loop.simps[of n h] unfolding complete_levels by (simp split: if_splits)
  }
qed

lemma left_child_size_less: "0 < n \<Longrightarrow> left_child_size n < n"
  using level_loop_bounds[of 0 n] by (simp add: left_child_size_def Let_def algebra_simps)

text \<open>\<open>init_tree\<close> on the items between its two iterators.\<close>

function init_tree :: "('v \<Rightarrow> 'v \<Rightarrow> 'v) \<Rightarrow> nat \<Rightarrow> ('k \<times> 'v) list \<Rightarrow> ('k, 'v) nodes \<Rightarrow> ('k, 'v) nodes result" where
  "init_tree operation node_index items nodes =
    (if items = [] then Inl Undefined_behaviour
     else
       let left_size = left_child_size (length items);
           current = items ! left_size
       in bindE (if left_size \<noteq> 0 then init_tree operation (2 * node_index) (take left_size items) nodes
                 else Inr nodes) (\<lambda>nodes1.
          bindE (if left_size + 1 \<noteq> length items
                 then init_tree operation (2 * node_index + 1) (drop (left_size + 1) items) nodes1
                 else Inr nodes1) (\<lambda>nodes2.
          if node_index < length nodes2
          then fixed_update_result operation node_index
                 (nodes2[node_index := Some \<lparr>fkey = fst current, fvalue = snd current, fresult = snd current\<rparr>])
          else Inl Undefined_behaviour)))"
  by pat_completeness auto
termination
  by (relation "measure (\<lambda>(_, _, items, _). length items)") (auto simp: left_child_size_less)

declare init_tree.simps [simp del]

definition fixed_init :: "('v \<Rightarrow> 'v \<Rightarrow> 'v) \<Rightarrow> ('k::linorder \<times> 'v::linorder) list \<Rightarrow> ('k, 'v) nodes result" where
  "fixed_init operation items =
    (let sorted_items = sort items in
     if sorted_items = [] then Inr []
     else init_tree operation 1 sorted_items (replicate (length items + 1) None))"

function update_tree :: "('v \<Rightarrow> 'v \<Rightarrow> 'v) \<Rightarrow> nat \<Rightarrow> 'k::linorder \<Rightarrow> 'v \<Rightarrow> ('k, 'v) nodes \<Rightarrow> ('k, 'v) nodes result" where
  "update_tree operation node_index key val nodes =
    (if node_index \<ge> length nodes then Inl Runtime_error
     else if node_index = 0 then Inl Undefined_behaviour
     else bindE (deref nodes node_index) (\<lambda>nd.
       bindE (if key = fkey nd then Inr (nodes[node_index := Some (nd\<lparr>fvalue := val\<rparr>)])
              else if key < fkey nd then update_tree operation (2 * node_index) key val nodes
              else update_tree operation (2 * node_index + 1) key val nodes) (\<lambda>nodes1.
         fixed_update_result operation node_index nodes1)))"
  by pat_completeness auto
termination
  by (relation "measure (\<lambda>(_, i, _, _, nodes). length nodes - i)") auto

declare update_tree.simps [simp del]

definition fixed_update :: "('v \<Rightarrow> 'v \<Rightarrow> 'v) \<Rightarrow> 'k::linorder \<Rightarrow> 'v \<Rightarrow> ('k, 'v) nodes \<Rightarrow> ('k, 'v) nodes result" where
  "fixed_update operation key val nodes = update_tree operation 1 key val nodes"

function count_tree :: "nat \<Rightarrow> 'k::linorder \<Rightarrow> ('k, 'v) nodes \<Rightarrow> nat result" where
  "count_tree node_index key nodes =
    (if node_index \<ge> length nodes then Inr 0
     else if node_index = 0 then Inl Undefined_behaviour
     else bindE (deref nodes node_index) (\<lambda>nd.
       if key = fkey nd then Inr 1
       else if key < fkey nd then count_tree (2 * node_index) key nodes
       else count_tree (2 * node_index + 1) key nodes))"
  by pat_completeness auto
termination
  by (relation "measure (\<lambda>(i, _, nodes). length nodes - i)") auto

declare count_tree.simps [simp del]

definition fixed_count :: "'k::linorder \<Rightarrow> ('k, 'v) nodes \<Rightarrow> nat result" where
  "fixed_count key nodes = count_tree 1 key nodes"

definition fixed_query :: "'v \<Rightarrow> ('k, 'v) nodes \<Rightarrow> 'v result" where
  "fixed_query neutral nodes = (if nodes = [] then Inr neutral else bindE (deref nodes 1) (\<lambda>nd. Inr (fresult nd)))"

function fixed_less_than :: "('v \<Rightarrow> 'v \<Rightarrow> 'v) \<Rightarrow> 'v \<Rightarrow> nat \<Rightarrow> 'k::linorder \<Rightarrow> bool \<Rightarrow> ('k, 'v) nodes \<Rightarrow> 'v result" where
  "fixed_less_than operation neutral node_index key strict nodes =
    (if node_index = 0 then Inl Undefined_behaviour
     else bindE (deref nodes node_index) (\<lambda>nd.
       if (strict \<and> fkey nd < key) \<or> (\<not> strict \<and> fkey nd \<le> key) then
         bindE (if 2 * node_index < length nodes
                then bindE (deref nodes (2 * node_index)) (\<lambda>l. Inr (operation (fresult l) (fvalue nd)))
                else Inr (fvalue nd)) (\<lambda>res.
           if 2 * node_index + 1 < length nodes
           then bindE (fixed_less_than operation neutral (2 * node_index + 1) key strict nodes) (\<lambda>r. Inr (operation res r))
           else Inr res)
       else if 2 * node_index < length nodes
       then fixed_less_than operation neutral (2 * node_index) key strict nodes
       else Inr neutral))"
  by pat_completeness auto
termination
  by (relation "measure (\<lambda>(_, _, i, _, _, nodes). length nodes - i)") auto

declare fixed_less_than.simps [simp del]

definition fixed_query_lt :: "('v \<Rightarrow> 'v \<Rightarrow> 'v) \<Rightarrow> 'v \<Rightarrow> 'k::linorder \<Rightarrow> ('k, 'v) nodes \<Rightarrow> 'v result" where
  "fixed_query_lt operation neutral key nodes =
    (if nodes = [] then Inr neutral else fixed_less_than operation neutral 1 key True nodes)"

definition fixed_query_le :: "('v \<Rightarrow> 'v \<Rightarrow> 'v) \<Rightarrow> 'v \<Rightarrow> 'k::linorder \<Rightarrow> ('k, 'v) nodes \<Rightarrow> 'v result" where
  "fixed_query_le operation neutral key nodes =
    (if nodes = [] then Inr neutral else fixed_less_than operation neutral 1 key False nodes)"

section \<open>Shape of the array\<close>

text \<open>\<open>cnt N i\<close> is the number of indices up to \<open>N\<close> in the subtree of index \<open>i\<close>.\<close>

function cnt :: "nat \<Rightarrow> nat \<Rightarrow> nat" where
  "cnt N i = (if i = 0 \<or> N < i then 0 else 1 + cnt N (2 * i) + cnt N (2 * i + 1))"
  by pat_completeness auto
termination by (relation "measure (\<lambda>(N, i). Suc N - i)") auto

declare cnt.simps [simp del]

lemma cnt_beyond [simp]: "N < i \<Longrightarrow> cnt N i = 0"
  by (simp add: cnt.simps)

lemma cnt_formula:
  assumes "0 < i" "(i + 1) * 2 ^ h \<le> N + 1" "N < i * 2 ^ (h + 2)"
  shows "cnt N i = 2 ^ (h + 1) - 1 + min (2 ^ (h + 1)) (N + 1 - i * 2 ^ (h + 1))"
  using assms
proof (induction h arbitrary: i)
  case 0
  then have "cnt N (2 * i) = (if 2 * i \<le> N then 1 else 0)" "cnt N (2 * i + 1) = (if 2 * i + 1 \<le> N then 1 else 0)"
    by (auto simp: cnt.simps[of N "2 * i"] cnt.simps[of N "Suc (2 * i)"])
  then show ?case using 0 by (auto simp: cnt.simps[of N i] min_def)
next
  case (Suc h)
  define x where "x = (2 :: nat) ^ h"
  have pow: "(2 :: nat) ^ (Suc h) = 2 * x" "(2 :: nat) ^ (Suc h + 1) = 4 * x" "(2 :: nat) ^ (Suc h + 2) = 8 * x"
    "(2 :: nat) ^ (h + 1) = 2 * x" "(2 :: nat) ^ (h + 2) = 4 * x" "(1 :: nat) \<le> x"
    by (simp_all add: x_def)
  have bounds: "(i + 1) * (2 * x) \<le> N + 1" "N < i * (8 * x)" using Suc.prems pow by (auto simp: algebra_simps)
  have "cnt N (2 * i) = 2 * x - 1 + min (2 * x) (N + 1 - 2 * i * (2 * x))"
    using Suc.IH[of "2 * i"] Suc.prems(1) bounds unfolding pow x_def[symmetric] by (simp add: algebra_simps)
  moreover have "cnt N (2 * i + 1) = 2 * x - 1 + min (2 * x) (N + 1 - (2 * i + 1) * (2 * x))"
    using Suc.IH[of "2 * i + 1"] bounds unfolding pow x_def[symmetric] by (simp add: algebra_simps)
  moreover have "i \<le> N" using bounds(1) pow(6)
    by (metis Suc_eq_plus1 Suc_le_mono le_trans mult_le_mono2 mult.right_neutral nat_mult_le_cancel_disj one_le_numeral order_trans)
  ultimately show ?case unfolding pow using Suc.prems(1) pow(6)
    by (simp add: cnt.simps[of N i] algebra_simps min_def)
qed

lemma level_exists:
  fixes i N :: nat
  assumes "0 < i" "i \<le> N"
  obtains h where "(i + 1) * 2 ^ h \<le> N + 1" "N + 1 < (i + 1) * 2 ^ (h + 1)"
proof -
  let ?P = "\<lambda>h. N + 1 < (i + 1) * 2 ^ (h + 1)"
  have "N + 1 < 2 ^ (N + 1)" by (rule less_exp)
  also have "\<dots> \<le> 2 ^ (N + 1) * (i + 1)" by simp
  finally have "?P N" by (simp add: mult.commute)
  then have least: "?P (LEAST h. ?P h)" by (rule LeastI)
  have "(i + 1) * 2 ^ (LEAST h. ?P h) \<le> N + 1"
  proof (cases "LEAST h. ?P h")
    case 0
    then show ?thesis using assms by simp
  next
    case (Suc h)
    then have "\<not> ?P h" using not_less_Least[of h ?P] by simp
    then show ?thesis using Suc by (simp add: not_less)
  qed
  with least show thesis using that by blast
qed

lemma level_loop_unique:
  assumes "2 ^ (h + 1) - 1 \<le> n" "n < 2 ^ (h + 2) - 1"
  shows "level_loop n 0 = h"
proof -
  have "(2 :: nat) \<le> 2 ^ (h + 1)" by simp
  then have "0 < n" using assms(1) by linarith
  then have "2 ^ (level_loop n 0 + 1) - 1 \<le> n" "n < 2 ^ (level_loop n 0 + 2) - 1"
    using level_loop_bounds[of 0 n] by auto
  then have "(2 :: nat) ^ (level_loop n 0 + 1) < 2 ^ (h + 2)" "(2 :: nat) ^ (h + 1) < 2 ^ (level_loop n 0 + 2)"
    using assms by linarith+
  then have "level_loop n 0 + 1 < h + 2" "h + 1 < level_loop n 0 + 2"
    by (simp_all only: power_strict_increasing_iff one_less_numeral_iff semiring_norm)
  then show ?thesis by simp
qed

text \<open>\<open>left_child_size\<close> is the size of the left subtree in the array layout.\<close>

lemma left_child_size_cnt:
  assumes "0 < i" "i \<le> N"
  shows "left_child_size (cnt N i) = cnt N (2 * i)"
proof -
  obtain h where h: "(i + 1) * 2 ^ h \<le> N + 1" "N + 1 < (i + 1) * 2 ^ (h + 1)" using level_exists[OF assms] .
  define x where "x = (2 :: nat) ^ h"
  have pow: "(2 :: nat) ^ (h + 1) = 2 * x" "(2 :: nat) ^ (h + 2) = 4 * x" "1 \<le> x" by (simp_all add: x_def)
  define a where "a = N + 1 - i * (2 * x)"
  have lo: "i * x + x \<le> N + 1" and hi: "N + 1 < i * (2 * x) + 2 * x"
    using h pow x_def by (auto simp: algebra_simps)
  have "x \<le> i * x" "i * (2 * x) = 2 * (i * x)" "i * (4 * x) = 4 * (i * x)" using assms(1) by simp_all
  then have "N < i * (4 * x)" using hi by linarith
  then have m: "cnt N i = 2 * x - 1 + a"
    using cnt_formula[OF assms(1) h(1)] hi pow by (simp add: a_def min_def algebra_simps)
  have "a < 2 * x" using hi pow(3) by (simp add: a_def)
  then have "level_loop (cnt N i) 0 = h" using m pow by (intro level_loop_unique) auto
  then have size: "left_child_size (cnt N i) = x - 1 + min x a"
    using m pow(3) by (simp add: left_child_size_def x_def[symmetric] Let_def)
  show ?thesis
  proof (cases h)
    case 0
    then have "x = 1" by (simp add: x_def)
    then show ?thesis using size \<open>N < i * (4 * x)\<close> assms lo hi by (auto simp: a_def cnt.simps[of N "2 * i"])
  next
    case (Suc g)
    define y where "y = (2 :: nat) ^ g"
    have y: "x = 2 * y" using Suc by (simp add: x_def y_def)
    have "cnt N (2 * i) = 2 ^ (g + 1) - 1 + min (2 ^ (g + 1)) (N + 1 - 2 * i * 2 ^ (g + 1))"
      using assms(1) lo \<open>N < i * (4 * x)\<close> y by (intro cnt_formula) (auto simp: y_def algebra_simps)
    then show ?thesis using size y by (simp add: y_def a_def algebra_simps)
  qed
qed

section \<open>Contents of a subtree\<close>

function walk :: "('k, 'v) nodes \<Rightarrow> nat \<Rightarrow> ('k \<times> 'v) list" where
  "walk nodes i =
    (if i = 0 \<or> length nodes \<le> i then []
     else walk nodes (2 * i) @ (case nodes ! i of None \<Rightarrow> [] | Some nd \<Rightarrow> [(fkey nd, fvalue nd)]) @ walk nodes (2 * i + 1))"
  by pat_completeness auto
termination by (relation "measure (\<lambda>(nodes, i). length nodes - i)") auto

declare walk.simps [simp del]

text \<open>Every node of the subtree is present and caches the aggregation of its subtree.\<close>

function cached :: "('v \<Rightarrow> 'v \<Rightarrow> 'v) \<Rightarrow> ('k, 'v) nodes \<Rightarrow> nat \<Rightarrow> bool" where
  "cached operation nodes i =
    (if i = 0 \<or> length nodes \<le> i then True
     else cached operation nodes (2 * i) \<and> cached operation nodes (2 * i + 1)
     \<and> nodes ! i \<noteq> None
     \<and> (let nd = the (nodes ! i);
            res1 = (if 2 * i < length nodes then operation (fresult (the (nodes ! (2 * i)))) (fvalue nd) else fvalue nd)
        in fresult nd = (if 2 * i + 1 < length nodes then operation res1 (fresult (the (nodes ! (2 * i + 1)))) else res1)))"
  by pat_completeness auto
termination by (relation "measure (\<lambda>(_, nodes, i). length nodes - i)") auto

declare cached.simps [simp del]

text \<open>Both depend on the slots of the subtree only.\<close>

definition same_subtree :: "nat \<Rightarrow> ('k, 'v) nodes \<Rightarrow> ('k, 'v) nodes \<Rightarrow> bool" where
  "same_subtree i xs ys \<longleftrightarrow> length xs = length ys \<and> (\<forall>j. in_subtree i j \<longrightarrow> j < length xs \<longrightarrow> xs ! j = ys ! j)"

lemma same_subtree_child:
  "same_subtree i xs ys \<Longrightarrow> same_subtree (2 * i) xs ys \<and> same_subtree (2 * i + 1) xs ys"
  unfolding same_subtree_def using in_subtree_child by blast

lemma walk_cong: "same_subtree i xs ys \<Longrightarrow> walk xs i = walk ys i"
proof (induction xs i rule: walk.induct)
  case (1 xs i)
  then show ?case
  proof (cases "i = 0 \<or> length xs \<le> i")
    case True
    then show ?thesis using 1 by (auto simp: walk.simps same_subtree_def)
  next
    case False
    then have "walk xs (2 * i) = walk ys (2 * i)" "walk xs (2 * i + 1) = walk ys (2 * i + 1)" "xs ! i = ys ! i"
      "length xs = length ys"
      using 1 same_subtree_child[OF 1(3)] by (auto simp: same_subtree_def)
    then show ?thesis using False by (simp add: walk.simps[of xs i] walk.simps[of ys i])
  qed
qed

lemma cached_cong: "same_subtree i xs ys \<Longrightarrow> cached operation xs i = cached operation ys i"
proof (induction operation xs i rule: cached.induct)
  case (1 operation xs i)
  show ?case
  proof (cases "i = 0 \<or> length xs \<le> i")
    case True
    then show ?thesis using 1(3) by (auto simp: cached.simps[of operation xs i] cached.simps[of operation ys i] same_subtree_def)
  next
    case False
    have "in_subtree i (2 * i)" "in_subtree i (2 * i + 1)" using in_subtree_child in_subtree_refl by blast+
    then have same: "length xs = length ys" "xs ! i = ys ! i" "2 * i < length xs \<Longrightarrow> xs ! (2 * i) = ys ! (2 * i)"
      "2 * i + 1 < length xs \<Longrightarrow> xs ! (2 * i + 1) = ys ! (2 * i + 1)"
      using 1(3) False by (auto simp: same_subtree_def)
    have "cached operation xs (2 * i) = cached operation ys (2 * i)"
      "cached operation xs (2 * i + 1) = cached operation ys (2 * i + 1)"
      using 1 False same_subtree_child[OF 1(3)] by auto
    then show ?thesis
      unfolding cached.simps[of operation xs i] cached.simps[of operation ys i]
      using same by (simp add: Let_def)
  qed
qed

section \<open>Initialisation\<close>

lemma cached_present: "cached operation ns i \<Longrightarrow> 0 < i \<Longrightarrow> i < length ns \<Longrightarrow> \<exists>nd. ns ! i = Some nd \<and> deref ns i = Inr nd"
  unfolding cached.simps[of operation ns i] by (auto simp: deref_def)

lemma same_subtree_update: "\<not> in_subtree c i \<Longrightarrow> same_subtree c ns (ns[i := x])"
  by (auto simp: same_subtree_def) (metis nth_list_update_neq)

lemma walk_Some:
  "0 < i \<Longrightarrow> i < length ns \<Longrightarrow> ns ! i = Some nd \<Longrightarrow>
   walk ns i = walk ns (2 * i) @ (fkey nd, fvalue nd) # walk ns (2 * i + 1)"
  by (simp add: walk.simps[of ns i])

lemma fixed_update_result_ok:
  assumes "0 < i" "i < length ns" "ns ! i = Some nd"
    and "cached operation ns (2 * i)" "cached operation ns (2 * i + 1)"
  shows "\<exists>res. fixed_update_result operation i ns = Inr (ns[i := Some (nd\<lparr>fresult := res\<rparr>)])
    \<and> cached operation (ns[i := Some (nd\<lparr>fresult := res\<rparr>)]) i
    \<and> walk (ns[i := Some (nd\<lparr>fresult := res\<rparr>)]) i = walk ns i"
proof -
  define res1 where "res1 = (if 2 * i < length ns then operation (fresult (the (ns ! (2 * i)))) (fvalue nd) else fvalue nd)"
  define res where "res = (if 2 * i + 1 < length ns then operation res1 (fresult (the (ns ! (2 * i + 1)))) else res1)"
  let ?ns = "ns[i := Some (nd\<lparr>fresult := res\<rparr>)]"
  have l: "2 * i < length ns \<Longrightarrow> \<exists>n. ns ! (2 * i) = Some n \<and> deref ns (2 * i) = Inr n"
    and r: "2 * i + 1 < length ns \<Longrightarrow> \<exists>n. ns ! (2 * i + 1) = Some n \<and> deref ns (2 * i + 1) = Inr n"
    using cached_present[OF assms(4)] cached_present[OF assms(5)] assms(1) by auto
  have upd: "fixed_update_result operation i ns = Inr ?ns"
    using assms(2,3) l r unfolding fixed_update_result_def res_def res1_def by (auto simp: deref_def[of ns i])
  have same: "same_subtree (2 * i) ns ?ns" "same_subtree (2 * i + 1) ns ?ns"
    using not_in_child_subtree[OF assms(1)] by (simp_all add: same_subtree_update)
  have "cached operation ?ns (2 * i)" "cached operation ?ns (2 * i + 1)"
    using assms(4,5) cached_cong[OF same(1)] cached_cong[OF same(2)] by simp_all
  moreover have "?ns ! (2 * i) = ns ! (2 * i)" "?ns ! (2 * i + 1) = ns ! (2 * i + 1)" "?ns ! i = Some (nd\<lparr>fresult := res\<rparr>)"
    using assms(1,2) by simp_all
  ultimately have "cached operation ?ns i"
    using assms(1,2) unfolding cached.simps[of operation ?ns i] by (simp add: res_def res1_def)
  moreover have "walk ?ns i = walk ns i"
    using walk_Some[of i ?ns] walk_Some[OF assms(1-3)] assms(1,2) walk_cong[OF same(1)] walk_cong[OF same(2)] by simp
  ultimately show ?thesis using upd by blast
qed

definition init_spec ::
  "('v \<Rightarrow> 'v \<Rightarrow> 'v) \<Rightarrow> nat \<Rightarrow> ('k \<times> 'v) list \<Rightarrow> ('k, 'v) nodes \<Rightarrow> ('k, 'v) nodes result \<Rightarrow> bool" where
  "init_spec operation i xs ns r \<longleftrightarrow> (\<exists>ns'. r = Inr ns' \<and> length ns' = length ns \<and> walk ns' i = xs
     \<and> cached operation ns' i \<and> (\<forall>j. \<not> in_subtree i j \<longrightarrow> ns' ! j = ns ! j))"

lemma cnt_zero: "0 < i \<Longrightarrow> cnt N i = 0 \<longleftrightarrow> N < i"
  by (simp add: cnt.simps)

lemma optional_call:
  assumes "0 < c" "length xs = cnt (length ns - 1) c" "ns \<noteq> []"
    and "xs \<noteq> [] \<Longrightarrow> c < length ns \<Longrightarrow> init_spec operation c xs ns (init_tree operation c xs ns)"
  shows "init_spec operation c xs ns (if xs \<noteq> [] then init_tree operation c xs ns else Inr ns)"
proof (cases "xs = []")
  case True
  then have "length ns \<le> c" using assms(1-3) cnt_zero[of c "length ns - 1"] by (cases ns) auto
  then show ?thesis using True by (simp add: init_spec_def walk.simps cached.simps)
next
  case False
  then have "c < length ns" using assms(1-3) cnt_zero[of c "length ns - 1"] by (cases ns) auto
  then show ?thesis using False assms(4) by simp
qed

lemma same_subtree_frame:
  assumes "length xs = length ys" "\<forall>j. \<not> in_subtree c j \<longrightarrow> xs ! j = ys ! j" "\<And>j. in_subtree b j \<Longrightarrow> \<not> in_subtree c j"
  shows "same_subtree b xs ys"
  using assms by (auto simp: same_subtree_def)

lemma init_tree_ok:
  "\<lbrakk> 0 < i; i < length ns; length items = cnt (length ns - 1) i \<rbrakk> \<Longrightarrow>
   init_spec operation i items ns (init_tree operation i items ns)"
proof (induction operation i items ns rule: init_tree.induct)
  case (1 operation i items ns)
  define N where "N = length ns - 1"
  define ls where "ls = left_child_size (length items)"
  have iN: "i \<le> N" "0 < i" using 1 by (auto simp: N_def)
  have len: "length items = 1 + cnt N (2 * i) + cnt N (2 * i + 1)"
    using 1(5) iN cnt.simps[of N i] unfolding N_def[symmetric] by simp
  have ls: "ls = cnt N (2 * i)" using left_child_size_cnt[OF iN(2,1)] 1(5) by (simp add: ls_def N_def)
  have items: "items \<noteq> []" "ls < length items" using len ls by auto
  let ?L = "take ls items" and ?R = "drop (ls + 1) items"
  have lens: "length ?L = cnt N (2 * i)" "length ?R = cnt N (2 * i + 1)" using len ls by auto
  have Lcond: "(ls \<noteq> 0) = (?L \<noteq> [])" and Rcond: "(ls + 1 \<noteq> length items) = (?R \<noteq> [])" using items by auto
  have ns: "ns \<noteq> []" using 1(4) by auto
  have "init_spec operation (2 * i) ?L ns (if ?L \<noteq> [] then init_tree operation (2 * i) ?L ns else Inr ns)"
    using 1(1)[OF items(1) ls_def refl] lens(1) iN ns Lcond by (intro optional_call) (auto simp: N_def)
  then obtain ns1 where ns1: "(if ls \<noteq> 0 then init_tree operation (2 * i) ?L ns else Inr ns) = Inr ns1"
      "length ns1 = length ns" "walk ns1 (2 * i) = ?L" "cached operation ns1 (2 * i)"
      "\<forall>j. \<not> in_subtree (2 * i) j \<longrightarrow> ns1 ! j = ns ! j"
    unfolding init_spec_def Lcond by blast
  have "ns1 \<noteq> []" using ns ns1(2) by auto
  then have "init_spec operation (2 * i + 1) ?R ns1 (if ?R \<noteq> [] then init_tree operation (2 * i + 1) ?R ns1 else Inr ns1)"
    using 1(2)[OF items(1) ls_def refl _ , of ns1] lens(2) iN Rcond ns1(2) by (intro optional_call) (auto simp: N_def)
  then obtain ns2 where ns2: "(if ls + 1 \<noteq> length items then init_tree operation (2 * i + 1) ?R ns1 else Inr ns1) = Inr ns2"
      "length ns2 = length ns" "walk ns2 (2 * i + 1) = ?R" "cached operation ns2 (2 * i + 1)"
      "\<forall>j. \<not> in_subtree (2 * i + 1) j \<longrightarrow> ns2 ! j = ns1 ! j"
    unfolding init_spec_def Rcond using ns1(2) by auto
  have left: "same_subtree (2 * i) ns2 ns1"
    using ns1(2) ns2(2,5) in_subtree_siblings[OF iN(2)] by (intro same_subtree_frame[where c = "2 * i + 1"]) auto
  let ?nd = "\<lparr>fkey = fst (items ! ls), fvalue = snd (items ! ls), fresult = snd (items ! ls)\<rparr>"
  let ?ns3 = "ns2[i := Some ?nd]"
  have same: "same_subtree (2 * i) ns2 ?ns3" "same_subtree (2 * i + 1) ns2 ?ns3"
    using not_in_child_subtree[OF iN(2)] by (simp_all add: same_subtree_update)
  have c3: "cached operation ?ns3 (2 * i)" "cached operation ?ns3 (2 * i + 1)"
    using ns1(4) ns2(4) cached_cong[OF left] cached_cong[OF same(1)] cached_cong[OF same(2)] by simp_all
  have w3: "walk ?ns3 (2 * i) = ?L" "walk ?ns3 (2 * i + 1) = ?R"
    using ns1(3) ns2(3) walk_cong[OF left] walk_cong[OF same(1)] walk_cong[OF same(2)] by simp_all
  have i3: "i < length ?ns3" "?ns3 ! i = Some ?nd" using 1(4) ns2(2) by simp_all
  obtain res where res: "fixed_update_result operation i ?ns3 = Inr (?ns3[i := Some (?nd\<lparr>fresult := res\<rparr>)])"
      "cached operation (?ns3[i := Some (?nd\<lparr>fresult := res\<rparr>)]) i"
      "walk (?ns3[i := Some (?nd\<lparr>fresult := res\<rparr>)]) i = walk ?ns3 i"
    using fixed_update_result_ok[OF iN(2) i3 c3] by blast
  have "init_tree operation i items ns = fixed_update_result operation i ?ns3"
    using items ns1(1) ns2(1) 1(4) ns2(2) unfolding init_tree.simps[of operation i items ns] ls_def[symmetric] Let_def
    by simp
  moreover have "walk ?ns3 i = items"
    using walk_Some[OF iN(2) i3] w3 id_take_nth_drop[OF items(2)] by simp
  moreover have "\<forall>j. \<not> in_subtree i j \<longrightarrow> ?ns3[i := Some (?nd\<lparr>fresult := res\<rparr>)] ! j = ns ! j"
    using ns1(5) ns2(5) in_subtree_child by (metis in_subtree_refl nth_list_update_neq)
  ultimately show ?case using res ns2(2) by (simp add: init_spec_def)
qed

text \<open>All \<open>N\<close> indices lie in the subtree of the root.\<close>

lemma cnt_index_split: "0 < i \<Longrightarrow> {j. in_subtree i j \<and> j \<le> N} =
   (if i \<le> N then {i} else {}) \<union> {j. in_subtree (2 * i) j \<and> j \<le> N} \<union> {j. in_subtree (2 * i + 1) j \<and> j \<le> N}"
proof -
  assume i: "0 < i"
  have "in_subtree i j \<Longrightarrow> j = i \<or> in_subtree (2 * i) j \<or> in_subtree (2 * i + 1) j" for j
  proof -
    assume "in_subtree i j"
    then obtain d where d: "j div 2 ^ d = i" by (auto simp: in_subtree_def)
    show ?thesis
    proof (cases d)
      case 0
      then show ?thesis using d by simp
    next
      case (Suc e)
      then have "j div 2 ^ e div 2 = i" using d by (simp add: power_Suc2 div_mult2_eq del: power_Suc)
      then have "j div 2 ^ e = 2 * i \<or> j div 2 ^ e = 2 * i + 1" by auto
      then show ?thesis by (auto simp: in_subtree_def)
    qed
  qed
  then show ?thesis using in_subtree_child[of i] by auto
qed

lemma cnt_card: "0 < i \<Longrightarrow> card {j. in_subtree i j \<and> j \<le> N} = cnt N i"
proof (induction N i rule: cnt.induct)
  case (1 N i)
  show ?case
  proof (cases "N < i")
    case True
    then have "{j. in_subtree i j \<and> j \<le> N} = {}" using in_subtree_le[of i] by fastforce
    then show ?thesis using True by simp
  next
    case False
    let ?S = "\<lambda>c. {j. in_subtree c j \<and> j \<le> N}"
    have fin: "finite (?S c)" for c by (rule finite_subset[of _ "{..N}"]) auto
    have disj: "?S (2 * i) \<inter> ?S (2 * i + 1) = {}" "i \<notin> ?S (2 * i) \<union> ?S (2 * i + 1)"
      using in_subtree_siblings[OF 1(3)] not_in_child_subtree[OF 1(3)] by auto
    have "?S i = insert i (?S (2 * i) \<union> ?S (2 * i + 1))" using cnt_index_split[OF 1(3), of N] False by auto
    then have "card (?S i) = Suc (card (?S (2 * i)) + card (?S (2 * i + 1)))"
      using disj fin by (simp add: card_Un_disjoint)
    then show ?thesis using 1 False by (simp add: cnt.simps[of N i])
  qed
qed

lemma cnt_root: "cnt N 1 = N"
proof -
  have "{j. in_subtree 1 j \<and> j \<le> N} = {1..N}"
    using in_subtree_root in_subtree_le[of 1] by (auto simp: Suc_le_eq)
  then show ?thesis using cnt_card[of 1 N] by simp
qed

definition fixed_entries :: "('k, 'v) nodes \<Rightarrow> ('k \<times> 'v) list" where
  "fixed_entries nodes = walk nodes 1"

definition fixed_inv :: "('v \<Rightarrow> 'v \<Rightarrow> 'v) \<Rightarrow> ('k::linorder, 'v) nodes \<Rightarrow> bool" where
  "fixed_inv operation nodes \<longleftrightarrow> length nodes \<noteq> 1 \<and> cached operation nodes 1 \<and> keys_sorted (fixed_entries nodes)"

lemma sort_keys_sorted:
  fixes items :: "('k::linorder \<times> 'v::linorder) list"
  assumes "distinct (map fst items)"
  shows "keys_sorted (sort items)"
proof -
  have "distinct (map fst (sort items))"
    using assms by (metis distinct_map distinct_sort set_sort)
  moreover have "sorted (map fst (sort items))"
    unfolding sorted_map
    by (rule sorted_wrt_mono_rel[OF _ sorted_sort[of items]]) (auto simp: less_eq_prod_def)
  ultimately show ?thesis by (simp add: keys_sorted_def strict_sorted_iff)
qed

lemma fixed_init_ok:
  assumes "distinct (map fst items)"
  shows "\<exists>nodes. fixed_init operation items = Inr nodes \<and> fixed_inv operation nodes \<and> fixed_entries nodes = sort items"
proof (cases "items = []")
  case True
  then show ?thesis by (simp add: fixed_init_def fixed_inv_def fixed_entries_def cached.simps walk.simps)
next
  case False
  let ?ns = "replicate (length items + 1) None"
  have "init_spec operation 1 (sort items) ?ns (init_tree operation 1 (sort items) ?ns)"
    using False by (intro init_tree_ok) (auto simp: cnt_root[simplified])
  then obtain ns where ns: "init_tree operation 1 (sort items) ?ns = Inr ns" "length ns = length items + 1"
      "walk ns 1 = sort items" "cached operation ns 1"
    unfolding init_spec_def by auto
  moreover have "sort items \<noteq> []" using False by (metis set_empty set_sort)
  ultimately show ?thesis using False sort_keys_sorted[OF assms]
    by (simp add: fixed_init_def Let_def fixed_inv_def fixed_entries_def)
qed

section \<open>Updates and queries\<close>

lemma fixed_subtree_sorted:
  assumes "0 < i" "i < length ns" "ns ! i = Some nd" "keys_sorted (walk ns i)"
  shows "keys_sorted (walk ns (2 * i))" "keys_sorted (walk ns (2 * i + 1))"
    "\<forall>e \<in> set (walk ns (2 * i)). fst e < fkey nd" "\<forall>e \<in> set (walk ns (2 * i + 1)). fkey nd < fst e"
  using assms(4) unfolding walk_Some[OF assms(1-3)] by (simp_all add: keys_sorted_split)

lemma cached_children:
  "cached operation ns i \<Longrightarrow> 0 < i \<Longrightarrow> i < length ns \<Longrightarrow> cached operation ns (2 * i) \<and> cached operation ns (2 * i + 1)"
  unfolding cached.simps[of operation ns i] by simp

definition update_spec :: "('v \<Rightarrow> 'v \<Rightarrow> 'v) \<Rightarrow> nat \<Rightarrow> ('k::linorder) \<Rightarrow> 'v \<Rightarrow> ('k, 'v) nodes \<Rightarrow> ('k, 'v) nodes result \<Rightarrow> bool" where
  "update_spec operation i key val ns r \<longleftrightarrow>
    (if key \<in> fst ` set (walk ns i) then
       \<exists>ns'. r = Inr ns' \<and> length ns' = length ns \<and> cached operation ns' i \<and> walk ns' i = al_put key val (walk ns i)
         \<and> (\<forall>j. \<not> in_subtree i j \<longrightarrow> ns' ! j = ns ! j)
     else r = Inl Runtime_error)"

lemma fixed_update_child:
  assumes "0 < i" "i < length ns" "ns ! i = Some nd" "cached operation ns i"
    and "length ns1 = length ns" "c \<in> {2 * i, 2 * i + 1}" "\<forall>j. \<not> in_subtree c j \<longrightarrow> ns1 ! j = ns ! j" "cached operation ns1 c"
  shows "\<exists>ns'. fixed_update_result operation i ns1 = Inr ns' \<and> length ns' = length ns \<and> cached operation ns' i
    \<and> walk ns' i = walk ns1 (2 * i) @ (fkey nd, fvalue nd) # walk ns1 (2 * i + 1)
    \<and> (\<forall>j. \<not> in_subtree i j \<longrightarrow> ns' ! j = ns ! j)"
proof -
  have children: "cached operation ns (2 * i)" "cached operation ns (2 * i + 1)"
    using cached_children[OF assms(4,1,2)] by auto
  have other: "same_subtree b ns1 ns" if "b \<in> {2 * i, 2 * i + 1}" "b \<noteq> c" for b
    using that assms(5,6,7) in_subtree_siblings[OF assms(1)]
    by (intro same_subtree_frame[where c = c]) auto
  have "cached operation ns1 (2 * i)" "cached operation ns1 (2 * i + 1)"
    using children assms(6,8) other[of "2 * i"] other[of "2 * i + 1"] cached_cong[of "2 * i" ns1 ns] cached_cong[of "2 * i + 1" ns1 ns]
    by auto
  moreover have node: "ns1 ! i = Some nd"
    using assms(3,6,7) not_in_child_subtree[OF assms(1)] by auto
  moreover have i1: "i < length ns1" using assms(2,5) by simp
  ultimately obtain res where "fixed_update_result operation i ns1 = Inr (ns1[i := Some (nd\<lparr>fresult := res\<rparr>)])"
      "cached operation (ns1[i := Some (nd\<lparr>fresult := res\<rparr>)]) i"
      "walk (ns1[i := Some (nd\<lparr>fresult := res\<rparr>)]) i = walk ns1 i"
    using fixed_update_result_ok[OF assms(1)] by blast
  moreover have "\<forall>j. \<not> in_subtree i j \<longrightarrow> ns1[i := Some (nd\<lparr>fresult := res\<rparr>)] ! j = ns ! j"
  proof (intro allI impI)
    fix j assume "\<not> in_subtree i j"
    then have "j \<noteq> i" "\<not> in_subtree c j" using assms(6) in_subtree_child[of i j] by auto
    then show "ns1[i := Some (nd\<lparr>fresult := res\<rparr>)] ! j = ns ! j" using assms(7) by simp
  qed
  ultimately show ?thesis using walk_Some[OF assms(1) i1 node] assms(5) by auto
qed

lemma update_child_spec:
  assumes "0 < i" "i < length ns" "ns ! i = Some nd" "cached operation ns i" "keys_sorted (walk ns i)"
    and "c = (if key < fkey nd then 2 * i else 2 * i + 1)" "key \<noteq> fkey nd" "update_spec operation c key val ns r"
  shows "update_spec operation i key val ns (bindE r (fixed_update_result operation i))"
proof -
  note sorted = fixed_subtree_sorted[OF assms(1-3,5)]
  note w = walk_Some[OF assms(1-3)]
  have mem: "key \<in> fst ` set (walk ns i) \<longleftrightarrow> key \<in> fst ` set (walk ns c)"
    unfolding w assms(6) using sorted(3,4) assms(7) by (auto dest: less_asym)
  show ?thesis
  proof (cases "key \<in> fst ` set (walk ns c)")
    case False
    then show ?thesis using assms(8) mem by (simp add: update_spec_def)
  next
    case True
    then obtain ns1 where ns1: "r = Inr ns1" "length ns1 = length ns" "cached operation ns1 c"
        "walk ns1 c = al_put key val (walk ns c)" "\<forall>j. \<not> in_subtree c j \<longrightarrow> ns1 ! j = ns ! j"
      using assms(8) by (auto simp: update_spec_def)
    have "c \<in> {2 * i, 2 * i + 1}" using assms(6) by simp
    then obtain ns' where ns': "fixed_update_result operation i ns1 = Inr ns'" "length ns' = length ns" "cached operation ns' i"
        "walk ns' i = walk ns1 (2 * i) @ (fkey nd, fvalue nd) # walk ns1 (2 * i + 1)"
        "\<forall>j. \<not> in_subtree i j \<longrightarrow> ns' ! j = ns ! j"
      using fixed_update_child[OF assms(1-4) ns1(2) _ ns1(5,3)] by blast
    have other: "walk ns1 b = walk ns b" if "b \<in> {2 * i, 2 * i + 1}" "b \<noteq> c" for b
      using that \<open>c \<in> {2 * i, 2 * i + 1}\<close> ns1(2,5) in_subtree_siblings[OF assms(1)]
      by (intro walk_cong same_subtree_frame[where c = c]) auto
    have "walk ns' i = al_put key val (walk ns i)"
    proof (cases "key < fkey nd")
      case True
      then show ?thesis using ns'(4) ns1(4) other[of "2 * i + 1"] assms(6) by (simp add: w al_put_before)
    next
      case False
      then have "\<forall>e \<in> set (walk ns (2 * i) @ [(fkey nd, fvalue nd)]). fst e < key"
        using sorted(3) assms(7) by force
      then show ?thesis using False ns'(4) ns1(4) other[of "2 * i"] assms(6)
          al_put_middle[of "walk ns (2 * i) @ [(fkey nd, fvalue nd)]" key val "walk ns (2 * i + 1)"]
        by (simp add: w)
    qed
    then show ?thesis using ns' ns1(1) mem True by (simp add: update_spec_def)
  qed
qed

lemma update_node_spec:
  assumes "0 < i" "i < length ns" "ns ! i = Some nd" "cached operation ns i" "keys_sorted (walk ns i)" "key = fkey nd"
  shows "update_spec operation i key val ns (fixed_update_result operation i (ns[i := Some (nd\<lparr>fvalue := val\<rparr>)]))"
proof -
  let ?ns = "ns[i := Some (nd\<lparr>fvalue := val\<rparr>)]"
  note w = walk_Some[OF assms(1-3)]
  have same: "same_subtree (2 * i) ns ?ns" "same_subtree (2 * i + 1) ns ?ns"
    using not_in_child_subtree[OF assms(1)] by (simp_all add: same_subtree_update)
  have c: "cached operation ?ns (2 * i)" "cached operation ?ns (2 * i + 1)"
    using cached_children[OF assms(4,1,2)] cached_cong[OF same(1)] cached_cong[OF same(2)] by simp_all
  have i': "i < length ?ns" "?ns ! i = Some (nd\<lparr>fvalue := val\<rparr>)" using assms(2) by simp_all
  obtain res where res: "fixed_update_result operation i ?ns = Inr (?ns[i := Some (nd\<lparr>fvalue := val, fresult := res\<rparr>)])"
      "cached operation (?ns[i := Some (nd\<lparr>fvalue := val, fresult := res\<rparr>)]) i"
      "walk (?ns[i := Some (nd\<lparr>fvalue := val, fresult := res\<rparr>)]) i = walk ?ns i"
    using fixed_update_result_ok[OF assms(1) i' c] by auto
  have "walk ?ns i = al_put key val (walk ns i)"
    using walk_Some[OF assms(1) i'] walk_cong[OF same(1)] walk_cong[OF same(2)]
      fixed_subtree_sorted(3)[OF assms(1-3,5)] assms(6) w by (simp add: al_put_middle)
  moreover have "\<forall>j. \<not> in_subtree i j \<longrightarrow> ?ns[i := Some (nd\<lparr>fvalue := val, fresult := res\<rparr>)] ! j = ns ! j"
    by (metis in_subtree_refl nth_list_update_neq)
  ultimately show ?thesis using res assms(6) w by (simp add: update_spec_def)
qed

lemma update_tree_ok:
  "\<lbrakk> 0 < i; cached operation ns i; keys_sorted (walk ns i) \<rbrakk> \<Longrightarrow>
   update_spec operation i key val ns (update_tree operation i key val ns)"
proof (induction operation i key val ns rule: update_tree.induct)
  case (1 operation i key val ns)
  show ?case
  proof (cases "length ns \<le> i")
    case True
    then show ?thesis by (simp add: update_spec_def update_tree.simps walk.simps)
  next
    case False
    then have i: "i < length ns" by simp
    then obtain nd where nd: "ns ! i = Some nd" "deref ns i = Inr nd" using cached_present 1 by blast
    define c where "c = (if key < fkey nd then 2 * i else 2 * i + 1)"
    note children = cached_children[OF 1(4,3) i]
    note sorted = fixed_subtree_sorted[OF 1(3) i nd(1) 1(5)]
    show ?thesis
    proof (cases "key = fkey nd")
      case True
      have "update_tree operation i key val ns = fixed_update_result operation i (ns[i := Some (nd\<lparr>fvalue := val\<rparr>)])"
        unfolding update_tree.simps[of operation i key val ns] using True i "1.prems"(1) nd(2) by simp
      then show ?thesis using update_node_spec[OF 1(3) i nd(1) 1(4,5) True] by simp
    next
      case False
      have step: "update_tree operation i key val ns =
          bindE (update_tree operation c key val ns) (fixed_update_result operation i)"
        unfolding update_tree.simps[of operation i key val ns] c_def using False i "1.prems"(1) nd(2) by simp
      have "update_spec operation c key val ns (update_tree operation c key val ns)"
      proof (cases "key < fkey nd")
        case True
        then show ?thesis unfolding c_def
          using "1.IH"(1)[of nd] False i "1.prems"(1) children sorted(1) by simp
      next
        case less: False
        then show ?thesis unfolding c_def
          using "1.IH"(2)[of nd] False i "1.prems"(1) children sorted(2) by simp
      qed
      then show ?thesis using update_child_spec[OF 1(3) i nd(1) 1(4,5) c_def False] step by simp
    qed
  qed
qed

lemma count_tree_ok:
  "\<lbrakk> 0 < i; cached operation ns i; keys_sorted (walk ns i) \<rbrakk> \<Longrightarrow>
   count_tree i key ns = Inr (if key \<in> fst ` set (walk ns i) then 1 else 0)"
proof (induction i key ns rule: count_tree.induct)
  case (1 i key ns)
  show ?case
  proof (cases "length ns \<le> i")
    case True
    then show ?thesis by (simp add: count_tree.simps walk.simps)
  next
    case False
    then have i: "i < length ns" by simp
    then obtain nd where nd: "ns ! i = Some nd" "deref ns i = Inr nd" using cached_present 1 by blast
    note sorted = fixed_subtree_sorted[OF 1(3) i nd(1) 1(5)]
    note children = cached_children[OF 1(4,3) i]
    have IH: "count_tree (2 * i) key ns = Inr (if key \<in> fst ` set (walk ns (2 * i)) then 1 else 0)" if "key < fkey nd"
      by (rule "1.IH"(1)[of nd]) (use that i "1.prems"(1) children sorted(1) in auto)
    have IH': "count_tree (2 * i + 1) key ns = Inr (if key \<in> fst ` set (walk ns (2 * i + 1)) then 1 else 0)"
      if "\<not> key < fkey nd" "key \<noteq> fkey nd"
      by (rule "1.IH"(2)[of nd]) (use that i "1.prems"(1) children sorted(2) in auto)
    show ?thesis
      unfolding count_tree.simps[of i key ns] walk_Some[OF 1(3) i nd(1)]
      using i "1.prems"(1) nd(2) IH IH' sorted(3,4) by (auto dest: less_asym)
  qed
qed

lemma walk_beyond: "length ns \<le> i \<Longrightarrow> walk ns i = []"
  by (simp add: walk.simps)

context comm_aggregate
begin

lemma cached_result:
  "\<lbrakk> cached operation ns i; 0 < i; i < length ns \<rbrakk> \<Longrightarrow> fresult (the (ns ! i)) = agg operation neutral (walk ns i)"
proof (induction ns i rule: walk.induct)
  case (1 ns i)
  obtain nd where nd: "ns ! i = Some nd" using cached_present[OF 1(3,4,5)] by blast
  note children = cached_children[OF 1(3,4,5)]
  have left: "2 * i < length ns \<Longrightarrow> fresult (the (ns ! (2 * i))) = agg operation neutral (walk ns (2 * i))"
    using "1.IH"(1) "1.prems" children by simp
  have right: "2 * i + 1 < length ns \<Longrightarrow> fresult (the (ns ! (2 * i + 1))) = agg operation neutral (walk ns (2 * i + 1))"
    using "1.IH"(2) "1.prems" children by simp
  have "fresult nd = (let res1 = (if 2 * i < length ns then operation (fresult (the (ns ! (2 * i)))) (fvalue nd) else fvalue nd)
        in if 2 * i + 1 < length ns then operation res1 (fresult (the (ns ! (2 * i + 1)))) else res1)"
    using "1.prems" nd unfolding cached.simps[of operation ns i] Let_def by simp
  then show ?case
    unfolding walk_Some[OF 1(4,5) nd] using left right walk_beyond[of ns "2 * i"] walk_beyond[of ns "2 * i + 1"] nd
    by (cases "2 * i < length ns"; cases "2 * i + 1 < length ns")
      (auto simp: agg_append aggregate_simps Let_def not_less)
qed

lemma fixed_less_than_ok:
  "\<lbrakk> 0 < i; i < length ns; cached operation ns i; keys_sorted (walk ns i) \<rbrakk> \<Longrightarrow>
   fixed_less_than operation neutral i key strict ns =
     Inr (agg operation neutral (filter (\<lambda>e. if strict then fst e < key else fst e \<le> key) (walk ns i)))"
proof (induction ns i rule: walk.induct)
  case (1 ns i)
  let ?P = "\<lambda>e. if strict then fst e < key else fst e \<le> key"
  obtain nd where nd: "ns ! i = Some nd" "deref ns i = Inr nd" using cached_present[OF 1(5,3,4)] by blast
  note children = cached_children[OF 1(5,3,4)]
  note sorted = fixed_subtree_sorted[OF 1(3,4) nd(1) 1(6)]
  have IHl: "fixed_less_than operation neutral (2 * i) key strict ns = Inr (agg operation neutral (filter ?P (walk ns (2 * i))))"
    if "2 * i < length ns" using "1.IH"(1) that "1.prems" children sorted(1) by simp
  have IHr: "fixed_less_than operation neutral (2 * i + 1) key strict ns = Inr (agg operation neutral (filter ?P (walk ns (2 * i + 1))))"
    if "2 * i + 1 < length ns" using "1.IH"(2) that "1.prems" children sorted(2) by simp
  have left: "\<exists>l. deref ns (2 * i) = Inr l \<and> fresult l = agg operation neutral (walk ns (2 * i))" if "2 * i < length ns"
    using cached_result[of ns "2 * i"] cached_present[of operation ns "2 * i"] children "1.prems"(1) that by force
  show ?case
  proof (cases "if strict then fkey nd < key else fkey nd \<le> key")
    case True
    then have "filter ?P (walk ns (2 * i)) = walk ns (2 * i)" using sorted(3) by (auto simp: filter_id_conv split: if_splits)
    moreover have "(strict \<and> fkey nd < key) \<or> (\<not> strict \<and> fkey nd \<le> key)" using True by (auto split: if_splits)
    ultimately show ?thesis
      unfolding fixed_less_than.simps[of operation neutral i key strict ns] walk_Some[OF 1(3,4) nd(1)]
      using nd(2) "1.prems"(1) True left IHr walk_beyond[of ns "2 * i"] walk_beyond[of ns "2 * i + 1"]
      by (cases "2 * i < length ns"; cases "2 * i + 1 < length ns")
        (auto simp: agg_append aggregate_simps not_less)
  next
    case False
    then have "filter ?P (walk ns (2 * i + 1)) = []" using sorted(4) by (auto simp: filter_empty_conv split: if_splits)
    moreover have "\<not> ((strict \<and> fkey nd < key) \<or> (\<not> strict \<and> fkey nd \<le> key))" using False by (auto split: if_splits)
    ultimately show ?thesis
      unfolding fixed_less_than.simps[of operation neutral i key strict ns] walk_Some[OF 1(3,4) nd(1)]
      using nd(2) "1.prems"(1) False IHl walk_beyond[of ns "2 * i"]
      by (cases "2 * i < length ns") (auto simp: agg_append neutral_right not_less)
  qed
qed

lemma fixed_queries_ok:
  assumes "fixed_inv operation nodes"
  shows "fixed_query neutral nodes = Inr (agg operation neutral (fixed_entries nodes))"
    "fixed_query_lt operation neutral key nodes = Inr (agg operation neutral (filter (\<lambda>e. fst e < key) (fixed_entries nodes)))"
    "fixed_query_le operation neutral key nodes = Inr (agg operation neutral (filter (\<lambda>e. fst e \<le> key) (fixed_entries nodes)))"
proof -
  have inv: "cached operation nodes 1" "keys_sorted (walk nodes 1)" "length nodes \<noteq> 1"
    using assms by (auto simp: fixed_inv_def fixed_entries_def)
  have len: "nodes \<noteq> [] \<Longrightarrow> 1 < length nodes" using inv(3) by (cases nodes) auto
  show "fixed_query neutral nodes = Inr (agg operation neutral (fixed_entries nodes))"
    using len cached_result[OF inv(1)] cached_present[OF inv(1)] by (force simp: fixed_query_def fixed_entries_def walk_beyond)
  show "fixed_query_lt operation neutral key nodes = Inr (agg operation neutral (filter (\<lambda>e. fst e < key) (fixed_entries nodes)))"
    using len fixed_less_than_ok[OF _ _ inv(1,2), of key True] by (auto simp: fixed_query_lt_def fixed_entries_def walk_beyond)
  show "fixed_query_le operation neutral key nodes = Inr (agg operation neutral (filter (\<lambda>e. fst e \<le> key) (fixed_entries nodes)))"
    using len fixed_less_than_ok[OF _ _ inv(1,2), of key False] by (auto simp: fixed_query_le_def fixed_entries_def walk_beyond)
qed

end

lemma fixed_update_ok:
  assumes "fixed_inv operation nodes"
  shows "key \<in> fst ` set (fixed_entries nodes) \<Longrightarrow>
      \<exists>nodes'. fixed_update operation key val nodes = Inr nodes' \<and> fixed_inv operation nodes'
        \<and> fixed_entries nodes' = al_put key val (fixed_entries nodes)"
    "key \<notin> fst ` set (fixed_entries nodes) \<Longrightarrow> fixed_update operation key val nodes = Inl Runtime_error"
proof -
  have "update_spec operation 1 key val nodes (update_tree operation 1 key val nodes)"
    using assms by (intro update_tree_ok) (auto simp: fixed_inv_def fixed_entries_def)
  then show "key \<in> fst ` set (fixed_entries nodes) \<Longrightarrow>
      \<exists>nodes'. fixed_update operation key val nodes = Inr nodes' \<and> fixed_inv operation nodes'
        \<and> fixed_entries nodes' = al_put key val (fixed_entries nodes)"
    "key \<notin> fst ` set (fixed_entries nodes) \<Longrightarrow> fixed_update operation key val nodes = Inl Runtime_error"
    using assms al_put_sorted[of "walk nodes 1" key val]
    by (auto simp: update_spec_def fixed_update_def fixed_inv_def fixed_entries_def)
qed

lemma fixed_count_ok:
  "fixed_inv operation nodes \<Longrightarrow> fixed_count key nodes = Inr (if key \<in> fst ` set (fixed_entries nodes) then 1 else 0)"
  using count_tree_ok[of 1 operation nodes key] by (simp add: fixed_count_def fixed_inv_def fixed_entries_def)

section \<open>Properties\<close>

text \<open>C6: \<open>left_child_size\<close> computes, from the number of nodes of a subtree alone, how many of
  them lie in its left subtree when the indices \<open>1..N\<close> form one array: the size it is called with
  at index \<open>i\<close> is the number of indices below \<open>i\<close>, and its result is the number below \<open>2 i\<close>.\<close>

theorem left_child_size_layout:
  assumes "0 < i" "i \<le> N"
  shows "left_child_size (card {j. in_subtree i j \<and> j \<le> N}) = card {j. in_subtree (2 * i) j \<and> j \<le> N}"
  using left_child_size_cnt[OF assms] cnt_card[of i N] cnt_card[of "2 * i" N] assms(1) by simp

theorem left_child_size_layout_witness:
  "left_child_size (card {j. in_subtree 1 j \<and> j \<le> 6}) = card {j. in_subtree 2 j \<and> j \<le> 6} \<and> left_child_size 6 = 3"
proof
  show "left_child_size (card {j. in_subtree 1 j \<and> j \<le> 6}) = card {j. in_subtree 2 j \<and> j \<le> 6}"
    using left_child_size_layout[of 1 6] by simp
  show "left_child_size 6 = 3" by code_simp
qed

text \<open>C7: \<open>init\<close> places distinct keys as a search tree in the array without touching a null slot;
  afterwards \<open>update\<close> of a known key replaces its value, \<open>update\<close> of an unknown key throws,
  \<open>count\<close> tells the two apart, and the invariant is kept.\<close>

theorem fixed_map_correct:
  assumes "distinct (map fst items)"
  shows "\<exists>nodes. fixed_init operation items = Inr nodes \<and> fixed_inv operation nodes \<and> fixed_entries nodes = sort items
    \<and> fixed_count key nodes = Inr (if key \<in> fst ` set items then 1 else 0)
    \<and> (if key \<in> fst ` set items
       then \<exists>nodes'. fixed_update operation key val nodes = Inr nodes' \<and> fixed_inv operation nodes'
          \<and> fixed_entries nodes' = al_put key val (sort items)
       else fixed_update operation key val nodes = Inl Runtime_error)"
proof -
  obtain nodes where nodes: "fixed_init operation items = Inr nodes" "fixed_inv operation nodes" "fixed_entries nodes = sort items"
    using fixed_init_ok[OF assms] by blast
  then show ?thesis using fixed_update_ok[OF nodes(2), of key val] fixed_count_ok[OF nodes(2), of key] by auto
qed

theorem fixed_map_correct_witness:
  "\<exists>nodes. fixed_init (+) [(3 :: nat, 1 :: real), (1, 5)] = Inr nodes \<and> fixed_count 3 nodes = Inr 1"
  using fixed_map_correct[of "[(3 :: nat, 1 :: real), (1, 5)]" "(+)" 3] by auto

end
