(* ===== verification/Hybrid_Map.thy ===== *)
theory Hybrid_Map
  imports Avl_Map Fixed_Map
begin

text \<open>
  \<open>AssociativeHybridMap\<close> (\<open>algopt_common/AssociativeHybridMap.h\<close>): a fixed map
  for the initial keys and an AVL map for the keys that appear later. A removed
  initial key stays in the fixed map with the neutral value. Every history of
  updates and removals is simulated by a sorted association list.
\<close>

section \<open>Definitions\<close>

record ('k, 'v) HybridMap =
  fixedMap :: "('k, 'v) nodes"
  overflowMap :: "('k, 'v) AvlNode"

definition hybrid_init :: "('v \<Rightarrow> 'v \<Rightarrow> 'v) \<Rightarrow> ('k::linorder \<times> 'v::linorder) list \<Rightarrow> ('k, 'v) HybridMap \<Rightarrow> ('k, 'v) HybridMap result" where
  "hybrid_init operation items h =
    bindE (fixed_init operation items) (\<lambda>f. Inr (h\<lparr>fixedMap := f, overflowMap := avl_clear (overflowMap h)\<rparr>))"

definition hybrid_update :: "('v \<Rightarrow> 'v \<Rightarrow> 'v) \<Rightarrow> 'k::linorder \<Rightarrow> 'v \<Rightarrow> ('k, 'v) HybridMap \<Rightarrow> ('k, 'v) HybridMap result" where
  "hybrid_update operation key val h =
    bindE (fixed_count key (fixedMap h)) (\<lambda>c.
      if c \<noteq> 0 then bindE (fixed_update operation key val (fixedMap h)) (\<lambda>f. Inr (h\<lparr>fixedMap := f\<rparr>))
      else Inr (h\<lparr>overflowMap := avl_update operation key val (overflowMap h)\<rparr>))"

definition hybrid_remove :: "('v \<Rightarrow> 'v \<Rightarrow> 'v) \<Rightarrow> 'v \<Rightarrow> 'k::linorder \<Rightarrow> ('k, 'v) HybridMap \<Rightarrow> ('k, 'v) HybridMap result" where
  "hybrid_remove operation neutral key h =
    bindE (fixed_count key (fixedMap h)) (\<lambda>c.
      if c \<noteq> 0 then bindE (fixed_update operation key neutral (fixedMap h)) (\<lambda>f. Inr (h\<lparr>fixedMap := f\<rparr>))
      else Inr (h\<lparr>overflowMap := avl_remove operation (overflowMap h) key\<rparr>))"

definition hybrid_query :: "('v \<Rightarrow> 'v \<Rightarrow> 'v) \<Rightarrow> 'v \<Rightarrow> ('k, 'v) HybridMap \<Rightarrow> 'v result" where
  "hybrid_query operation neutral h =
    bindE (fixed_query neutral (fixedMap h)) (\<lambda>a. Inr (operation a (avl_query neutral (overflowMap h))))"

definition hybrid_query_lt :: "('v \<Rightarrow> 'v \<Rightarrow> 'v) \<Rightarrow> 'v \<Rightarrow> 'k::linorder \<Rightarrow> ('k, 'v) HybridMap \<Rightarrow> 'v result" where
  "hybrid_query_lt operation neutral key h =
    bindE (fixed_query_lt operation neutral key (fixedMap h)) (\<lambda>a.
      Inr (operation a (avl_query_lt operation neutral (overflowMap h) key)))"

definition hybrid_query_le :: "('v \<Rightarrow> 'v \<Rightarrow> 'v) \<Rightarrow> 'v \<Rightarrow> 'k::linorder \<Rightarrow> ('k, 'v) HybridMap \<Rightarrow> 'v result" where
  "hybrid_query_le operation neutral key h =
    bindE (fixed_query_le operation neutral key (fixedMap h)) (\<lambda>a.
      Inr (operation a (avl_query_le operation neutral (overflowMap h) key)))"

datatype ('k, 'v) map_op = Put 'k 'v | Del 'k

fun hybrid_op :: "('v \<Rightarrow> 'v \<Rightarrow> 'v) \<Rightarrow> 'v \<Rightarrow> ('k::linorder, 'v) map_op \<Rightarrow> ('k, 'v) HybridMap \<Rightarrow> ('k, 'v) HybridMap result" where
  "hybrid_op operation neutral (Put key val) h = hybrid_update operation key val h"
| "hybrid_op operation neutral (Del key) h = hybrid_remove operation neutral key h"

fun alist_op :: "('k::linorder, 'v) map_op \<Rightarrow> ('k \<times> 'v) list \<Rightarrow> ('k \<times> 'v) list" where
  "alist_op (Put key val) A = al_put key val A"
| "alist_op (Del key) A = al_remove key A"

section \<open>Simulation by an association list\<close>

definition hybrid_inv :: "('v \<Rightarrow> 'v \<Rightarrow> 'v) \<Rightarrow> ('k::linorder, 'v) HybridMap \<Rightarrow> bool" where
  "hybrid_inv operation h \<longleftrightarrow> fixed_inv operation (fixedMap h) \<and> avl_inv operation (overflowMap h)
     \<and> (\<forall>k. map_of (fixed_entries (fixedMap h)) k = None \<or> map_of (entries (overflowMap h)) k = None)"

text \<open>\<open>R\<close> is the set of initial keys that were removed.\<close>

definition hybrid_rel :: "('v \<Rightarrow> 'v \<Rightarrow> 'v) \<Rightarrow> 'v \<Rightarrow> ('k::linorder, 'v) HybridMap \<Rightarrow> ('k \<times> 'v) list \<Rightarrow> bool" where
  "hybrid_rel operation neutral h A \<longleftrightarrow> hybrid_inv operation h \<and> keys_sorted A
     \<and> (\<exists>R. (\<forall>k \<in> R. map_of (fixed_entries (fixedMap h)) k = Some neutral)
          \<and> map_of A = (\<lambda>k. if k \<in> R then None
               else (map_of (entries (overflowMap h)) ++ map_of (fixed_entries (fixedMap h))) k))"

lemma map_of_Some_key: "map_of xs k = None \<longleftrightarrow> k \<notin> fst ` set xs"
  by (simp add: map_of_eq_None_iff)

lemma hybrid_update_ok:
  assumes "hybrid_rel operation neutral h A"
  shows "\<exists>h'. hybrid_update operation key val h = Inr h' \<and> hybrid_rel operation neutral h' (al_put key val A)"
proof -
  let ?F = "fixed_entries (fixedMap h)" and ?O = "entries (overflowMap h)"
  have inv: "fixed_inv operation (fixedMap h)" "avl_inv operation (overflowMap h)" "keys_sorted A"
      "\<And>k. map_of ?F k = None \<or> map_of ?O k = None" "keys_sorted ?F" "keys_sorted ?O"
    using assms by (auto simp: hybrid_rel_def hybrid_inv_def fixed_inv_def avl_inv_def)
  obtain R where R: "\<forall>k \<in> R. map_of ?F k = Some neutral" "map_of A = (\<lambda>k. if k \<in> R then None else (map_of ?O ++ map_of ?F) k)"
    using assms by (auto simp: hybrid_rel_def)
  note count = fixed_count_ok[OF inv(1), of key]
  show ?thesis
  proof (cases "key \<in> fst ` set ?F")
    case True
    then obtain f where f: "fixed_update operation key val (fixedMap h) = Inr f" "fixed_inv operation f"
        "fixed_entries f = al_put key val ?F" using fixed_update_ok(1)[OF inv(1)] by blast
    have "map_of ?O key = None" using True inv(4) map_of_Some_key by metis
    have "hybrid_rel operation neutral (h\<lparr>fixedMap := f\<rparr>) (al_put key val A)"
      unfolding hybrid_rel_def hybrid_inv_def
      using f inv \<open>map_of ?O key = None\<close> R
      by (auto simp: map_of_al_put al_put_sorted fun_eq_iff map_add_def intro!: exI[of _ "R - {key}"] split: option.splits)
    then show ?thesis using True f(1) count by (simp add: hybrid_update_def)
  next
    case False
    then have "map_of ?F key = None" by (simp add: map_of_Some_key)
    then have "key \<notin> R" using R(1) by auto
    have "hybrid_rel operation neutral (h\<lparr>overflowMap := avl_update operation key val (overflowMap h)\<rparr>) (al_put key val A)"
      unfolding hybrid_rel_def hybrid_inv_def
      using avl_update_inv[OF inv(2), of key val] inv \<open>map_of ?F key = None\<close> R \<open>key \<notin> R\<close>
      by (auto simp: map_of_al_put al_put_sorted fun_eq_iff map_add_def intro!: exI[of _ R] split: option.splits)
    then show ?thesis using False count by (simp add: hybrid_update_def)
  qed
qed

lemma hybrid_remove_ok:
  assumes "hybrid_rel operation neutral h A"
  shows "\<exists>h'. hybrid_remove operation neutral key h = Inr h' \<and> hybrid_rel operation neutral h' (al_remove key A)"
proof -
  let ?F = "fixed_entries (fixedMap h)" and ?O = "entries (overflowMap h)"
  have inv: "fixed_inv operation (fixedMap h)" "avl_inv operation (overflowMap h)" "keys_sorted A"
      "\<And>k. map_of ?F k = None \<or> map_of ?O k = None" "keys_sorted ?F" "keys_sorted ?O"
    using assms by (auto simp: hybrid_rel_def hybrid_inv_def fixed_inv_def avl_inv_def)
  obtain R where R: "\<forall>k \<in> R. map_of ?F k = Some neutral" "map_of A = (\<lambda>k. if k \<in> R then None else (map_of ?O ++ map_of ?F) k)"
    using assms by (auto simp: hybrid_rel_def)
  note count = fixed_count_ok[OF inv(1), of key]
  show ?thesis
  proof (cases "key \<in> fst ` set ?F")
    case True
    then obtain f where f: "fixed_update operation key neutral (fixedMap h) = Inr f" "fixed_inv operation f"
        "fixed_entries f = al_put key neutral ?F" using fixed_update_ok(1)[OF inv(1)] by blast
    have "map_of ?O key = None" using True inv(4) map_of_Some_key by metis
    have "hybrid_rel operation neutral (h\<lparr>fixedMap := f\<rparr>) (al_remove key A)"
      unfolding hybrid_rel_def hybrid_inv_def
      using f inv \<open>map_of ?O key = None\<close> R
      by (auto simp: map_of_al_put map_of_al_remove al_remove_sorted fun_eq_iff map_add_def
          intro!: exI[of _ "insert key R"] split: option.splits)
    then show ?thesis using True f(1) count by (simp add: hybrid_remove_def)
  next
    case False
    then have "map_of ?F key = None" by (simp add: map_of_Some_key)
    then have "key \<notin> R" using R(1) by auto
    have "hybrid_rel operation neutral (h\<lparr>overflowMap := avl_remove operation (overflowMap h) key\<rparr>) (al_remove key A)"
      unfolding hybrid_rel_def hybrid_inv_def
      using avl_remove_inv[OF inv(2), of key] inv \<open>map_of ?F key = None\<close> R \<open>key \<notin> R\<close>
      by (auto simp: map_of_al_remove al_remove_sorted fun_eq_iff map_add_def intro!: exI[of _ R] split: option.splits)
    then show ?thesis using False count by (simp add: hybrid_remove_def)
  qed
qed

lemma hybrid_ops_ok:
  "hybrid_rel operation neutral h A \<Longrightarrow>
   \<exists>h'. foldE (hybrid_op operation neutral) ops h = Inr h' \<and> hybrid_rel operation neutral h' (fold alist_op ops A)"
proof (induction ops arbitrary: h A)
  case (Cons p ops)
  have "\<exists>h1. hybrid_op operation neutral p h = Inr h1 \<and> hybrid_rel operation neutral h1 (alist_op p A)"
    using hybrid_update_ok[OF Cons.prems] hybrid_remove_ok[OF Cons.prems] by (cases p) simp_all
  then obtain h1 where "hybrid_op operation neutral p h = Inr h1" "hybrid_rel operation neutral h1 (alist_op p A)" by blast
  then show ?case using Cons.IH[of h1 "alist_op p A"] by simp
qed simp

lemma hybrid_init_ok:
  assumes "distinct (map fst items)"
  shows "\<exists>h'. hybrid_init operation items h = Inr h' \<and> hybrid_rel operation neutral h' (sort items)"
proof -
  obtain f where f: "fixed_init operation items = Inr f" "fixed_inv operation f" "fixed_entries f = sort items"
    using fixed_init_ok[OF assms] by blast
  let ?h = "h\<lparr>fixedMap := f, overflowMap := Leaf\<rparr>"
  have "hybrid_inv operation ?h" using f(2) by (simp add: hybrid_inv_def avl_inv_Leaf)
  moreover have "map_of (sort items) = (\<lambda>k. if k \<in> {} then None
      else (map_of (entries (overflowMap ?h)) ++ map_of (fixed_entries (fixedMap ?h))) k)" using f(3) by (simp add: fun_eq_iff)
  ultimately have "hybrid_rel operation neutral ?h (sort items)"
    using sort_keys_sorted[OF assms] unfolding hybrid_rel_def by (intro conjI exI[of _ "{}"]) auto
  then show ?thesis using f(1) by (simp add: hybrid_init_def avl_clear_def)
qed

lemma map_of_filter_keys: "map_of (filter (\<lambda>e. fst e \<notin> R) xs) k = (if k \<in> R then None else map_of xs k)"
  by (induction xs) auto

context comm_aggregate
begin

lemma agg_filter_neutral:
  "\<forall>e \<in> set xs. fst e \<in> R \<longrightarrow> snd e = neutral \<Longrightarrow>
   agg operation neutral (filter P (filter (\<lambda>e. fst e \<notin> R) xs)) = agg operation neutral (filter P xs)"
  by (induction xs) (auto simp: neutral_left)

lemma hybrid_rel_agg:
  assumes "hybrid_rel operation neutral h A"
  shows "agg operation neutral (filter P A) =
    operation (agg operation neutral (filter P (fixed_entries (fixedMap h)))) (agg operation neutral (filter P (entries (overflowMap h))))"
proof -
  let ?F = "fixed_entries (fixedMap h)" and ?O = "entries (overflowMap h)"
  have inv: "keys_sorted A" "\<And>k. map_of ?F k = None \<or> map_of ?O k = None" "keys_sorted ?F" "keys_sorted ?O"
    using assms by (auto simp: hybrid_rel_def hybrid_inv_def fixed_inv_def avl_inv_def)
  obtain R where R: "\<forall>k \<in> R. map_of ?F k = Some neutral" "map_of A = (\<lambda>k. if k \<in> R then None else (map_of ?O ++ map_of ?F) k)"
    using assms by (auto simp: hybrid_rel_def)
  let ?G = "filter (\<lambda>e. fst e \<notin> R) ?F"
  note G = map_of_filter_keys[of R ?F]
  have "k \<in> R \<Longrightarrow> map_of ?O k = None" for k using R(1) inv(2)[of k] by auto
  then have eq: "map_of A = map_of (?G @ ?O)"
    using R(2) inv(2) by (auto simp: fun_eq_iff map_add_def G split: option.splits)
  have "distinct (map fst ?G)" "distinct (map fst ?O)" "distinct (map fst A)"
    using keys_sorted_distinct[OF inv(3)] keys_sorted_distinct[OF inv(4)] keys_sorted_distinct[OF inv(1)]
    by (simp_all add: distinct_map_filter)
  moreover have "fst ` set ?G \<inter> fst ` set ?O = {}"
  proof -
    have "k \<notin> fst ` set ?G" if "k \<in> fst ` set ?O" for k
      using that inv(2)[of k] by (auto simp: map_of_eq_None_iff)
    then show ?thesis by blast
  qed
  ultimately have "distinct (map fst (?G @ ?O))" "distinct (map fst A)" by simp_all
  then have "mset A = mset (?G @ ?O)"
    using eq map_of_inject_set[of A "?G @ ?O"] by (metis distinct_map set_eq_iff_mset_eq_distinct)
  then have "mset (filter P A) = mset (filter P ?G @ filter P ?O)"
    by (metis filter_append mset_filter)
  then have "agg operation neutral (filter P A) =
      operation (agg operation neutral (filter P ?G)) (agg operation neutral (filter P ?O))"
    using agg_perm agg_append by metis
  moreover have "\<forall>e \<in> set ?F. fst e \<in> R \<longrightarrow> snd e = neutral"
    using R(1) map_of_is_SomeI[OF keys_sorted_distinct[OF inv(3)]] by fastforce
  ultimately show ?thesis using agg_filter_neutral[of ?F R P] by simp
qed

lemma hybrid_queries_ok:
  assumes "hybrid_rel operation neutral h A"
  shows "hybrid_query operation neutral h = Inr (agg operation neutral A)"
    "hybrid_query_lt operation neutral key h = Inr (agg operation neutral (filter (\<lambda>e. fst e < key) A))"
    "hybrid_query_le operation neutral key h = Inr (agg operation neutral (filter (\<lambda>e. fst e \<le> key) A))"
proof -
  have inv: "fixed_inv operation (fixedMap h)" "results_ok operation (overflowMap h)" "keys_sorted (entries (overflowMap h))"
    using assms by (auto simp: hybrid_rel_def hybrid_inv_def avl_inv_def)
  note rel = hybrid_rel_agg[OF assms]
  show "hybrid_query operation neutral h = Inr (agg operation neutral A)"
    using rel[of "\<lambda>_. True"] fixed_queries_ok(1)[OF inv(1)] avl_query_agg[OF inv(2)] by (simp add: hybrid_query_def)
  show "hybrid_query_lt operation neutral key h = Inr (agg operation neutral (filter (\<lambda>e. fst e < key) A))"
    using rel[of "\<lambda>e. fst e < key"] fixed_queries_ok(2)[OF inv(1)] avl_less_than_agg[OF inv(2,3), of key True]
    by (auto simp: hybrid_query_lt_def avl_query_lt_def)
  show "hybrid_query_le operation neutral key h = Inr (agg operation neutral (filter (\<lambda>e. fst e \<le> key) A))"
    using rel[of "\<lambda>e. fst e \<le> key"] fixed_queries_ok(3)[OF inv(1)] avl_less_than_agg[OF inv(2,3), of key False]
    by (auto simp: hybrid_query_le_def avl_query_le_def)
qed

end

section \<open>Properties\<close>

text \<open>C2: after \<open>init\<close> and any history of updates and removals, old and new keys mixed, the hybrid
  map answers all three aggregate queries as the sorted association list that runs the same
  history, and no operation fails.\<close>

theorem hybrid_map_refines_alist:
  assumes "comm_aggregate operation neutral" "distinct (map fst items)"
  shows "\<exists>h1 h2. hybrid_init operation items h = Inr h1
    \<and> foldE (hybrid_op operation neutral) ops h1 = Inr h2
    \<and> hybrid_query operation neutral h2 = Inr (agg operation neutral (fold alist_op ops (sort items)))
    \<and> hybrid_query_lt operation neutral key h2
        = Inr (agg operation neutral (filter (\<lambda>e. fst e < key) (fold alist_op ops (sort items))))
    \<and> hybrid_query_le operation neutral key h2
        = Inr (agg operation neutral (filter (\<lambda>e. fst e \<le> key) (fold alist_op ops (sort items))))"
proof -
  obtain h1 where h1: "hybrid_init operation items h = Inr h1" "hybrid_rel operation neutral h1 (sort items)"
    using hybrid_init_ok[OF assms(2)] by blast
  obtain h2 where h2: "foldE (hybrid_op operation neutral) ops h1 = Inr h2"
      "hybrid_rel operation neutral h2 (fold alist_op ops (sort items))"
    using hybrid_ops_ok[OF h1(2)] by blast
  show ?thesis using h1(1) h2(1) comm_aggregate.hybrid_queries_ok[OF assms(1) h2(2)] by blast
qed

theorem hybrid_map_refines_alist_witness:
  "\<exists>h1 h2. hybrid_init (+) [(3 :: nat, 1 :: real), (1, 5)] \<lparr>fixedMap = [], overflowMap = Leaf\<rparr> = Inr h1
     \<and> foldE (hybrid_op (+) 0) [Put 2 4, Del 3] h1 = Inr h2 \<and> hybrid_query (+) 0 h2 = Inr 9"
proof -
  have "fold alist_op [Put 2 4, Del 3] (sort [(3 :: nat, 1 :: real), (1, 5)]) = [(1, 5), (2, 4)]"
    by (simp add: insort_key_def al_remove_def less_eq_prod_def)
  moreover have "agg (+) 0 [(1 :: nat, 5 :: real), (2, 4)] = 9" by simp
  ultimately show ?thesis
    using hybrid_map_refines_alist[OF real_sum.comm_aggregate_axioms,
        of "[(3 :: nat, 1), (1, 5)]" "\<lparr>fixedMap = [], overflowMap = Leaf\<rparr>" "[Put 2 4, Del 3]"]
    by fastforce
qed

end
