(* ===== verification/Segment_Vector.thy ===== *)
theory Segment_Vector
  imports Aggregate_Alist Heap_Index
begin

text \<open>
  \<open>AssociativeVector\<close> (\<open>algopt_common/AssociativeVector.h\<close>): a segment tree in
  one array. All indices are \<open>int\<close> of 32 bits: an operation on them that overflows
  is \<open>Undefined_behaviour\<close>, and so is an access outside of an array, since the
  subscripts of the code are unchecked. The parameter \<open>fresh\<close> is the
  value-initialised element with which \<open>resize\<close> fills new slots.
\<close>

section \<open>Definitions\<close>

record 'v AssociativeVector =
  av_size :: int
  tree :: "'v list"

text \<open>The conversion of a \<open>size_t\<close> to an \<open>int\<close> keeps the low 32 bits.\<close>

definition int_of_size :: "nat \<Rightarrow> int" where
  "int_of_size n = signed_take_bit 31 (int n)"

text \<open>The division by two truncates.\<close>

definition halve :: "int \<Rightarrow> int" where
  "halve x = (if x < 0 then - ((- x) div 2) else x div 2)"

text \<open>A loop that doubles zero would not end; it starts at two.\<close>

function tree_size_loop :: "int \<Rightarrow> int \<Rightarrow> int result" where
  "tree_size_loop n p =
    (if p \<le> 0 \<or> \<not> in_int (2 * n) then Inl Undefined_behaviour
     else if p < 2 * n then (if in_int (p * 2) then tree_size_loop n (p * 2) else Inl Undefined_behaviour)
     else Inr p)"
  by pat_completeness auto
termination by (relation "measure (\<lambda>(n, p). nat (2 ^ 31 - p))") (auto simp: in_int_def)

declare tree_size_loop.simps [simp del]

definition tree_size :: "int \<Rightarrow> int result" where
  "tree_size n = (if n = 0 then Inr 0 else tree_size_loop n 2)"

definition put :: "int \<Rightarrow> 'v \<Rightarrow> 'v list \<Rightarrow> 'v list result" where
  "put i v xs = (if 0 \<le> i \<and> i < int (length xs) then Inr (xs[nat i := v]) else Inl Undefined_behaviour)"

definition get :: "int \<Rightarrow> 'v list \<Rightarrow> 'v result" where
  "get i xs = (if 0 \<le> i \<and> i < int (length xs) then Inr (xs ! nat i) else Inl Undefined_behaviour)"

definition pull_up :: "('v \<Rightarrow> 'v \<Rightarrow> 'v) \<Rightarrow> int \<Rightarrow> 'v list \<Rightarrow> 'v list result" where
  "pull_up operation node t =
    bindE (get (2 * node) t) (\<lambda>a. bindE (get (2 * node + 1) t) (\<lambda>b. put node (operation a b) t))"

text \<open>
  The recursion starts at node one. An empty segment is split forever, until
  the index of the node overflows.
\<close>

function seg_init :: "('v \<Rightarrow> 'v \<Rightarrow> 'v) \<Rightarrow> int \<Rightarrow> int \<Rightarrow> int \<Rightarrow> 'v list \<Rightarrow> 'v list \<Rightarrow> 'v list result" where
  "seg_init operation node node_lb node_ub vals t =
    (if node \<le> 0 \<or> \<not> in_int (node_ub - node_lb) then Inl Undefined_behaviour
     else if node_ub - node_lb = 1 then bindE (get node_lb vals) (\<lambda>v. put node v t)
     else if \<not> in_int (node_lb + node_ub) \<or> \<not> in_int (2 * node + 1) then Inl Undefined_behaviour
     else
       let middle = halve (node_lb + node_ub) in
       bindE (seg_init operation (2 * node) node_lb middle vals t) (\<lambda>t1.
       bindE (seg_init operation (2 * node + 1) middle node_ub vals t1) (\<lambda>t2.
       pull_up operation node t2)))"
  by pat_completeness auto
termination by (relation "measure (\<lambda>(_, node, _, _, _, _). nat (2 ^ 31 - node))") (auto simp: in_int_def)

declare seg_init.simps [simp del]

function seg_update :: "('v \<Rightarrow> 'v \<Rightarrow> 'v) \<Rightarrow> int \<Rightarrow> int \<Rightarrow> int \<Rightarrow> int \<Rightarrow> 'v \<Rightarrow> 'v list \<Rightarrow> 'v list result" where
  "seg_update operation node node_lb node_ub index v t =
    (if node \<le> 0 \<or> \<not> in_int (node_ub - node_lb) then Inl Undefined_behaviour
     else if node_ub - node_lb = 1 then put node v t
     else if \<not> in_int (node_lb + node_ub) \<or> \<not> in_int (2 * node + 1) then Inl Undefined_behaviour
     else
       let middle = halve (node_lb + node_ub) in
       bindE (if index < middle then seg_update operation (2 * node) node_lb middle index v t
              else seg_update operation (2 * node + 1) middle node_ub index v t) (\<lambda>t1.
       pull_up operation node t1))"
  by pat_completeness auto
termination by (relation "measure (\<lambda>(_, node, _, _, _, _, _). nat (2 ^ 31 - node))") (auto simp: in_int_def)

declare seg_update.simps [simp del]

function seg_query :: "('v \<Rightarrow> 'v \<Rightarrow> 'v) \<Rightarrow> 'v \<Rightarrow> int \<Rightarrow> int \<Rightarrow> int \<Rightarrow> int \<Rightarrow> int \<Rightarrow> 'v list \<Rightarrow> 'v result" where
  "seg_query operation neutral node node_lb node_ub query_lb query_ub t =
    (if node_ub \<le> query_lb \<or> query_ub \<le> node_lb then Inr neutral
     else if query_lb \<le> node_lb \<and> node_ub \<le> query_ub then get node t
     else if node \<le> 0 \<or> \<not> in_int (node_lb + node_ub) \<or> \<not> in_int (2 * node + 1) then Inl Undefined_behaviour
     else
       let middle = halve (node_lb + node_ub) in
       bindE (seg_query operation neutral (2 * node) node_lb middle query_lb query_ub t) (\<lambda>a.
       bindE (seg_query operation neutral (2 * node + 1) middle node_ub query_lb query_ub t) (\<lambda>b.
       Inr (operation a b))))"
  by pat_completeness auto
termination by (relation "measure (\<lambda>(_, _, node, _, _, _, _, _). nat (2 ^ 31 - node))") (auto simp: in_int_def)

declare seg_query.simps [simp del]

definition resize :: "nat \<Rightarrow> 'v \<Rightarrow> 'v list \<Rightarrow> 'v list" where
  "resize n fresh xs = take n xs @ replicate (n - length xs) fresh"

definition av_init :: "('v \<Rightarrow> 'v \<Rightarrow> 'v) \<Rightarrow> 'v \<Rightarrow> 'v list \<Rightarrow> 'v AssociativeVector \<Rightarrow> 'v AssociativeVector result" where
  "av_init operation fresh vals a =
    (let n = int_of_size (length vals) in
     bindE (tree_size n) (\<lambda>sz.
       let t = resize (nat sz) fresh (tree a) in
       if n \<noteq> 0 then bindE (seg_init operation 1 0 n vals t) (\<lambda>t'. Inr \<lparr>av_size = n, tree = t'\<rparr>)
       else Inr \<lparr>av_size = n, tree = t\<rparr>))"

definition av_update :: "('v \<Rightarrow> 'v \<Rightarrow> 'v) \<Rightarrow> int \<Rightarrow> 'v \<Rightarrow> 'v AssociativeVector \<Rightarrow> 'v AssociativeVector result" where
  "av_update operation index v a =
    bindE (seg_update operation 1 0 (av_size a) index v (tree a)) (\<lambda>t. Inr (a\<lparr>tree := t\<rparr>))"

definition av_query_range :: "('v \<Rightarrow> 'v \<Rightarrow> 'v) \<Rightarrow> 'v \<Rightarrow> int \<Rightarrow> int \<Rightarrow> 'v AssociativeVector \<Rightarrow> 'v result" where
  "av_query_range operation neutral lb ub a = seg_query operation neutral 1 0 (av_size a) lb ub (tree a)"

definition av_query :: "('v \<Rightarrow> 'v \<Rightarrow> 'v) \<Rightarrow> 'v \<Rightarrow> 'v AssociativeVector \<Rightarrow> 'v result" where
  "av_query operation neutral a = av_query_range operation neutral 0 (av_size a) a"

section \<open>Indices that do not overflow\<close>

lemma halve_nat: "halve (int a + int b) = int ((a + b) div 2)"
  by (simp add: halve_def zdiv_int)

lemma get_nat [simp]: "get (int i) xs = (if i < length xs then Inr (xs ! i) else Inl Undefined_behaviour)"
  by (simp add: get_def)

lemma put_nat [simp]: "put (int i) v xs = (if i < length xs then Inr (xs[i := v]) else Inl Undefined_behaviour)"
  by (simp add: put_def)

lemma pull_up_nat: "pull_up operation (int node) t =
    bindE (get (int (2 * node)) t) (\<lambda>a. bindE (get (int (2 * node + 1)) t) (\<lambda>b. put (int node) (operation a b) t))"
  by (simp add: pull_up_def algebra_simps)

lemma small_ints:
  assumes "0 < node" "node < 2 ^ 30" "lb \<le> ub" "ub \<le> (2 :: nat) ^ 29"
  shows "in_int (int ub - int lb)" "in_int (int lb + int ub)" "in_int (2 * int node + 1)" "\<not> int node \<le> 0"
  using assms by (auto simp: in_int_def)

lemma seg_init_nat:
  assumes "0 < node" "node < 2 ^ 30" "lb \<le> ub" "ub \<le> 2 ^ 29"
  shows "seg_init operation (int node) (int lb) (int ub) vals t =
    (if ub - lb = 1 then bindE (get (int lb) vals) (\<lambda>v. put (int node) v t)
     else bindE (seg_init operation (int (2 * node)) (int lb) (int ((lb + ub) div 2)) vals t) (\<lambda>t1.
          bindE (seg_init operation (int (2 * node + 1)) (int ((lb + ub) div 2)) (int ub) vals t1) (\<lambda>t2. pull_up operation (int node) t2)))"
  using small_ints[OF assms] assms(3) by (subst seg_init.simps) (auto simp: halve_nat Let_def algebra_simps)

lemma seg_update_nat:
  assumes "0 < node" "node < 2 ^ 30" "lb \<le> ub" "ub \<le> 2 ^ 29"
  shows "seg_update operation (int node) (int lb) (int ub) (int i) v t =
    (if ub - lb = 1 then put (int node) v t
     else bindE (if i < (lb + ub) div 2 then seg_update operation (int (2 * node)) (int lb) (int ((lb + ub) div 2)) (int i) v t
                 else seg_update operation (int (2 * node + 1)) (int ((lb + ub) div 2)) (int ub) (int i) v t) (\<lambda>t1. pull_up operation (int node) t1))"
  using small_ints[OF assms] assms(3) by (subst seg_update.simps) (auto simp: halve_nat Let_def algebra_simps)

text \<open>The bounds of a query may be negative; a segment is not, so that only their part above zero matters.\<close>

lemma seg_query_nat:
  assumes "0 < node" "node < 2 ^ 30" "lb < ub" "ub \<le> 2 ^ 29"
  shows "seg_query operation neutral (int node) (int lb) (int ub) a b t =
    (if ub \<le> nat a \<or> nat b \<le> lb then Inr neutral
     else if nat a \<le> lb \<and> ub \<le> nat b then get (int node) t
     else bindE (seg_query operation neutral (int (2 * node)) (int lb) (int ((lb + ub) div 2)) a b t) (\<lambda>x.
          bindE (seg_query operation neutral (int (2 * node + 1)) (int ((lb + ub) div 2)) (int ub) a b t) (\<lambda>y. Inr (operation x y))))"
proof -
  have "int ub \<le> a \<longleftrightarrow> ub \<le> nat a" "b \<le> int lb \<longleftrightarrow> nat b \<le> lb" "a \<le> int lb \<longleftrightarrow> nat a \<le> lb" "int ub \<le> b \<longleftrightarrow> ub \<le> nat b"
    using assms(3) by auto
  then show ?thesis using small_ints[OF assms(1,2) less_imp_le[OF assms(3)] assms(4)]
    by (subst seg_query.simps) (auto simp: halve_nat Let_def algebra_simps)
qed

section \<open>The array is large enough\<close>

lemma tree_size_loop_power:
  "q \<le> 29 \<Longrightarrow> 0 < n \<Longrightarrow> n \<le> 2 ^ 29 \<Longrightarrow> \<exists>r \<le> 29. tree_size_loop (int n) (2 ^ Suc q) = Inr (2 ^ Suc r) \<and> n \<le> 2 ^ r"
proof (induction "29 - q" arbitrary: q rule: less_induct)
  case less
  have sub: "in_int (2 * int n)" using less.prems by (simp add: in_int_def)
  show ?case
  proof (cases "2 ^ q < int n")
    case True
    have "q \<noteq> 29" using True less.prems by auto
    then have q: "Suc q \<le> 29" "29 - Suc q < 29 - q" using less.prems(1) by auto
    have "(2 :: int) ^ Suc (Suc q) \<le> 2 ^ 30" using q(1) by (intro power_increasing) auto
    then have "4 * (2 :: int) ^ q \<le> 2 ^ 30" by simp
    moreover have "in_int (4 * x)" if "4 * x \<le> 2 ^ 30" "0 < x" for x :: int using that by (simp add: in_int_def)
    ultimately have "in_int (4 * 2 ^ q)" by simp
    then have "in_int (2 ^ Suc q * 2)" by (simp add: algebra_simps)
    then have "tree_size_loop (int n) (2 ^ Suc q) = tree_size_loop (int n) (2 ^ Suc (Suc q))"
      using True sub tree_size_loop.simps[of "int n" "2 ^ Suc q"] by (simp add: algebra_simps)
    then show ?thesis using less.hyps[OF q(2,1) less.prems(2,3)] by metis
  next
    case False
    then have "tree_size_loop (int n) (2 ^ Suc q) = Inr (2 ^ Suc q)" "n \<le> 2 ^ q"
      using sub tree_size_loop.simps[of "int n" "2 ^ Suc q"] by (auto simp flip: of_nat_power)
    then show ?thesis using less.prems(1) by blast
  qed
qed

lemma tree_size_power: "0 < n \<Longrightarrow> n \<le> 2 ^ 29 \<Longrightarrow> \<exists>r \<le> 29. tree_size (int n) = Inr (2 * 2 ^ r) \<and> n \<le> 2 ^ r"
  using tree_size_loop_power[of 0 n] by (auto simp: tree_size_def)

lemma tree_size_loop_overflow:
  "q \<le> 29 \<Longrightarrow> 2 ^ 29 < n \<Longrightarrow> tree_size_loop n (2 ^ Suc q) = Inl Undefined_behaviour"
proof (induction "29 - q" arbitrary: q rule: less_induct)
  case less
  have "(2 :: int) ^ Suc q \<le> 2 ^ 30" using less.prems(1) by (intro power_increasing) auto
  then have lt: "2 ^ Suc q < 2 * n" using less.prems(2) by simp
  show ?case
  proof (cases "q = 29")
    case True
    then show ?thesis using lt by (subst tree_size_loop.simps) (simp add: in_int_def)
  next
    case False
    then have "tree_size_loop n (2 ^ Suc (Suc q)) = Inl Undefined_behaviour" using less.prems by (intro less.hyps) auto
    then show ?thesis using lt by (subst tree_size_loop.simps) (simp add: algebra_simps)
  qed
qed

text \<open>\<open>fits e node lb ub len\<close>: a segment of at most \<open>2 ^ e\<close> positions whose subtree lies in the array.\<close>

definition fits :: "nat \<Rightarrow> nat \<Rightarrow> nat \<Rightarrow> nat \<Rightarrow> nat \<Rightarrow> bool" where
  "fits e node lb ub len \<longleftrightarrow> 0 < node \<and> lb < ub \<and> ub - lb \<le> 2 ^ e \<and> (node + 1) * 2 ^ e \<le> len"

lemma fits_node: "fits e node lb ub len \<Longrightarrow> node < len"
proof -
  assume "fits e node lb ub len"
  moreover have "(node + 1) * 1 \<le> (node + 1) * 2 ^ e" by (rule mult_le_mono2) simp
  ultimately have "(node + 1) * 1 \<le> len" unfolding fits_def by (blast intro: le_trans)
  then show ?thesis by simp
qed

lemma fits_children:
  assumes "fits e node lb ub len" "ub - lb \<noteq> 1"
  obtains e' where "fits e' (2 * node) lb ((lb + ub) div 2) len" "fits e' (2 * node + 1) ((lb + ub) div 2) ub len"
proof -
  obtain e' where e: "e = Suc e'" using assms by (cases e) (auto simp: fits_def)
  define x where "x = (2 :: nat) ^ e'"
  have "ub - lb \<le> 2 * x" "(node + 1) * (2 * x) \<le> len" "0 < node" "lb + 1 < ub"
    using assms e by (auto simp: fits_def x_def)
  then have "fits e' (2 * node) lb ((lb + ub) div 2) len" "fits e' (2 * node + 1) ((lb + ub) div 2) ub len"
    unfolding fits_def x_def[symmetric] by (auto simp: algebra_simps)
  then show thesis using that by blast
qed

section \<open>The segment invariant\<close>

inductive seg_ok :: "('v \<Rightarrow> 'v \<Rightarrow> 'v) \<Rightarrow> 'v list \<Rightarrow> 'v list \<Rightarrow> nat \<Rightarrow> nat \<Rightarrow> nat \<Rightarrow> bool" for operation vals t where
  leaf: "node < length t \<Longrightarrow> t ! node = vals ! lb \<Longrightarrow> seg_ok operation vals t node lb (Suc lb)"
| inner: "Suc lb < ub \<Longrightarrow> node < length t \<Longrightarrow> t ! node = operation (t ! (2 * node)) (t ! (2 * node + 1)) \<Longrightarrow>
    seg_ok operation vals t (2 * node) lb ((lb + ub) div 2) \<Longrightarrow>
    seg_ok operation vals t (2 * node + 1) ((lb + ub) div 2) ub \<Longrightarrow> seg_ok operation vals t node lb ub"

inductive_cases seg_okE: "seg_ok operation vals t node lb ub"

lemma seg_ok_node: "seg_ok operation vals t node lb ub \<Longrightarrow> node < length t \<and> lb < ub"
  by (auto elim: seg_okE)

lemma seg_ok_frame:
  "seg_ok operation vals t node lb ub \<Longrightarrow> length t' = length t \<Longrightarrow> (\<And>i. in_subtree node i \<Longrightarrow> t' ! i = t ! i) \<Longrightarrow>
     (\<And>i. lb \<le> i \<Longrightarrow> i < ub \<Longrightarrow> vals' ! i = vals ! i) \<Longrightarrow> seg_ok operation vals' t' node lb ub"
proof (induction node lb ub rule: seg_ok.induct)
  case (leaf node lb)
  have "t' ! node = vals' ! lb" using leaf(4)[of node] leaf(5)[of lb] leaf(2) by simp
  moreover have "node < length t'" using leaf(1,3) by simp
  ultimately show ?case by (rule seg_ok.leaf[rotated])
next
  case (inner lb ub node)
  have sub: "t' ! i = t ! i" if "in_subtree (2 * node) i \<or> in_subtree (2 * node + 1) i" for i
    using inner.prems(2)[OF in_subtree_child[OF that]] .
  have top: "t' ! node = operation (t' ! (2 * node)) (t' ! (2 * node + 1))"
    using inner.hyps(3) inner.prems(2)[OF in_subtree_refl] sub[of "2 * node"] sub[of "2 * node + 1"] by simp
  have left: "seg_ok operation vals' t' (2 * node) lb ((lb + ub) div 2)"
  proof (rule inner.IH(1)[OF inner.prems(1)])
    show "t' ! i = t ! i" if "in_subtree (2 * node) i" for i using sub that by blast
    show "vals' ! i = vals ! i" if "lb \<le> i" "i < (lb + ub) div 2" for i
      using inner.prems(3)[OF that(1)] that(2) inner.hyps(1) by linarith
  qed
  have right: "seg_ok operation vals' t' (2 * node + 1) ((lb + ub) div 2) ub"
  proof (rule inner.IH(2)[OF inner.prems(1)])
    show "t' ! i = t ! i" if "in_subtree (2 * node + 1) i" for i using sub that by blast
    show "vals' ! i = vals ! i" if "(lb + ub) div 2 \<le> i" "i < ub" for i
      using inner.prems(3)[OF _ that(2)] that(1) inner.hyps(1) by linarith
  qed
  have "node < length t'" using inner.hyps(2) inner.prems(1) by simp
  then show ?case using inner.hyps(1) top left right by (blast intro: seg_ok.inner)
qed

text \<open>\<open>confined node t t'\<close>: \<open>t'\<close> differs from \<open>t\<close> inside the subtree of \<open>node\<close> only.\<close>

definition confined :: "nat \<Rightarrow> 'v list \<Rightarrow> 'v list \<Rightarrow> bool" where
  "confined node t t' \<longleftrightarrow> length t' = length t \<and> (\<forall>i. \<not> in_subtree node i \<longrightarrow> t' ! i = t ! i)"

lemma confined_refl [simp]: "confined node t t"
  by (simp add: confined_def)

lemma confined_put: "confined node t (t[node := v])"
  unfolding confined_def by (metis in_subtree_refl length_list_update nth_list_update_neq)

lemma confined_trans: "confined node t t1 \<Longrightarrow> confined node t1 t2 \<Longrightarrow> confined node t t2"
  by (simp add: confined_def)

lemma confined_child:
  "confined (2 * node) t t' \<Longrightarrow> confined node t t'"
  "confined (2 * node + 1) t t' \<Longrightarrow> confined node t t'"
  using in_subtree_child unfolding confined_def by blast+

lemma sibling_kept:
  assumes "seg_ok operation vals t node lb ub" "confined other t t'" "\<And>i. in_subtree node i \<Longrightarrow> \<not> in_subtree other i"
    "\<And>i. lb \<le> i \<Longrightarrow> i < ub \<Longrightarrow> vals' ! i = vals ! i"
  shows "seg_ok operation vals' t' node lb ub"
  using assms by (intro seg_ok_frame[OF assms(1)]) (auto simp: confined_def)

lemma pull_up_ok:
  assumes "0 < node" "Suc lb < ub" "node < length t"
    "seg_ok operation vals t (2 * node) lb ((lb + ub) div 2)"
    "seg_ok operation vals t (2 * node + 1) ((lb + ub) div 2) ub"
  shows "\<exists>t'. pull_up operation (int node) t = Inr t' \<and> seg_ok operation vals t' node lb ub \<and> confined node t t'"
proof -
  define t' where "t' = t[node := operation (t ! (2 * node)) (t ! (2 * node + 1))]"
  have len: "2 * node < length t" "2 * node + 1 < length t" using seg_ok_node[OF assms(4)] seg_ok_node[OF assms(5)] by auto
  then have run: "pull_up operation (int node) t = Inr t'" using assms(3) by (simp only: pull_up_nat get_nat put_nat) (simp add: t'_def)
  have kept: "seg_ok operation vals t' child a b"
    if "seg_ok operation vals t child a b" "child = 2 * node \<or> child = 2 * node + 1" for child a b
  proof (rule seg_ok_frame[OF that(1)])
    fix i assume "in_subtree child i"
    then have "i \<noteq> node" using that(2) not_in_child_subtree[OF assms(1)] by auto
    then show "t' ! i = t ! i" by (simp add: t'_def)
  qed (simp_all add: t'_def)
  have "t' ! node = operation (t' ! (2 * node)) (t' ! (2 * node + 1))" using assms(1,3) by (simp add: t'_def)
  moreover have "node < length t'" using assms(3) by (simp add: t'_def)
  ultimately have "seg_ok operation vals t' node lb ub"
    using seg_ok.inner[OF assms(2)] kept[OF assms(4)] kept[OF assms(5)] by blast
  then show ?thesis using run confined_put[of node t] unfolding t'_def by blast
qed

lemma seg_init_ok:
  "fits e node lb ub (length t) \<Longrightarrow> ub \<le> length vals \<Longrightarrow> length t \<le> 2 ^ 30 \<Longrightarrow> length vals \<le> 2 ^ 29 \<Longrightarrow>
     \<exists>t'. seg_init operation (int node) (int lb) (int ub) vals t = Inr t' \<and> seg_ok operation vals t' node lb ub \<and> confined node t t'"
proof (induction "ub - lb" arbitrary: e node lb ub t rule: less_induct)
  case less
  note fit = less.prems(1)
  then have pos: "lb < ub" "0 < node" "node < length t" using fits_node[OF fit] by (simp_all add: fits_def)
  have "node < 2 ^ 30" "ub \<le> 2 ^ 29" using pos(3) less.prems by linarith+
  note unfold = seg_init_nat[OF pos(2) this(1) less_imp_le[OF pos(1)] this(2)]
  show ?case
  proof (cases "ub - lb = 1")
    case True
    then have ub: "ub = Suc lb" by simp
    have "seg_init operation (int node) (int lb) (int ub) vals t = Inr (t[node := vals ! lb])"
      using True pos less.prems(2) by (simp only: unfold get_nat put_nat) simp
    moreover have "seg_ok operation vals (t[node := vals ! lb]) node lb ub"
      unfolding ub using pos by (intro seg_ok.leaf) simp_all
    ultimately show ?thesis using confined_put[of node t "vals ! lb"] by blast
  next
    case False
    define mid where "mid = (lb + ub) div 2"
    obtain e' where f: "fits e' (2 * node) lb mid (length t)" "fits e' (2 * node + 1) mid ub (length t)"
      using fits_children[OF fit False] unfolding mid_def by blast
    have mid: "mid \<le> ub" "mid - lb < ub - lb" "ub - mid < ub - lb" using pos False by (auto simp: mid_def)
    obtain t1 where t1: "seg_init operation (int (2 * node)) (int lb) (int mid) vals t = Inr t1"
        "seg_ok operation vals t1 (2 * node) lb mid" "confined (2 * node) t t1"
      using less.hyps[OF mid(2) f(1) le_trans[OF mid(1) less.prems(2)] less.prems(3,4)] by blast
    have l1: "length t1 = length t" using t1(3) by (simp add: confined_def)
    obtain t2 where t2: "seg_init operation (int (2 * node + 1)) (int mid) (int ub) vals t1 = Inr t2"
        "seg_ok operation vals t2 (2 * node + 1) mid ub" "confined (2 * node + 1) t1 t2"
      using less.hyps[OF mid(3) f(2)[folded l1] less.prems(2) less.prems(3)[folded l1] less.prems(4)] by blast
    have left: "seg_ok operation vals t2 (2 * node) lb mid"
      by (rule sibling_kept[OF t1(2) t2(3)]) (use in_subtree_siblings[OF pos(2)] in \<open>blast, simp\<close>)
    have "node < length t2" "Suc lb < ub" using pos False l1 t2(3) by (auto simp: confined_def)
    then obtain t3 where t3: "pull_up operation (int node) t2 = Inr t3" "seg_ok operation vals t3 node lb ub" "confined node t2 t3"
      using pull_up_ok[OF pos(2) _ _ left[unfolded mid_def] t2(2)[unfolded mid_def]] by blast
    have "confined node t t3"
      by (rule confined_trans[OF confined_trans[OF confined_child(1)[OF t1(3)] confined_child(2)[OF t2(3)]] t3(3)])
    moreover have "seg_init operation (int node) (int lb) (int ub) vals t = Inr t3"
      unfolding unfold mid_def[symmetric] using t1(1) t2(1) t3(1) False by (simp only: bindE_Inr if_False)
    ultimately show ?thesis using t3(2) by blast
  qed
qed

lemma seg_update_ok:
  "seg_ok operation vals t node lb ub \<Longrightarrow> 0 < node \<Longrightarrow> lb \<le> i \<Longrightarrow> i < ub \<Longrightarrow> ub \<le> length vals \<Longrightarrow> length t \<le> 2 ^ 30 \<Longrightarrow> length vals \<le> 2 ^ 29 \<Longrightarrow>
     \<exists>t'. seg_update operation (int node) (int lb) (int ub) (int i) v t = Inr t' \<and> seg_ok operation (vals[i := v]) t' node lb ub \<and> confined node t t'"
proof (induction node lb ub rule: seg_ok.induct)
  case (leaf node lb)
  then have i: "i = lb" by simp
  have "node < 2 ^ 30" "Suc lb \<le> 2 ^ 29" using leaf by linarith+
  note unfold = seg_update_nat[OF leaf(3) this(1) le_SucI[OF order_refl] this(2)]
  have "seg_update operation (int node) (int lb) (int (Suc lb)) (int lb) v t = Inr (t[node := v])"
    using leaf(1) by (simp only: unfold put_nat) simp
  then show ?case unfolding i using leaf confined_put[of node t] by (auto intro!: seg_ok.leaf)
next
  case (inner lb ub node)
  define mid where "mid = (lb + ub) div 2"
  note sub = inner.hyps(4,5)[folded mid_def]
  have mid: "lb < mid" "mid < ub" using inner.hyps(1) by (auto simp: mid_def)
  have "\<exists>t1. (if i < mid then seg_update operation (int (2 * node)) (int lb) (int mid) (int i) v t else seg_update operation (int (2 * node + 1)) (int mid) (int ub) (int i) v t) = Inr t1
      \<and> seg_ok operation (vals[i := v]) t1 (2 * node) lb mid \<and> seg_ok operation (vals[i := v]) t1 (2 * node + 1) mid ub \<and> confined node t t1"
  proof (cases "i < mid")
    case True
    then obtain t1 where t1: "seg_update operation (int (2 * node)) (int lb) (int mid) (int i) v t = Inr t1"
        "seg_ok operation (vals[i := v]) t1 (2 * node) lb mid" "confined (2 * node) t t1"
      using inner.IH(1)[folded mid_def] inner.prems mid by auto
    have "seg_ok operation (vals[i := v]) t1 (2 * node + 1) mid ub"
      by (rule sibling_kept[OF sub(2) t1(3)]) (use in_subtree_siblings[OF inner.prems(1)] True in \<open>blast, simp\<close>)
    then show ?thesis using t1 True confined_child(1)[OF t1(3)] by (intro exI[of _ t1]) simp
  next
    case False
    then obtain t1 where t1: "seg_update operation (int (2 * node + 1)) (int mid) (int ub) (int i) v t = Inr t1"
        "seg_ok operation (vals[i := v]) t1 (2 * node + 1) mid ub" "confined (2 * node + 1) t t1"
      using inner.IH(2)[folded mid_def] inner.prems mid by auto
    have "seg_ok operation (vals[i := v]) t1 (2 * node) lb mid"
      by (rule sibling_kept[OF sub(1) t1(3)]) (use in_subtree_siblings[OF inner.prems(1)] False in \<open>blast, simp\<close>)
    then show ?thesis using t1 False confined_child(2)[OF t1(3)] by (intro exI[of _ t1]) simp
  qed
  then obtain t1 where t1: "(if i < mid then seg_update operation (int (2 * node)) (int lb) (int mid) (int i) v t else seg_update operation (int (2 * node + 1)) (int mid) (int ub) (int i) v t) = Inr t1"
      "seg_ok operation (vals[i := v]) t1 (2 * node) lb mid" "seg_ok operation (vals[i := v]) t1 (2 * node + 1) mid ub" "confined node t t1"
    by blast
  have "node < length t1" using t1(4) inner.hyps(2) by (simp add: confined_def)
  then obtain t2 where t2: "pull_up operation (int node) t1 = Inr t2" "seg_ok operation (vals[i := v]) t2 node lb ub" "confined node t1 t2"
    using pull_up_ok[OF inner.prems(1) inner.hyps(1) _ t1(2,3)[unfolded mid_def]] by blast
  have "node < 2 ^ 30" "ub \<le> 2 ^ 29" "lb \<le> ub" "ub - lb \<noteq> 1" using inner.hyps(1,2) inner.prems by linarith+
  note unfold = seg_update_nat[OF inner.prems(1) this(1,3,2)] \<open>ub - lb \<noteq> 1\<close>
  have "seg_update operation (int node) (int lb) (int ub) (int i) v t = Inr t2"
    unfolding unfold(1) mid_def[symmetric] t1(1) using t2(1) unfold(2) by (simp only: bindE_Inr if_False)
  then show ?case using t2(2) confined_trans[OF t1(4) t2(3)] by blast
qed

section \<open>Queries\<close>

text \<open>The aggregate of the values at the positions from \<open>lb\<close> up to \<open>ub\<close>.\<close>

definition range_agg :: "('v \<Rightarrow> 'v \<Rightarrow> 'v) \<Rightarrow> 'v \<Rightarrow> 'v list \<Rightarrow> nat \<Rightarrow> nat \<Rightarrow> 'v" where
  "range_agg operation neutral vals lb ub = agg operation neutral (map (\<lambda>i. (i, vals ! i)) [lb..<ub])"

context comm_aggregate
begin

lemma range_agg_split:
  "lb \<le> mid \<Longrightarrow> mid \<le> ub \<Longrightarrow>
     range_agg operation neutral vals lb ub = operation (range_agg operation neutral vals lb mid) (range_agg operation neutral vals mid ub)"
  using upt_add_eq_append[of lb mid "ub - mid"] by (simp add: range_agg_def agg_append)

lemma range_agg_empty: "ub \<le> lb \<Longrightarrow> range_agg operation neutral vals lb ub = neutral"
  by (simp add: range_agg_def)

lemma seg_ok_agg: "seg_ok operation vals t node lb ub \<Longrightarrow> t ! node = range_agg operation neutral vals lb ub"
proof (induction node lb ub rule: seg_ok.induct)
  case (leaf node lb)
  then show ?case by (simp add: range_agg_def upt_rec neutral_right)
next
  case (inner lb ub node)
  then show ?case using range_agg_split[of lb "(lb + ub) div 2" ub vals] by simp
qed

lemma seg_query_ok:
  "seg_ok operation vals t node lb ub \<Longrightarrow> 0 < node \<Longrightarrow> ub \<le> 2 ^ 29 \<Longrightarrow> length t \<le> 2 ^ 30 \<Longrightarrow>
     seg_query operation neutral (int node) (int lb) (int ub) qa qb t = Inr (range_agg operation neutral vals (max lb (nat qa)) (min ub (nat qb)))"
proof (induction node lb ub rule: seg_ok.induct)
  case (leaf node lb)
  define a b where "a = nat qa" and "b = nat qb"
  have "node < 2 ^ 30" using leaf by linarith
  note unfold = seg_query_nat[OF leaf(3) this lessI leaf(4), where a = qa and b = qb, folded a_def b_def]
  have "t ! node = range_agg operation neutral vals lb (Suc lb)"
    using seg_ok_agg[OF seg_ok.leaf[OF leaf(1,2)]] by simp
  moreover consider "Suc lb \<le> a \<or> b \<le> lb" | "max lb a = lb" "min (Suc lb) b = Suc lb" "a \<le> lb" "lb < b" by linarith
  ultimately show ?case unfolding unfold a_def[symmetric] b_def[symmetric] using leaf(1) by cases (auto simp: range_agg_empty)
next
  case (inner lb ub node)
  define a b where "a = nat qa" and "b = nat qb"
  define mid where "mid = (lb + ub) div 2"
  have whole: "t ! node = range_agg operation neutral vals lb ub"
    using seg_ok_agg[OF seg_ok.inner[OF inner.hyps]] by simp
  have mid: "lb < mid" "mid < ub" using inner.hyps(1) by (auto simp: mid_def)
  have glue: "operation (range_agg operation neutral vals (max lb a) (min mid b)) (range_agg operation neutral vals (max mid a) (min ub b))
      = range_agg operation neutral vals (max lb a) (min ub b)"
  proof -
    consider "b \<le> mid" | "mid \<le> a" | "a < mid" "mid < b" by linarith
    then show ?thesis
    proof cases
      case 3
      then show ?thesis using mid range_agg_split[of "max lb a" mid "min ub b" vals] by (simp add: max_def min_def)
    qed (use mid in \<open>auto simp: range_agg_empty neutral_left neutral_right max_def min_def\<close>)
  qed
  have "node < 2 ^ 30" "lb < ub" using inner.hyps(1,2) inner.prems by linarith+
  note unfold = seg_query_nat[OF inner.prems(1) this inner.prems(2), where a = qa and b = qb, folded a_def b_def mid_def]
  have "seg_query operation neutral (int (2 * node)) (int lb) (int mid) qa qb t = Inr (range_agg operation neutral vals (max lb a) (min mid b))"
    "seg_query operation neutral (int (2 * node + 1)) (int mid) (int ub) qa qb t = Inr (range_agg operation neutral vals (max mid a) (min ub b))"
    using inner.IH[folded mid_def a_def b_def] inner.prems mid by auto
  then show ?case unfolding unfold a_def[symmetric] b_def[symmetric]
    using inner.hyps(2) glue whole by (auto simp: range_agg_empty max_def min_def)
qed

end

section \<open>Histories\<close>

definition av_ok :: "('v \<Rightarrow> 'v \<Rightarrow> 'v) \<Rightarrow> 'v list \<Rightarrow> 'v AssociativeVector \<Rightarrow> bool" where
  "av_ok operation vals a \<longleftrightarrow> av_size a = int (length vals) \<and> length vals \<le> 2 ^ 29 \<and> length (tree a) \<le> 2 ^ 30
     \<and> (if vals = [] then tree a = [] else seg_ok operation vals (tree a) 1 0 (length vals))"

lemma int_of_size_small: "n \<le> 2 ^ 29 \<Longrightarrow> int_of_size n = int n"
  unfolding int_of_size_def by (rule signed_take_bit_int_eq_self) simp_all

lemma resize_length [simp]: "length (resize n fresh xs) = n"
  by (simp add: resize_def)

lemma av_init_ok:
  assumes "length vals \<le> 2 ^ 29"
  shows "\<exists>a'. av_init operation fresh vals a = Inr a' \<and> av_ok operation vals a'"
proof (cases "vals = []")
  case True
  then show ?thesis by (simp add: av_init_def av_ok_def tree_size_def int_of_size_def resize_def)
next
  case False
  obtain r where r: "r \<le> 29" "tree_size (int (length vals)) = Inr (2 * 2 ^ r)" "length vals \<le> 2 ^ r" using tree_size_power False assms by blast
  define t where "t = resize (nat (2 * 2 ^ r)) fresh (tree a)"
  have len: "length t = 2 * 2 ^ r" by (simp add: t_def nat_mult_distrib nat_power_eq)
  have "(2 :: nat) * 2 ^ r \<le> 2 * 2 ^ 29" using r(1) by (intro mult_le_mono2 power_increasing) auto
  then have small: "length t \<le> 2 ^ 30" by (simp add: len)
  have "fits r 1 0 (length vals) (length t)" using False r(3) by (simp add: fits_def len)
  from seg_init_ok[OF this order_refl small assms, of operation]
  obtain t' where t': "seg_init operation 1 0 (int (length vals)) vals t = Inr t'" "seg_ok operation vals t' 1 0 (length vals)" "confined 1 t t'"
    by auto
  have "av_init operation fresh vals a = Inr \<lparr>av_size = int (length vals), tree = t'\<rparr>"
    unfolding av_init_def Let_def int_of_size_small[OF assms] r(2) bindE_Inr t_def[symmetric] t'(1) using False by simp
  then show ?thesis using t'(2,3) False assms small by (simp add: av_ok_def confined_def)
qed

lemma av_update_ok:
  assumes "av_ok operation vals a" "0 \<le> i" "i < int (length vals)"
  shows "\<exists>a'. av_update operation i v a = Inr a' \<and> av_ok operation (vals[nat i := v]) a'"
proof -
  have ok: "seg_ok operation vals (tree a) 1 0 (length vals)" "av_size a = int (length vals)" "length vals \<le> 2 ^ 29" "length (tree a) \<le> 2 ^ 30" "vals \<noteq> []"
    using assms by (auto simp: av_ok_def split: if_splits)
  obtain t' where "seg_update operation (int 1) (int 0) (int (length vals)) (int (nat i)) v (tree a) = Inr t'"
      "seg_ok operation (vals[nat i := v]) t' 1 0 (length vals)" "confined 1 (tree a) t'"
    using seg_update_ok[OF ok(1) _ _ _ order_refl ok(4,3), of "nat i" v] nat_less_iff[OF assms(2)] assms(2,3) by auto
  then show ?thesis using assms(2) ok by (auto simp: av_update_def av_ok_def confined_def)
qed

definition write_all :: "(int \<times> 'v) list \<Rightarrow> 'v list \<Rightarrow> 'v list" where
  "write_all ups vals = fold (\<lambda>(i, v) xs. xs[nat i := v]) ups vals"

lemma av_updates_ok:
  "av_ok operation vals a \<Longrightarrow> \<forall>(i, v) \<in> set ups. 0 \<le> i \<and> i < int (length vals) \<Longrightarrow>
     \<exists>a'. foldE (\<lambda>(i, v). av_update operation i v) ups a = Inr a' \<and> av_ok operation (write_all ups vals) a'"
proof (induction ups arbitrary: vals a)
  case (Cons u ups)
  obtain i v where u: "u = (i, v)" by (cases u)
  then obtain a' where "av_update operation i v a = Inr a'" "av_ok operation (vals[nat i := v]) a'"
    using av_update_ok[OF Cons.prems(1)] Cons.prems(2) by fastforce
  then show ?case using Cons.IH[of "vals[nat i := v]" a'] Cons.prems(2) u by (simp add: write_all_def)
qed (simp add: write_all_def)

context comm_aggregate
begin

lemma av_query_ok:
  assumes "av_ok operation vals a"
  shows "av_query_range operation neutral lb ub a =
    (if vals = [] \<and> lb < 0 \<and> 0 < ub then Inl Undefined_behaviour
     else Inr (range_agg operation neutral vals (nat lb) (min (length vals) (nat ub))))"
proof (cases "vals = []")
  case True
  then show ?thesis using assms by (subst av_query_range_def) (auto simp: av_ok_def seg_query.simps[of operation neutral 1] get_def range_agg_empty)
next
  case False
  then show ?thesis using assms seg_query_ok[of vals "tree a" 1 0 "length vals" lb ub] by (simp add: av_query_range_def av_ok_def)
qed

end

lemma write_all_length [simp]: "length (write_all ups vals) = length vals"
  by (induction ups arbitrary: vals) (auto simp: write_all_def split: prod.splits)

text \<open>C8: The segment tree answers range queries with the aggregate of the
  current values. After \<open>init\<close> with at most \<open>2 ^ 29\<close> values and any sequence of in-range
  updates, from any earlier state of the object, \<open>query(lb, ub)\<close> for any two integers is
  the aggregate over the positions from \<open>lb\<close> up to \<open>ub\<close>, without overflow of an
  \<open>int\<close> and without an access outside of the array. The one exception is a query
  that reaches across zero on an empty vector, which reads the root of an empty array.\<close>

theorem segment_vector_correct:
  assumes "comm_aggregate operation neutral" "length vals \<le> 2 ^ 29" "\<forall>(i, v) \<in> set ups. 0 \<le> i \<and> i < int (length vals)"
  shows "bindE (bindE (av_init operation fresh vals a) (foldE (\<lambda>(i, v). av_update operation i v) ups))
           (av_query_range operation neutral lb ub)
         = (if vals = [] \<and> lb < 0 \<and> 0 < ub then Inl Undefined_behaviour
            else Inr (range_agg operation neutral (write_all ups vals) (nat lb) (min (length vals) (nat ub))))"
proof -
  obtain a' where a': "av_init operation fresh vals a = Inr a'" "av_ok operation vals a'"
    using av_init_ok[OF assms(2), of operation fresh a] by blast
  obtain b where b: "foldE (\<lambda>(i, v). av_update operation i v) ups a' = Inr b" "av_ok operation (write_all ups vals) b"
    using av_updates_ok[OF a'(2) assms(3)] by blast
  have "write_all ups vals = [] \<longleftrightarrow> vals = []" using write_all_length[of ups vals] by (metis length_0_conv)
  then show ?thesis using a'(1) b(1) comm_aggregate.av_query_ok[OF assms(1) b(2), of lb ub] by simp
qed

theorem segment_vector_correct_witness:
  "comm_aggregate (+) (0 :: real) \<and> 2 < length [1, 2, 3 :: real] \<and>
   bindE (bindE (av_init (+) 0 [1, 2, 3] \<lparr>av_size = 0, tree = [5 :: real]\<rparr>) (foldE (\<lambda>(i, v). av_update (+) i v) [(2, 7)]))
     (av_query_range (+) 0 (- 4) 3) = Inr 10"
proof -
  have "comm_aggregate (+) (0 :: real)" by unfold_locales auto
  moreover have "range_agg (+) 0 (write_all [(2, 7)] [1, 2, 3]) (nat (- 4)) (min (length [1, 2, 3 :: real]) (nat 3)) = (10 :: real)"
    by (simp add: range_agg_def write_all_def numeral_3_eq_3 numeral_2_eq_2)
  ultimately show ?thesis
    using segment_vector_correct[of "(+)" "0 :: real" "[1, 2, 3]" "[(2, 7)]" 0 "\<lparr>av_size = 0, tree = [5]\<rparr>" "- 4" 3] by simp
qed

text \<open>C0: The sizes of the segment tree overflow for large vectors: \<open>init\<close> with more than
  \<open>2 ^ 29\<close> and fewer than \<open>2 ^ 31\<close> values is undefined, since the doubling of \<open>tree_size\<close> or the
  product \<open>2 * n\<close> leaves the range of \<open>int\<close>.\<close>

theorem segment_vector_size_overflow:
  assumes "2 ^ 29 < length vals" "length vals < 2 ^ 31"
  shows "av_init operation fresh vals a = Inl Undefined_behaviour"
proof -
  have "int_of_size (length vals) = int (length vals)"
    unfolding int_of_size_def using assms(2) by (intro signed_take_bit_int_eq_self) simp_all
  moreover have "tree_size (int (length vals)) = Inl Undefined_behaviour"
    using tree_size_loop_overflow[of 0 "int (length vals)"] assms(1) by (auto simp: tree_size_def)
  ultimately show ?thesis by (simp add: av_init_def)
qed

theorem segment_vector_size_overflow_witness:
  "av_init (+) (0 :: real) (replicate (2 ^ 30) 1) \<lparr>av_size = 0, tree = []\<rparr> = Inl Undefined_behaviour"
  by (rule segment_vector_size_overflow) (simp_all only: length_replicate, simp_all)

end
