(* ===== verification/Value_Queues.thy ===== *)
theory Value_Queues
  imports Std_Containers
begin

text \<open>
  Two containers of \<open>algopt_common\<close> on which the expression graph is built:
  \<open>ValueSortedMap\<close>, a map that can be iterated in the order of its values
  (\<open>ValueSortedMap.h\<close>), and \<open>BucketedPriorityQueue\<close>, a FIFO queue per priority
  (\<open>BucketedPriorityQueue.h\<close>). The locales \<open>value_order\<close> and
  \<open>strict_order_on\<close> state what their comparators promise.
\<close>

section \<open>Definitions: the map sorted by value\<close>

record ('k, 'v) ValueSortedMap =
  vsm_map :: "'k \<rightharpoonup> 'v"
  vsm_set :: "('k \<times> 'v) list"

definition vsm_empty :: "('k, 'v) ValueSortedMap" where
  "vsm_empty = \<lparr>vsm_map = Map.empty, vsm_set = []\<rparr>"

definition vsm_contains :: "'k \<Rightarrow> ('k, 'v) ValueSortedMap \<Rightarrow> bool" where
  "vsm_contains k m \<longleftrightarrow> vsm_map m k \<noteq> None"

definition vsm_at :: "'k \<Rightarrow> ('k, 'v) ValueSortedMap \<Rightarrow> 'v result" where
  "vsm_at k m = (case vsm_map m k of None \<Rightarrow> Inl Out_of_range | Some v \<Rightarrow> Inr v)"

definition vsm_getPtrIfExists :: "'k \<Rightarrow> ('k, 'v) ValueSortedMap \<Rightarrow> 'v option" where
  "vsm_getPtrIfExists k m = vsm_map m k"

definition vsm_begin :: "('k, 'v) ValueSortedMap \<Rightarrow> ('k \<times> 'v) option" where
  "vsm_begin m = std_begin (vsm_set m)"

definition vsm_clear :: "('k, 'v) ValueSortedMap \<Rightarrow> ('k, 'v) ValueSortedMap" where
  "vsm_clear m = m\<lparr>vsm_map := Map.empty, vsm_set := []\<rparr>"

definition vsm_erase :: "('k \<times> 'v \<Rightarrow> 'k \<times> 'v \<Rightarrow> bool) \<Rightarrow> 'k \<Rightarrow> ('k, 'v) ValueSortedMap \<Rightarrow> ('k, 'v) ValueSortedMap" where
  "vsm_erase lt k m =
    (case vsm_map m k of
       None \<Rightarrow> m
     | Some v \<Rightarrow> m\<lparr>vsm_set := std_erase lt (k, v) (vsm_set m), vsm_map := (vsm_map m)(k := None)\<rparr>)"

text \<open>
  \<open>assign\<close> extracts the old pair from the set, changes its value and inserts it
  again; extracting a pair that is not there would leave an empty node handle.
\<close>

definition vsm_assign :: "('k \<times> 'v \<Rightarrow> 'k \<times> 'v \<Rightarrow> bool) \<Rightarrow> 'k \<Rightarrow> 'v \<Rightarrow> ('k, 'v) ValueSortedMap \<Rightarrow> ('k, 'v) ValueSortedMap result" where
  "vsm_assign lt k v m =
    (case vsm_map m k of
       None \<Rightarrow> Inr (m\<lparr>vsm_set := std_insert lt (k, v) (vsm_set m), vsm_map := (vsm_map m)(k \<mapsto> v)\<rparr>)
     | Some old \<Rightarrow>
         if \<not> std_contains lt (k, old) (vsm_set m) then Inl Undefined_behaviour
         else Inr (m\<lparr>vsm_set := std_insert lt (k, v) (std_erase lt (k, old) (vsm_set m)),
                      vsm_map := (vsm_map m)(k \<mapsto> v)\<rparr>))"

section \<open>Definitions: the bucketed priority queue\<close>

type_synonym ('p, 'e) BucketedPriorityQueue = "('p \<times> 'e list) list"

definition bpq_empty :: "('p, 'e) BucketedPriorityQueue \<Rightarrow> bool" where
  "bpq_empty q \<longleftrightarrow> q = []"

definition bpq_clear :: "('p, 'e) BucketedPriorityQueue \<Rightarrow> ('p, 'e) BucketedPriorityQueue" where
  "bpq_clear q = []"

definition throwIfEmpty :: "('p, 'e) BucketedPriorityQueue \<Rightarrow> unit result" where
  "throwIfEmpty q = (if bpq_empty q then Inl Runtime_error else Inr ())"

definition bpq_top :: "('p, 'e) BucketedPriorityQueue \<Rightarrow> 'e result" where
  "bpq_top q = bindE (throwIfEmpty q) (\<lambda>_.
     case q of (p, x # xs) # _ \<Rightarrow> Inr x | _ \<Rightarrow> Inl Undefined_behaviour)"

definition bpq_pop :: "('p, 'e) BucketedPriorityQueue \<Rightarrow> ('p, 'e) BucketedPriorityQueue result" where
  "bpq_pop q = bindE (throwIfEmpty q) (\<lambda>_.
     case q of
       (p, x # xs) # rest \<Rightarrow> Inr (if xs = [] then rest else (p, xs) # rest)
     | _ \<Rightarrow> Inl Undefined_behaviour)"

text \<open>\<open>operator[]\<close> of the map finds the bucket, or creates an empty one in its place.\<close>

fun bpq_emplace :: "('p \<Rightarrow> 'p \<Rightarrow> bool) \<Rightarrow> 'p \<Rightarrow> 'e \<Rightarrow> ('p, 'e) BucketedPriorityQueue \<Rightarrow> ('p, 'e) BucketedPriorityQueue" where
  "bpq_emplace gt p x [] = [(p, [x])]"
| "bpq_emplace gt p x (b # bs) =
    (if gt p (fst b) then (p, [x]) # b # bs
     else if gt (fst b) p then b # bpq_emplace gt p x bs
     else (fst b, snd b @ [x]) # bs)"

text \<open>The priorities the orchestrator uses (\<open>solver/utils/PriorityInfo.h\<close>).\<close>

record PriorityInfo =
  rootIdx :: nat
  height :: nat

definition priority_gt :: "PriorityInfo \<Rightarrow> PriorityInfo \<Rightarrow> bool" where
  "priority_gt a b \<longleftrightarrow> (if rootIdx a = rootIdx b then height a < height b else rootIdx a < rootIdx b)"

definition priority_lt :: "PriorityInfo \<Rightarrow> PriorityInfo \<Rightarrow> bool" where
  "priority_lt a b \<longleftrightarrow> priority_gt b a"

text \<open>
  The reference queue keeps its elements in the order of their arrival and
  returns the first one of the highest priority.
\<close>

datatype ('p, 'e) queue_op = Push 'p 'e | Pop

definition best :: "('p \<Rightarrow> 'p \<Rightarrow> bool) \<Rightarrow> ('p \<times> 'e) list \<Rightarrow> ('p \<times> 'e) option" where
  "best gt l = List.find (\<lambda>i. \<forall>j \<in> set l. \<not> gt (fst j) (fst i)) l"

fun fifo_run :: "('p \<Rightarrow> 'p \<Rightarrow> bool) \<Rightarrow> ('p, 'e) queue_op list \<Rightarrow> ('p \<times> 'e) list \<Rightarrow> 'e list result" where
  "fifo_run gt [] l = Inr []"
| "fifo_run gt (Push p x # ops) l = fifo_run gt ops (l @ [(p, x)])"
| "fifo_run gt (Pop # ops) l =
    (case best gt l of
       None \<Rightarrow> Inl Runtime_error
     | Some i \<Rightarrow> bindE (fifo_run gt ops (remove1 i l)) (\<lambda>xs. Inr (snd i # xs)))"

fun bpq_run :: "('p \<Rightarrow> 'p \<Rightarrow> bool) \<Rightarrow> ('p, 'e) queue_op list \<Rightarrow> ('p, 'e) BucketedPriorityQueue \<Rightarrow> 'e list result" where
  "bpq_run gt [] q = Inr []"
| "bpq_run gt (Push p x # ops) q = bpq_run gt ops (bpq_emplace gt p x q)"
| "bpq_run gt (Pop # ops) q =
    bindE (bpq_top q) (\<lambda>x. bindE (bpq_pop q) (\<lambda>q'. bindE (bpq_run gt ops q') (\<lambda>xs. Inr (x # xs))))"

section \<open>The map sorted by value keeps its two views in step\<close>

locale value_order = strict_order_on lt UNIV for lt :: "'k \<times> 'v \<Rightarrow> 'k \<times> 'v \<Rightarrow> bool"
begin

definition vsm_ok :: "('k, 'v) ValueSortedMap \<Rightarrow> bool" where
  "vsm_ok m \<longleftrightarrow> sorted_wrt lt (vsm_set m) \<and> set (vsm_set m) = Map.graph (vsm_map m)"

lemma vsm_empty_ok: "vsm_ok vsm_empty"
  by (simp add: vsm_ok_def vsm_empty_def)

lemma vsm_clear_eq: "vsm_clear m = \<lparr>vsm_map = Map.empty, vsm_set = [], \<dots> = ValueSortedMap.more m\<rparr>"
  by (cases m) (simp add: vsm_clear_def)

lemma vsm_assign_ok:
  assumes "vsm_ok m"
  shows "\<exists>m'. vsm_assign lt k v m = Inr m' \<and> vsm_ok m' \<and> vsm_map m' = (vsm_map m)(k \<mapsto> v)"
proof (cases "vsm_map m k")
  case None
  then have "(vsm_map m)(k := None) = vsm_map m" by auto
  then show ?thesis using assms None
    by (simp add: vsm_assign_def vsm_ok_def insert_set insert_sorted graph_map_upd)
next
  case (Some old)
  then have "(k, old) \<in> set (vsm_set m)" using assms by (simp add: vsm_ok_def in_graphI)
  moreover have "Map.graph (vsm_map m) - {(k, old)} = Map.graph ((vsm_map m)(k := None))"
    using Some by (auto simp: graph_def split: if_splits)
  ultimately show ?thesis using assms Some
    by (simp add: vsm_assign_def vsm_ok_def contains_iff insert_set insert_sorted erase_set erase_sorted graph_map_upd)
qed

lemma vsm_erase_ok:
  assumes "vsm_ok m"
  shows "vsm_ok (vsm_erase lt k m) \<and> vsm_map (vsm_erase lt k m) = (vsm_map m)(k := None)"
proof (cases "vsm_map m k")
  case None
  then show ?thesis using assms by (simp add: vsm_erase_def fun_upd_idem)
next
  case (Some old)
  then have "Map.graph (vsm_map m) - {(k, old)} = Map.graph ((vsm_map m)(k := None))"
    by (auto simp: graph_def split: if_splits)
  then show ?thesis using assms Some by (simp add: vsm_erase_def vsm_ok_def erase_set erase_sorted)
qed

lemma vsm_begin_first:
  assumes "vsm_ok m" "vsm_map m k = Some v"
  shows "\<exists>k' v'. vsm_begin m = Some (k', v') \<and> vsm_map m k' = Some v' \<and> ((k', v') = (k, v) \<or> lt (k', v') (k, v))"
proof -
  have mem: "(k, v) \<in> set (vsm_set m)" using assms by (simp add: vsm_ok_def in_graphI)
  then obtain p ps where ps: "vsm_set m = p # ps" by (cases "vsm_set m") auto
  then have "p \<in> Map.graph (vsm_map m)" using assms(1) by (auto simp: vsm_ok_def)
  then show ?thesis using mem ps assms(1)
    by (cases p) (auto simp: vsm_begin_def std_begin_def vsm_ok_def dest: in_graphD)
qed

end

section \<open>The bucketed priority queue\<close>

definition bpq_items :: "('p, 'e) BucketedPriorityQueue \<Rightarrow> ('p \<times> 'e) list" where
  "bpq_items q = concat (map (\<lambda>(p, xs). map (Pair p) xs) q)"

definition bpq_ok :: "('p \<Rightarrow> 'p \<Rightarrow> bool) \<Rightarrow> ('p, 'e) BucketedPriorityQueue \<Rightarrow> bool" where
  "bpq_ok gt q \<longleftrightarrow> sorted_wrt gt (map fst q) \<and> (\<forall>b \<in> set q. snd b \<noteq> [])"

lemma bpq_items_simps [simp]:
  "bpq_items [] = []"
  "bpq_items ((p, xs) # q) = map (Pair p) xs @ bpq_items q"
  by (simp_all add: bpq_items_def)

lemma bpq_ok_Nil [simp]: "bpq_ok gt []"
  by (simp add: bpq_ok_def)

lemma bpq_empty_iff: "bpq_ok gt q \<Longrightarrow> bpq_empty q \<longleftrightarrow> bpq_items q = []"
  by (cases q) (auto simp: bpq_empty_def bpq_ok_def)

lemma bpq_pop_ok:
  assumes "bpq_ok gt q" "bpq_items q = (p, x) # rest"
  shows "bpq_top q = Inr x" "\<exists>q'. bpq_pop q = Inr q' \<and> bpq_ok gt q' \<and> bpq_items q' = rest"
proof -
  obtain ys q0 where q: "q = (p, x # ys) # q0"
  proof (cases q)
    case (Cons b q0)
    then show thesis using that assms by (cases b; cases "snd b") (auto simp: bpq_ok_def)
  qed (use assms in simp)
  then show "bpq_top q = Inr x" by (simp add: bpq_top_def throwIfEmpty_def bpq_empty_def)
  show "\<exists>q'. bpq_pop q = Inr q' \<and> bpq_ok gt q' \<and> bpq_items q' = rest"
    using q assms by (auto simp: bpq_pop_def throwIfEmpty_def bpq_empty_def bpq_ok_def)
qed

context strict_order_on
begin

lemma bpq_emplace_fst: "p \<in> D \<Longrightarrow> fst ` set q \<subseteq> D \<Longrightarrow> fst ` set (bpq_emplace lt p x q) = insert p (fst ` set q)"
  using total by (induction q) (auto simp: image_iff)

lemma bpq_emplace_ok:
  "p \<in> D \<Longrightarrow> fst ` set q \<subseteq> D \<Longrightarrow> bpq_ok lt q \<Longrightarrow> bpq_ok lt (bpq_emplace lt p x q)"
proof (induction q)
  case (Cons b q)
  have "lt (fst b) z" if "z \<in> fst ` set (bpq_emplace lt p x q)" "lt (fst b) p" for z
    using that bpq_emplace_fst[of p q x] Cons.prems by (auto simp: bpq_ok_def)
  moreover have "lt p (fst c)" if "lt p (fst b)" "c \<in> set q" for c
    using that Cons.prems trans[of p "fst b" "fst c"] by (auto simp: bpq_ok_def)
  ultimately show ?case using Cons by (auto simp: bpq_ok_def)
qed (simp add: bpq_ok_def)

lemma bpq_emplace_items:
  "p \<in> D \<Longrightarrow> fst ` set q \<subseteq> D \<Longrightarrow> bpq_ok lt q \<Longrightarrow>
     bpq_items (bpq_emplace lt p x q)
     = filter (\<lambda>i. \<not> lt p (fst i)) (bpq_items q) @ (p, x) # filter (\<lambda>i. lt p (fst i)) (bpq_items q)"
proof (induction q)
  case (Cons b q)
  have later: "filter (\<lambda>i. \<not> lt p (fst i)) (bpq_items q) = []" "filter (\<lambda>i. lt p (fst i)) (bpq_items q) = bpq_items q"
    if "lt p (fst b) \<or> p = fst b"
  proof -
    have "lt p (fst i)" if "i \<in> set (bpq_items q)" for i
      using that \<open>lt p (fst b) \<or> p = fst b\<close> Cons.prems trans[of p "fst b" "fst i"]
      by (fastforce simp: bpq_ok_def bpq_items_def)
    then show "filter (\<lambda>i. \<not> lt p (fst i)) (bpq_items q) = []" "filter (\<lambda>i. lt p (fst i)) (bpq_items q) = bpq_items q"
      by (auto simp: filter_empty_conv filter_id_conv)
  qed
  have ok: "bpq_ok lt q" using Cons.prems by (auto simp: bpq_ok_def)
  consider "lt p (fst b)" | "lt (fst b) p" "\<not> lt p (fst b)" | "p = fst b" "\<not> lt p (fst b)"
    using total[of p "fst b"] asym[of p "fst b"] irrefl[of p] Cons.prems by force
  then show ?case
  proof cases
    case 1
    then show ?thesis using later by (cases b) (simp add: filter_empty_conv filter_id_conv)
  next
    case 2
    then show ?thesis using Cons.IH ok Cons.prems by (cases b) (auto simp: filter_id_conv)
  next
    case 3
    then show ?thesis using later irrefl[of p] Cons.prems by (cases b) (auto simp: filter_id_conv)
  qed
qed simp

lemma bpq_items_sorted:
  "bpq_ok lt q \<Longrightarrow> fst ` set q \<subseteq> D \<Longrightarrow> sorted_wrt (\<lambda>a b. \<not> lt (fst b) (fst a)) (bpq_items q)"
proof (induction q)
  case (Cons b q)
  have "\<not> lt (fst i) (fst b)" if "i \<in> set (bpq_items q)" for i
    using that Cons.prems asym[of "fst b" "fst i"] by (fastforce simp: bpq_ok_def bpq_items_def)
  moreover have "\<not> lt (fst b) (fst b)" using irrefl Cons.prems by auto
  then have "sorted_wrt (\<lambda>a b. \<not> lt (fst b) (fst a)) (map (Pair (fst b)) xs)" for xs :: "'b list" by (induction xs) auto
  ultimately show ?case using Cons by (cases b) (auto simp: sorted_wrt_append bpq_ok_def)
qed simp

text \<open>Simulation of the reference queue: same elements, in arrival order within a priority.\<close>

definition queue_sim :: "('a \<times> 'e) list \<Rightarrow> ('a, 'e) BucketedPriorityQueue \<Rightarrow> bool" where
  "queue_sim l q \<longleftrightarrow> bpq_ok lt q \<and> fst ` set q \<subseteq> D \<and>
     (\<forall>p. filter (\<lambda>i. fst i = p) (bpq_items q) = filter (\<lambda>i. fst i = p) l)"

lemma filter_fst_remove1:
  "filter (\<lambda>i. fst i = p) (remove1 x l) = (if fst x = p then remove1 x (filter (\<lambda>i. fst i = p) l) else filter (\<lambda>i. fst i = p) l)"
  by (induction l) auto

lemma queue_sim_set: "queue_sim l q \<Longrightarrow> set l = set (bpq_items q)"
proof -
  assume sim: "queue_sim l q"
  have "i \<in> set l \<longleftrightarrow> i \<in> set (bpq_items q)" for i
  proof -
    have "filter (\<lambda>j. fst j = fst i) (bpq_items q) = filter (\<lambda>j. fst j = fst i) l" using sim by (simp add: queue_sim_def)
    then have "set (filter (\<lambda>j. fst j = fst i) (bpq_items q)) = set (filter (\<lambda>j. fst j = fst i) l)" by simp
    then show ?thesis by auto
  qed
  then show ?thesis by blast
qed

lemma filter_fst_filter:
  "filter (\<lambda>i. fst i = r) (filter (\<lambda>i. P (fst i)) xs) = (if P r then filter (\<lambda>i. fst i = r) xs else [])"
  by (induction xs) auto

lemma queue_sim_push:
  assumes "queue_sim l q" "p \<in> D"
  shows "queue_sim (l @ [(p, x)]) (bpq_emplace lt p x q)"
proof -
  have q: "bpq_ok lt q" "fst ` set q \<subseteq> D" using assms(1) by (auto simp: queue_sim_def)
  have sim: "filter (\<lambda>i. fst i = r) (bpq_items q) = filter (\<lambda>i. fst i = r) l" for r using assms(1) by (simp add: queue_sim_def)
  have "filter (\<lambda>i. fst i = r) (bpq_items (bpq_emplace lt p x q)) = filter (\<lambda>i. fst i = r) (l @ [(p, x)])" for r
    unfolding bpq_emplace_items[OF assms(2) q(2,1)]
    unfolding filter_append filter.simps filter_fst_filter[of r "lt p"] filter_fst_filter[of r "\<lambda>r. \<not> lt p r"] sim
    using irrefl[OF assms(2)] by (cases "r = p") simp_all
  then show ?thesis using q bpq_emplace_ok[OF assms(2) q(2,1)] bpq_emplace_fst[OF assms(2) q(2)] assms(2)
    by (simp add: queue_sim_def)
qed

lemma queue_sim_pop:
  assumes sim: "queue_sim l q" and items: "bpq_items q = (p, x) # rest" and q': "bpq_ok lt q'" "bpq_items q' = rest" "fst ` set q' \<subseteq> D"
  shows "best lt l = Some (p, x)" "queue_sim (remove1 (p, x) l) q'"
proof -
  have fil: "filter (\<lambda>i. fst i = p) l = (p, x) # filter (\<lambda>i. fst i = p) rest"
  proof -
    have "filter (\<lambda>i. fst i = p) (bpq_items q) = filter (\<lambda>i. fst i = p) l" using sim by (simp add: queue_sim_def)
    then show ?thesis by (simp add: items)
  qed
  have ok: "bpq_ok lt q" "fst ` set q \<subseteq> D" using sim by (auto simp: queue_sim_def)
  have inD: "fst i \<in> D" if "i \<in> set (bpq_items q)" for i
    using that ok(2) by (force simp: bpq_items_def)
  have max: "\<not> lt (fst j) p" if "j \<in> set l" for j
    using that bpq_items_sorted[OF ok] items queue_sim_set[OF sim] irrefl[of p] inD[of "(p, x)"] by auto
  have only: "fst i = p" if "i \<in> set l" "\<forall>j \<in> set l. \<not> lt (fst j) (fst i)" for i
    using that total[of "fst i" p] max[OF that(1)] queue_sim_set[OF sim] items inD[of i] inD[of "(p, x)"] by force
  have first: "List.find P l = Some (p, x)" if "\<And>i. i \<in> set l \<Longrightarrow> P i \<longleftrightarrow> fst i = p" for P
    using that fil by (induction l) (auto split: if_splits)
  show "best lt l = Some (p, x)" unfolding best_def
  proof (rule first)
    fix i assume "i \<in> set l"
    then show "(\<forall>j \<in> set l. \<not> lt (fst j) (fst i)) \<longleftrightarrow> fst i = p" using only[of i] max by blast
  qed
  show "queue_sim (remove1 (p, x) l) q'"
    unfolding queue_sim_def
  proof (intro conjI allI q'(1,3))
    fix r
    show "filter (\<lambda>i. fst i = r) (bpq_items q') = filter (\<lambda>i. fst i = r) (remove1 (p, x) l)"
    proof (cases "r = p")
      case False
      have "filter (\<lambda>i. fst i = r) (bpq_items q) = filter (\<lambda>i. fst i = r) l" using sim by (simp add: queue_sim_def)
      then show ?thesis using False items q'(2) by (auto simp: filter_fst_remove1)
    qed (simp add: filter_fst_remove1 fil q'(2))
  qed
qed

lemma bpq_pop_fst: "bpq_pop q = Inr q' \<Longrightarrow> fst ` set q' \<subseteq> fst ` set q"
  by (auto simp: bpq_pop_def throwIfEmpty_def bpq_empty_def bindE_eq_Inr image_iff split: if_splits list.splits) force+

lemma bpq_run_fifo:
  "queue_sim l q \<Longrightarrow> (\<And>p x. Push p x \<in> set ops \<Longrightarrow> p \<in> D) \<Longrightarrow> bpq_run lt ops q = fifo_run lt ops l"
proof (induction ops arbitrary: l q)
  case (Cons oper ops)
  show ?case
  proof (cases oper)
    case (Push p x)
    then have "p \<in> D" using Cons.prems(2)[of p x] by simp
    then have "bpq_run lt ops (bpq_emplace lt p x q) = fifo_run lt ops (l @ [(p, x)])"
      using Cons.prems(2) by (intro Cons.IH[OF queue_sim_push[OF Cons.prems(1)]]) auto
    then show ?thesis using Push by simp
  next
    case Pop
    show ?thesis
    proof (cases "bpq_items q")
      case Nil
      then have "q = []" "l = []" using Cons.prems(1) queue_sim_set[OF Cons.prems(1)] bpq_empty_iff[of lt q]
        by (auto simp: queue_sim_def bpq_empty_def)
      then show ?thesis using Pop by (simp add: bpq_top_def throwIfEmpty_def bpq_empty_def best_def)
    next
      case (Cons i rest)
      obtain p x where i: "i = (p, x)" by (cases i)
      have ok: "bpq_ok lt q" "fst ` set q \<subseteq> D" using Cons.prems(1) by (auto simp: queue_sim_def)
      obtain q' where q': "bpq_top q = Inr x" "bpq_pop q = Inr q'" "bpq_ok lt q'" "bpq_items q' = rest"
        using bpq_pop_ok[OF ok(1) Cons[unfolded i]] by auto
      then have "best lt l = Some (p, x)" "queue_sim (remove1 (p, x) l) q'"
        using queue_sim_pop[OF Cons.prems(1) Cons[unfolded i]] bpq_pop_fst[OF q'(2)] ok(2) by auto
      then have "bpq_run lt ops q' = fifo_run lt ops (remove1 (p, x) l)" using Cons.prems(2) by (intro Cons.IH) auto
      then show ?thesis using Pop q'(1,2) \<open>best lt l = Some (p, x)\<close> by simp
    qed
  qed
qed simp

end

interpretation pri: strict_order_on priority_gt UNIV
proof unfold_locales
  show "priority_gt x y \<or> priority_gt y x" if "x \<noteq> y" for x y :: PriorityInfo
    using that by (cases x; cases y) (auto simp: priority_gt_def)
qed (auto simp: priority_gt_def split: if_splits)

text \<open>C12: The bucketed priority queue behaves as a FIFO priority queue: for every
  sequence of \<open>emplace\<close> and pop operations on the priorities of the expression
  graph, the elements come out exactly as from the reference queue, the highest
  priority first and in the order of their arrival within a priority, and
  popping raises an error exactly when nothing is queued.\<close>

theorem bucketed_queue_fifo: "bpq_run priority_gt ops [] = fifo_run priority_gt ops []"
  by (rule pri.bpq_run_fifo) (simp_all add: pri.queue_sim_def)

end
