(* ===== verification/Change_Sets.thy ===== *)
theory Change_Sets
  imports Rebalancer_Prelude "HOL-Library.AList"
begin

text \<open>
  Changes of an assignment (\<open>solver/utils/Change.{h,cpp}\<close>), indexed sets of
  them (\<open>solver/utils/ChangeSet.{h,cpp}\<close>) and the constraints under which bounds
  are computed (\<open>solver/utils/BoundConstraints.{h,cpp}\<close>). A hash map is an
  association list with distinct keys, a hash set of containers a finite set.
\<close>

section \<open>Definitions: changes\<close>

record Change =
  chObject :: ObjectId
  chContainer :: ContainerId
  chValue :: int

definition mkChange :: "ObjectId \<Rightarrow> ContainerId \<Rightarrow> int \<Rightarrow> Change result" where
  "mkChange obj cont v =
    (if v \<noteq> 1 \<and> v \<noteq> - 1 then Inl Runtime_error else Inr \<lparr>chObject = obj, chContainer = cont, chValue = v\<rparr>)"

record ChangeSet =
  changes :: "Change list"
  containerToChanges :: "(ContainerId \<times> Change list) list"
  objectToChanges :: "(ObjectId \<times> Change list) list"

definition emptyChangeSet :: ChangeSet where
  "emptyChangeSet = \<lparr>changes = [], containerToChanges = [], objectToChanges = []\<rparr>"

definition push_back_at :: "'k \<Rightarrow> 'v \<Rightarrow> ('k \<times> 'v list) list \<Rightarrow> ('k \<times> 'v list) list" where
  "push_back_at k v m = AList.map_default k [v] (\<lambda>vs. vs @ [v]) m"

definition index_change :: "Change \<Rightarrow> ChangeSet \<Rightarrow> ChangeSet" where
  "index_change c cs = cs\<lparr>containerToChanges := push_back_at (chContainer c) c (containerToChanges cs),
                           objectToChanges := push_back_at (chObject c) c (objectToChanges cs)\<rparr>"

definition mkChangeSet :: "Change list \<Rightarrow> ChangeSet" where
  "mkChangeSet chs = fold index_change chs (emptyChangeSet\<lparr>changes := chs\<rparr>)"

definition cs_insert :: "Change \<Rightarrow> ChangeSet \<Rightarrow> ChangeSet" where
  "cs_insert c cs = index_change c (cs\<lparr>changes := changes cs @ [c]\<rparr>)"

definition cs_size :: "ChangeSet \<Rightarrow> nat" where
  "cs_size cs = length (changes cs)"

definition cs_at :: "ChangeSet \<Rightarrow> nat \<Rightarrow> Change result" where
  "cs_at cs i = vec_at (changes cs) i"

definition cs_empty :: "ChangeSet \<Rightarrow> bool" where
  "cs_empty cs \<longleftrightarrow> changes cs = []"

definition invert_changes :: "Change list \<Rightarrow> Change list result" where
  "invert_changes chs = foldE (\<lambda>c acc. bindE (mkChange (chObject c) (chContainer c) (- chValue c)) (\<lambda>c'. Inr (acc @ [c']))) (rev chs) []"

definition getInverse :: "ChangeSet \<Rightarrow> ChangeSet result" where
  "getInverse cs = bindE (invert_changes (changes cs)) (\<lambda>chs. Inr (mkChangeSet chs))"

definition get_ref_default :: "('k \<times> 'v) list \<Rightarrow> 'k \<Rightarrow> 'v \<Rightarrow> 'v" where
  "get_ref_default m k d = (case map_of m k of None \<Rightarrow> d | Some v \<Rightarrow> v)"

definition getChangesByContainer :: "ChangeSet \<Rightarrow> ContainerId \<Rightarrow> Change list" where
  "getChangesByContainer cs c = get_ref_default (containerToChanges cs) c []"

definition getChangesByObject :: "ChangeSet \<Rightarrow> ObjectId \<Rightarrow> Change list" where
  "getChangesByObject cs obj = get_ref_default (objectToChanges cs) obj []"

definition getChangeSizeForContainers :: "ChangeSet \<Rightarrow> ContainerId list \<Rightarrow> nat" where
  "getChangeSizeForContainers cs conts =
     fold (\<lambda>c sz. sz + length (get_ref_default (containerToChanges cs) c [])) conts 0"

definition getChangeSizeForObjects :: "ChangeSet \<Rightarrow> ObjectId list \<Rightarrow> nat" where
  "getChangeSizeForObjects cs objs =
     fold (\<lambda>obj sz. sz + length (get_ref_default (objectToChanges cs) obj [])) objs 0"

definition getObjectsInChangeSet :: "ChangeSet \<Rightarrow> ObjectId list" where
  "getObjectsInChangeSet cs = map fst (objectToChanges cs)"

definition getContainersInChangeSet :: "ChangeSet \<Rightarrow> ContainerId list" where
  "getContainersInChangeSet cs = map fst (containerToChanges cs)"

definition representsSingleMove :: "ChangeSet \<Rightarrow> bool" where
  "representsSingleMove cs \<longleftrightarrow>
     length (changes cs) = 2 \<and> length (objectToChanges cs) = 1 \<and> length (containerToChanges cs) = 2 \<and>
     chValue (changes cs ! 0) + chValue (changes cs ! 1) = 0"

section \<open>Definitions: constraints on bounds\<close>

record BoundConstraints =
  dynamicContainers :: "ContainerId set option"
  notGiving :: "ContainerId set option"
  notTaking :: "ContainerId set option"

definition noConstraints :: BoundConstraints where
  "noConstraints = \<lparr>dynamicContainers = None, notGiving = None, notTaking = None\<rparr>"

definition bc_isEmpty :: "BoundConstraints \<Rightarrow> bool" where
  "bc_isEmpty bc \<longleftrightarrow> \<not> (dynamicContainers bc \<noteq> None \<or> notGiving bc \<noteq> None \<or> notTaking bc \<noteq> None)"

definition bc_throwIfEmpty :: "BoundConstraints \<Rightarrow> unit result" where
  "bc_throwIfEmpty bc = (if bc_isEmpty bc then Inl Runtime_error else Inr ())"

definition inDynamicContainerSet :: "BoundConstraints \<Rightarrow> ContainerId \<Rightarrow> bool" where
  "inDynamicContainerSet bc c = (case dynamicContainers bc of None \<Rightarrow> True | Some D \<Rightarrow> c \<in> D)"

definition anyInDynamicContainerSet :: "BoundConstraints \<Rightarrow> ContainerId set \<Rightarrow> bool" where
  "anyInDynamicContainerSet bc cs =
    (case dynamicContainers bc of
       None \<Rightarrow> True
     | Some D \<Rightarrow> if card D < card cs then \<exists>c \<in> D. c \<in> cs else \<exists>c \<in> cs. c \<in> D)"

definition giving :: "BoundConstraints \<Rightarrow> ContainerId \<Rightarrow> bool result" where
  "giving bc c = bindE (bc_throwIfEmpty bc) (\<lambda>_.
     case notGiving bc of None \<Rightarrow> Inr (inDynamicContainerSet bc c) | Some N \<Rightarrow> Inr (c \<notin> N))"

definition taking :: "BoundConstraints \<Rightarrow> ContainerId \<Rightarrow> bool result" where
  "taking bc c = bindE (bc_throwIfEmpty bc) (\<lambda>_.
     case notTaking bc of None \<Rightarrow> Inr (inDynamicContainerSet bc c) | Some N \<Rightarrow> Inr (c \<notin> N))"

definition anyGiving :: "BoundConstraints \<Rightarrow> ContainerId set \<Rightarrow> bool result" where
  "anyGiving bc cs = bindE (bc_throwIfEmpty bc) (\<lambda>_.
     case notGiving bc of
       None \<Rightarrow> Inr (anyInDynamicContainerSet bc cs)
     | Some N \<Rightarrow> if card N < card cs then Inr True else Inr (\<exists>c \<in> cs. c \<notin> N))"

definition anyTaking :: "BoundConstraints \<Rightarrow> ContainerId set \<Rightarrow> bool result" where
  "anyTaking bc cs = bindE (bc_throwIfEmpty bc) (\<lambda>_.
     case notTaking bc of
       None \<Rightarrow> Inr (anyInDynamicContainerSet bc cs)
     | Some N \<Rightarrow> if card N < card cs then Inr True else Inr (\<exists>c \<in> cs. c \<notin> N))"

record BoundConstraintsBuilder = BoundConstraints + bcBuilt :: bool

definition checkNotBuilt :: "BoundConstraintsBuilder \<Rightarrow> unit result" where
  "checkNotBuilt b = (if bcBuilt b then Inl Runtime_error else Inr ())"

definition setDynamicContainers :: "ContainerId set \<Rightarrow> BoundConstraintsBuilder \<Rightarrow> BoundConstraintsBuilder result" where
  "setDynamicContainers D b = bindE (checkNotBuilt b) (\<lambda>_. Inr (b\<lparr>dynamicContainers := Some D\<rparr>))"

definition setNotGivingContainers :: "ContainerId set \<Rightarrow> BoundConstraintsBuilder \<Rightarrow> BoundConstraintsBuilder result" where
  "setNotGivingContainers N b = bindE (checkNotBuilt b) (\<lambda>_. Inr (b\<lparr>notGiving := Some N\<rparr>))"

definition setNotTakingContainers :: "ContainerId set \<Rightarrow> BoundConstraintsBuilder \<Rightarrow> BoundConstraintsBuilder result" where
  "setNotTakingContainers N b = bindE (checkNotBuilt b) (\<lambda>_. Inr (b\<lparr>notTaking := Some N\<rparr>))"

text \<open>\<open>build\<close> returns the constraints and the builder it leaves behind, with moved-from sets.\<close>

definition bc_build :: "BoundConstraintsBuilder \<Rightarrow> (BoundConstraints \<times> BoundConstraintsBuilder) result" where
  "bc_build b = bindE (checkNotBuilt b) (\<lambda>_.
     if dynamicContainers b \<noteq> None \<and> (notGiving b \<noteq> None \<or> notTaking b \<noteq> None) then Inl Runtime_error
     else Inr (\<lparr>dynamicContainers = dynamicContainers b, notGiving = notGiving b, notTaking = notTaking b\<rparr>,
               b\<lparr>bcBuilt := True\<rparr>))"

section \<open>The indexes of a change set\<close>

lemma map_of_push_back_at:
  "map_of (push_back_at k v m) = (map_of m)(k \<mapsto> (case map_of m k of None \<Rightarrow> [v] | Some vs \<Rightarrow> vs @ [v]))"
  by (auto simp: push_back_at_def map_of_map_default split: option.splits)

lemma distinct_push_back_at: "distinct (map fst m) \<Longrightarrow> distinct (map fst (push_back_at k v m))"
  by (simp add: push_back_at_def distinct_map_default)

definition index_of :: "('c \<Rightarrow> 'k) \<Rightarrow> 'c list \<Rightarrow> ('k \<times> 'c list) list \<Rightarrow> bool" where
  "index_of key chs m \<longleftrightarrow> distinct (map fst m) \<and>
     (\<forall>k. map_of m k = (if k \<in> key ` set chs then Some (filter (\<lambda>c. key c = k) chs) else None))"

lemma filter_key_empty: "k \<notin> key ` set chs \<Longrightarrow> filter (\<lambda>c. key c = k) chs = []"
  by (auto simp: filter_empty_conv)

lemma index_of_Nil [simp]: "index_of key [] []"
  by (simp add: index_of_def)

lemma index_of_push: "index_of key chs m \<Longrightarrow> index_of key (chs @ [c]) (push_back_at (key c) c m)"
  by (auto simp: index_of_def distinct_push_back_at map_of_push_back_at filter_key_empty)

lemma index_of_keys: "index_of key chs m \<Longrightarrow> fst ` set m = key ` set chs"
proof -
  assume "index_of key chs m"
  then have "map_of m k = None \<longleftrightarrow> k \<notin> key ` set chs" for k by (simp add: index_of_def)
  then show ?thesis by (auto simp: map_of_eq_None_iff)
qed

lemma index_of_get: "index_of key chs m \<Longrightarrow> get_ref_default m k [] = filter (\<lambda>c. key c = k) chs"
  by (simp add: index_of_def get_ref_default_def filter_key_empty)

lemma index_of_length: "index_of key chs m \<Longrightarrow> length m = card (key ` set chs)"
  using index_of_keys[of key chs m] distinct_card[of "map fst m"] by (auto simp: index_of_def)

definition cs_ok :: "ChangeSet \<Rightarrow> bool" where
  "cs_ok cs \<longleftrightarrow> index_of chContainer (changes cs) (containerToChanges cs) \<and> index_of chObject (changes cs) (objectToChanges cs)"

lemma cs_insert_ok: "cs_ok cs \<Longrightarrow> cs_ok (cs_insert c cs)"
  by (simp add: cs_ok_def cs_insert_def index_change_def index_of_push)

lemma changes_fold_index [simp]: "changes (fold index_change chs cs) = changes cs"
  by (induction chs arbitrary: cs) (simp_all add: index_change_def)

lemma fold_index_ok:
  "index_of chContainer pre (containerToChanges cs) \<Longrightarrow> index_of chObject pre (objectToChanges cs) \<Longrightarrow>
     index_of chContainer (pre @ chs) (containerToChanges (fold index_change chs cs)) \<and>
     index_of chObject (pre @ chs) (objectToChanges (fold index_change chs cs))"
proof (induction chs arbitrary: pre cs)
  case (Cons c chs)
  then show ?case
    using Cons.IH[of "pre @ [c]" "index_change c cs"] by (simp add: index_change_def index_of_push)
qed simp

lemma mkChangeSet_ok: "cs_ok (mkChangeSet chs)" "changes (mkChangeSet chs) = chs"
  using fold_index_ok[of "[]" "emptyChangeSet\<lparr>changes := chs\<rparr>" chs]
  by (simp_all add: cs_ok_def mkChangeSet_def emptyChangeSet_def)

section \<open>Inversion\<close>

definition opposite :: "Change \<Rightarrow> Change" where
  "opposite c = c\<lparr>chValue := - chValue c\<rparr>"

definition valid_change :: "Change \<Rightarrow> bool" where
  "valid_change c \<longleftrightarrow> chValue c = 1 \<or> chValue c = - 1"

lemma opposite_simps [simp]:
  "opposite (opposite c) = c" "valid_change (opposite c) = valid_change c"
  "chObject (opposite c) = chObject c" "chContainer (opposite c) = chContainer c" "chValue (opposite c) = - chValue c"
  by (auto simp: opposite_def valid_change_def)

lemma mkChange_opposite: "valid_change c \<Longrightarrow> mkChange (chObject c) (chContainer c) (- chValue c) = Inr (opposite c)"
  by (cases c) (auto simp: mkChange_def opposite_def valid_change_def)

lemma invert_loop:
  "list_all valid_change chs \<Longrightarrow>
     foldE (\<lambda>c acc. bindE (mkChange (chObject c) (chContainer c) (- chValue c)) (\<lambda>c'. Inr (acc @ [c']))) chs acc
     = Inr (acc @ map opposite chs)"
  by (induction chs arbitrary: acc) (simp_all add: mkChange_opposite)

lemma invert_changes_eq: "list_all valid_change chs \<Longrightarrow> invert_changes chs = Inr (rev (map opposite chs))"
  using invert_loop[of "rev chs" "[]"] by (simp add: invert_changes_def rev_map)

text \<open>What a list of changes adds to the presence of an object in a container.\<close>

definition net_change :: "Change list \<Rightarrow> ObjectId \<Rightarrow> ContainerId \<Rightarrow> int" where
  "net_change chs obj c = sum_list (map chValue (filter (\<lambda>ch. chObject ch = obj \<and> chContainer ch = c) chs))"

lemma net_change_append: "net_change (xs @ ys) obj c = net_change xs obj c + net_change ys obj c"
  by (simp add: net_change_def)

lemma net_change_opposite: "net_change (rev (map opposite chs)) obj c = - net_change chs obj c"
  by (induction chs) (simp_all add: net_change_append, simp_all add: net_change_def)

section \<open>Properties\<close>

text \<open>C15: Undoing a change set: for every list of valid changes \<open>getInverse\<close>
  succeeds, its result cancels the changes at every object and container, and
  inverting it again gives back the original change set with its indexes.\<close>

theorem change_set_inverse_roundtrip:
  assumes "list_all valid_change chs"
  shows "\<exists>undo. getInverse (mkChangeSet chs) = Inr undo \<and> getInverse undo = Inr (mkChangeSet chs) \<and>
     (\<forall>obj c. net_change (changes (mkChangeSet chs)) obj c + net_change (changes undo) obj c = 0)"
proof -
  have "list_all valid_change (rev (map opposite chs))" using assms by (simp add: list_all_iff)
  then show ?thesis
    using assms net_change_opposite[of chs]
    by (simp add: getInverse_def mkChangeSet_ok invert_changes_eq rev_map comp_def)
qed

theorem change_set_inverse_roundtrip_witness:
  "\<exists>undo. getInverse (mkChangeSet [\<lparr>chObject = 1, chContainer = 2, chValue = - 1\<rparr>, \<lparr>chObject = 1, chContainer = 3, chValue = 1\<rparr>]) = Inr undo"
  using change_set_inverse_roundtrip[of "[\<lparr>chObject = 1, chContainer = 2, chValue = - 1\<rparr>, \<lparr>chObject = 1, chContainer = 3, chValue = 1\<rparr>]"]
  by (auto simp: valid_change_def)

lemma inserts_ok:
  "cs_ok cs \<Longrightarrow> cs_ok (fold cs_insert chs cs) \<and> changes (fold cs_insert chs cs) = changes cs @ chs"
proof (induction chs arbitrary: cs)
  case (Cons c chs)
  have "changes (cs_insert c cs) = changes cs @ [c]" by (simp add: cs_insert_def index_change_def)
  then show ?case using Cons.IH[OF cs_insert_ok[OF Cons.prems]] by simp
qed simp

lemma single_move_iff:
  assumes "cs_ok cs"
  shows "representsSingleMove cs \<longleftrightarrow>
     (\<exists>obj a b v. a \<noteq> b \<and> changes cs = [\<lparr>chObject = obj, chContainer = a, chValue = v\<rparr>, \<lparr>chObject = obj, chContainer = b, chValue = - v\<rparr>])"
    (is "_ \<longleftrightarrow> ?spec")
proof
  have len: "length (objectToChanges cs) = card (chObject ` set (changes cs))"
      "length (containerToChanges cs) = card (chContainer ` set (changes cs))"
    using assms index_of_length by (auto simp: cs_ok_def)
  show "?spec \<Longrightarrow> representsSingleMove cs" by (auto simp: representsSingleMove_def len card_insert_if)
  assume single: "representsSingleMove cs"
  then obtain x y where xy: "changes cs = [x, y]"
    by (auto simp: representsSingleMove_def length_Suc_conv numeral_2_eq_2)
  then have "chObject x = chObject y" "chContainer x \<noteq> chContainer y" "chValue x + chValue y = 0"
    using single by (auto simp: representsSingleMove_def len card_insert_if split: if_splits)
  then show ?spec using xy by (intro exI[of _ "chObject x"] exI[of _ "chContainer x"] exI[of _ "chContainer y"] exI[of _ "chValue x"])
      (cases x; cases y; simp)
qed

text \<open>C16: The indexes of a change set never drift from its changes: however it is
  built, from a vector and by further insertions, the changes by container and
  by object are the changes with that key in order, the keys are exactly those
  that occur, and \<open>representsSingleMove\<close> holds exactly for one object that leaves
  one container for another.\<close>

theorem change_set_indexes_agree:
  "let cs = fold cs_insert later (mkChangeSet chs) in
   changes cs = chs @ later
   \<and> (\<forall>c. getChangesByContainer cs c = filter (\<lambda>ch. chContainer ch = c) (chs @ later))
   \<and> (\<forall>obj. getChangesByObject cs obj = filter (\<lambda>ch. chObject ch = obj) (chs @ later))
   \<and> set (getContainersInChangeSet cs) = chContainer ` set (chs @ later)
   \<and> set (getObjectsInChangeSet cs) = chObject ` set (chs @ later)
   \<and> (representsSingleMove cs \<longleftrightarrow>
        (\<exists>obj a b v. a \<noteq> b \<and> chs @ later = [\<lparr>chObject = obj, chContainer = a, chValue = v\<rparr>, \<lparr>chObject = obj, chContainer = b, chValue = - v\<rparr>]))"
proof -
  define cs where "cs = fold cs_insert later (mkChangeSet chs)"
  have ok: "cs_ok cs" and chs: "changes cs = chs @ later"
    using inserts_ok[OF mkChangeSet_ok(1), of later chs] by (simp_all add: cs_def mkChangeSet_ok)
  then have idx: "index_of chContainer (chs @ later) (containerToChanges cs)" "index_of chObject (chs @ later) (objectToChanges cs)"
    by (simp_all add: cs_ok_def)
  show ?thesis
    unfolding cs_def[symmetric] Let_def single_move_iff[OF ok] chs getChangesByContainer_def getChangesByObject_def
      getContainersInChangeSet_def getObjectsInChangeSet_def set_map index_of_keys[OF idx(1)] index_of_keys[OF idx(2)]
      index_of_get[OF idx(1)] index_of_get[OF idx(2)]
    by simp
qed

lemma any_dynamic_iff:
  "cs \<noteq> {} \<Longrightarrow> anyInDynamicContainerSet bc cs \<longleftrightarrow> (\<exists>c \<in> cs. inDynamicContainerSet bc c)"
  by (auto simp: anyInDynamicContainerSet_def inDynamicContainerSet_def split: option.splits)

lemma smaller_set_misses: "finite N \<Longrightarrow> finite cs \<Longrightarrow> card N < card cs \<Longrightarrow> \<exists>c \<in> cs. c \<notin> N"
  by (meson card_mono not_le subsetI)

text \<open>C17: The set queries of the bound constraints are the disjunction of the
  single queries: although \<open>anyGiving\<close> and \<open>anyTaking\<close> iterate over the smaller
  set or answer from the sizes alone, for every non-empty finite set of
  containers they hold exactly when some container of it is giving (taking), and
  they raise exactly when the single query does.\<close>

theorem any_giving_taking_exact:
  assumes "finite cs" "cs \<noteq> {}" "\<forall>N \<in> set_option (notGiving bc) \<union> set_option (notTaking bc). finite N"
  shows "anyGiving bc cs = (if bc_isEmpty bc then Inl Runtime_error else Inr (\<exists>c \<in> cs. giving bc c = Inr True))
       \<and> anyTaking bc cs = (if bc_isEmpty bc then Inl Runtime_error else Inr (\<exists>c \<in> cs. taking bc c = Inr True))"
  using any_dynamic_iff[OF assms(2), of bc] smaller_set_misses[OF _ assms(1)] assms(3)
  by (auto simp: anyGiving_def anyTaking_def giving_def taking_def bc_throwIfEmpty_def split: option.splits)

theorem any_giving_taking_exact_witness:
  "anyGiving \<lparr>dynamicContainers = None, notGiving = Some {1}, notTaking = None\<rparr> {1, 2} = Inr True"
  using any_giving_taking_exact[of "{1, 2}" "\<lparr>dynamicContainers = None, notGiving = Some {1}, notTaking = None\<rparr>"]
  by (simp add: bc_isEmpty_def giving_def bc_throwIfEmpty_def)

end
