(* ===== verification/Indexed_Assignment.thy ===== *)
theory Indexed_Assignment
  imports Object_Store
begin

text \<open>
  \<open>IndexedAssignment\<close> (\<open>solver/utils/IndexedAssignment.h\<close>): the objects of every
  container, grouped by a primary and possibly a secondary index. The template
  parameters are the operations of the buckets, a record: a bucket is an
  \<open>ObjectStore\<close>, a hash set, or a map from the secondary index to hash sets. The
  locale \<open>bucket_laws\<close> is what the index relies on from its buckets.
\<close>

section \<open>Definitions\<close>

record ('x, 'i, 's) bucket_ops =
  bk_add :: "ObjectId \<Rightarrow> 'x \<Rightarrow> 's \<Rightarrow> 's result"
  bk_remove :: "ObjectId \<Rightarrow> 'x \<Rightarrow> 's \<Rightarrow> 's result"
  bk_empty :: "'s \<Rightarrow> bool"
  bk_fresh :: 's
  getPrimaryIndex :: "'x \<Rightarrow> 'i"

record ('x, 'i, 's) IndexedAssignment =
  containerToIndexedObjects :: "ContainerId \<rightharpoonup> ('i \<rightharpoonup> 's)"
  objectToIndex :: "ObjectId \<rightharpoonup> 'x"

definition getObjectIndex :: "('x, 'i, 's) IndexedAssignment \<Rightarrow> ObjectId \<Rightarrow> 'x result" where
  "getObjectIndex ia obj = (case objectToIndex ia obj of None \<Rightarrow> Inl Out_of_range | Some x \<Rightarrow> Inr x)"

text \<open>\<open>containerToIndexedObjects_[c]\<close>, then \<open>findOrAdd\<close>, then \<open>add\<close> into that bucket.\<close>

definition add_indexed :: "('x, 'i, 's) bucket_ops \<Rightarrow> ObjectId \<Rightarrow> 'x \<Rightarrow> ContainerId \<Rightarrow> ('x, 'i, 's) IndexedAssignment \<Rightarrow> ('x, 'i, 's) IndexedAssignment result" where
  "add_indexed ops obj x c ia =
    (let m = (case containerToIndexedObjects ia c of None \<Rightarrow> Map.empty | Some m \<Rightarrow> m);
         i = getPrimaryIndex ops x;
         s = (case m i of None \<Rightarrow> bk_fresh ops | Some s \<Rightarrow> s)
     in bindE (bk_add ops obj x s) (\<lambda>s'.
          Inr (ia\<lparr>containerToIndexedObjects := (containerToIndexedObjects ia)(c \<mapsto> m(i \<mapsto> s'))\<rparr>)))"

definition setOn :: "('x, 'i, 's) bucket_ops \<Rightarrow> ObjectId \<Rightarrow> ContainerId \<Rightarrow> ('x, 'i, 's) IndexedAssignment \<Rightarrow> ('x, 'i, 's) IndexedAssignment result" where
  "setOn ops obj c ia = bindE (getObjectIndex ia obj) (\<lambda>x. add_indexed ops obj x c ia)"

definition removeFrom :: "('x, 'i, 's) bucket_ops \<Rightarrow> ObjectId \<Rightarrow> ContainerId \<Rightarrow> ('x, 'i, 's) IndexedAssignment \<Rightarrow> ('x, 'i, 's) IndexedAssignment result" where
  "removeFrom ops obj c ia = bindE (getObjectIndex ia obj) (\<lambda>x.
     case containerToIndexedObjects ia c of
       None \<Rightarrow> Inl Out_of_range
     | Some m \<Rightarrow>
         let i = getPrimaryIndex ops x in
         (case m i of
            None \<Rightarrow> Inl Runtime_error
          | Some s \<Rightarrow> bindE (bk_remove ops obj x s) (\<lambda>s'.
              Inr (ia\<lparr>containerToIndexedObjects :=
                (containerToIndexedObjects ia)(c \<mapsto> m(i := if bk_empty ops s' then None else Some s'))\<rparr>))))"

definition getContainerObjects :: "('x, 'i, 's) IndexedAssignment \<Rightarrow> ContainerId \<Rightarrow> ('i \<rightharpoonup> 's) result" where
  "getContainerObjects ia c = (case containerToIndexedObjects ia c of None \<Rightarrow> Inl Runtime_error | Some m \<Rightarrow> Inr m)"

text \<open>The constructor: for every container, in hash order, its objects in iteration order.\<close>

definition index_object :: "('x, 'i, 's) bucket_ops \<Rightarrow> (ObjectId \<Rightarrow> 'x result) \<Rightarrow> ContainerId \<Rightarrow> ObjectId \<Rightarrow> ('x, 'i, 's) IndexedAssignment \<Rightarrow> ('x, 'i, 's) IndexedAssignment result" where
  "index_object ops getObjectIndexFunc c obj ia =
     bindE (getObjectIndexFunc obj) (\<lambda>x.
       let ia' = (if objectToIndex ia obj = None then ia\<lparr>objectToIndex := (objectToIndex ia)(obj \<mapsto> x)\<rparr> else ia)
       in add_indexed ops obj x c ia')"

definition index_container :: "('x, 'i, 's) bucket_ops \<Rightarrow> (ObjectId \<Rightarrow> 'x result) \<Rightarrow> ContainerId \<times> ObjectId list \<Rightarrow> ('x, 'i, 's) IndexedAssignment \<Rightarrow> ('x, 'i, 's) IndexedAssignment result" where
  "index_container ops getObjectIndexFunc = (\<lambda>(c, objects) ia.
     foldE (index_object ops getObjectIndexFunc c) objects
       (ia\<lparr>containerToIndexedObjects := (containerToIndexedObjects ia)
             (c \<mapsto> (case containerToIndexedObjects ia c of None \<Rightarrow> Map.empty | Some m \<Rightarrow> m))\<rparr>))"

definition mkIndexedAssignment :: "('x, 'i, 's) bucket_ops \<Rightarrow> (ObjectId \<Rightarrow> 'x result) \<Rightarrow> (ContainerId \<times> ObjectId list) list \<Rightarrow> ('x, 'i, 's) IndexedAssignment result" where
  "mkIndexedAssignment ops getObjectIndexFunc containerToObjectsDynamic =
     foldE (index_container ops getObjectIndexFunc) containerToObjectsDynamic
       \<lparr>containerToIndexedObjects = Map.empty, objectToIndex = Map.empty\<rparr>"

text \<open>The three instances of the template.\<close>

definition storeBuckets :: "(ObjectId \<Rightarrow> real) option \<Rightarrow> (nat, nat, ObjectStore) bucket_ops" where
  "storeBuckets scores = \<lparr>bk_add = (\<lambda>obj x s. store_insert obj s), bk_remove = (\<lambda>obj x s. store_erase obj s),
     bk_empty = store_empty, bk_fresh = factory_get scores False, getPrimaryIndex = (\<lambda>x. x)\<rparr>"

definition setBuckets :: "(nat, nat, ObjectId set) bucket_ops" where
  "setBuckets = \<lparr>bk_add = (\<lambda>obj x A. Inr (insert obj A)), bk_remove = (\<lambda>obj x A. Inr (A - {obj})),
     bk_empty = (\<lambda>A. A = {}), bk_fresh = {}, getPrimaryIndex = (\<lambda>x. x)\<rparr>"

definition nested_add :: "ObjectId \<Rightarrow> nat \<times> nat \<Rightarrow> (nat \<rightharpoonup> ObjectId set) \<Rightarrow> (nat \<rightharpoonup> ObjectId set) result" where
  "nested_add obj x m = Inr (m(snd x \<mapsto> insert obj (case m (snd x) of None \<Rightarrow> {} | Some A \<Rightarrow> A)))"

definition nested_remove :: "ObjectId \<Rightarrow> nat \<times> nat \<Rightarrow> (nat \<rightharpoonup> ObjectId set) \<Rightarrow> (nat \<rightharpoonup> ObjectId set) result" where
  "nested_remove obj x m =
    (case m (snd x) of
       None \<Rightarrow> Inl Runtime_error
     | Some A \<Rightarrow> Inr (m(snd x := if A - {obj} = {} then None else Some (A - {obj}))))"

definition nestedBuckets :: "(nat \<times> nat, nat, nat \<rightharpoonup> ObjectId set) bucket_ops" where
  "nestedBuckets = \<lparr>bk_add = nested_add, bk_remove = nested_remove,
     bk_empty = (\<lambda>m. m = Map.empty), bk_fresh = Map.empty, getPrimaryIndex = fst\<rparr>"

text \<open>Where a list of containers and their objects places the objects.\<close>

definition placement :: "(ContainerId \<times> ObjectId list) list \<Rightarrow> ContainerId \<Rightarrow> ObjectId set" where
  "placement cobjs c = \<Union> (set ` snd ` {e \<in> set cobjs. fst e = c})"

lemma placement_simps [simp]:
  "placement [] = (\<lambda>_. {})"
  "placement ((c, objs) # cobjs) = (placement cobjs)(c := set objs \<union> placement cobjs c)"
  by (auto simp: placement_def fun_eq_iff)

section \<open>What the index relies on from its buckets\<close>

text \<open>\<open>rep f s A\<close>: the bucket \<open>s\<close> holds the objects \<open>A\<close>, whose indexes \<open>f\<close> gives.\<close>

locale bucket_laws =
  fixes ops :: "('x, 'i, 's) bucket_ops"
    and rep :: "(ObjectId \<Rightarrow> 'x) \<Rightarrow> 's \<Rightarrow> ObjectId set \<Rightarrow> bool"
  assumes rep_fresh: "rep f (bk_fresh ops) {}"
    and rep_add: "rep f s A \<Longrightarrow> obj \<in> objectIdRange \<Longrightarrow> \<exists>s'. bk_add ops obj (f obj) s = Inr s' \<and> rep f s' (insert obj A)"
    and rep_remove: "rep f s A \<Longrightarrow> obj \<in> A \<Longrightarrow> obj \<in> objectIdRange \<Longrightarrow> \<exists>s'. bk_remove ops obj (f obj) s = Inr s' \<and> rep f s' (A - {obj})"
    and rep_empty: "rep f s A \<Longrightarrow> bk_empty ops s \<longleftrightarrow> A = {}"
begin

definition bucket_of :: "(ObjectId \<Rightarrow> 'x) \<Rightarrow> ObjectId set \<Rightarrow> 'i \<Rightarrow> ObjectId set" where
  "bucket_of f A i = {obj \<in> A. getPrimaryIndex ops (f obj) = i}"

definition buckets_ok :: "(ObjectId \<Rightarrow> 'x) \<Rightarrow> ObjectId set \<Rightarrow> ('i \<rightharpoonup> 's) \<Rightarrow> bool" where
  "buckets_ok f A m \<longleftrightarrow>
     (\<forall>i. m i = None \<longrightarrow> bucket_of f A i = {}) \<and>
     (\<forall>i s. m i = Some s \<longrightarrow> bucket_of f A i \<noteq> {} \<and> rep f s (bucket_of f A i))"

text \<open>The index \<open>ia\<close> describes the placement \<open>P\<close> of the objects.\<close>

definition index_ok :: "(ObjectId \<Rightarrow> 'x) \<Rightarrow> (ContainerId \<Rightarrow> ObjectId set) \<Rightarrow> ('x, 'i, 's) IndexedAssignment \<Rightarrow> bool" where
  "index_ok f P ia \<longleftrightarrow>
     (\<forall>c. containerToIndexedObjects ia c = None \<longrightarrow> P c = {}) \<and>
     (\<forall>c m. containerToIndexedObjects ia c = Some m \<longrightarrow> buckets_ok f (P c) m) \<and>
     (\<forall>c. \<forall>obj \<in> P c. objectToIndex ia obj = Some (f obj) \<and> obj \<in> objectIdRange)"

lemma bucket_of_insert:
  "bucket_of f (insert obj A) i = (if getPrimaryIndex ops (f obj) = i then insert obj (bucket_of f A i) else bucket_of f A i)"
  by (auto simp: bucket_of_def)

lemma bucket_of_remove:
  "bucket_of f (A - {obj}) i = (if getPrimaryIndex ops (f obj) = i then bucket_of f A i - {obj} else bucket_of f A i)"
  by (auto simp: bucket_of_def)

lemma buckets_ok_empty [simp]: "buckets_ok f {} Map.empty"
  by (simp add: buckets_ok_def bucket_of_def)

lemma buckets_add:
  assumes "buckets_ok f A m" "obj \<in> objectIdRange"
  shows "\<exists>s'. bk_add ops obj (f obj) (case m (getPrimaryIndex ops (f obj)) of None \<Rightarrow> bk_fresh ops | Some s \<Rightarrow> s) = Inr s' \<and>
     buckets_ok f (insert obj A) (m(getPrimaryIndex ops (f obj) \<mapsto> s'))"
proof -
  define i where "i = getPrimaryIndex ops (f obj)"
  have "rep f (case m i of None \<Rightarrow> bk_fresh ops | Some s \<Rightarrow> s) (bucket_of f A i)"
    using assms(1) rep_fresh[of f] unfolding buckets_ok_def by (cases "m i") simp_all
  from rep_add[OF this assms(2)] obtain s'
    where "bk_add ops obj (f obj) (case m i of None \<Rightarrow> bk_fresh ops | Some s \<Rightarrow> s) = Inr s'" "rep f s' (insert obj (bucket_of f A i))" by blast
  then show ?thesis using assms(1) unfolding i_def[symmetric] buckets_ok_def
    by (auto simp: bucket_of_insert i_def[symmetric])
qed

lemma buckets_remove:
  assumes "buckets_ok f A m" "obj \<in> A" "obj \<in> objectIdRange"
  shows "\<exists>s s'. m (getPrimaryIndex ops (f obj)) = Some s \<and> bk_remove ops obj (f obj) s = Inr s' \<and>
     buckets_ok f (A - {obj}) (m(getPrimaryIndex ops (f obj) := if bk_empty ops s' then None else Some s'))"
proof -
  define i where "i = getPrimaryIndex ops (f obj)"
  have mem: "obj \<in> bucket_of f A i" using assms(2) by (simp add: bucket_of_def i_def)
  then obtain s where s: "m i = Some s" "rep f s (bucket_of f A i)"
    using assms(1) unfolding buckets_ok_def by (cases "m i") auto
  from rep_remove[OF s(2) mem assms(3)] obtain s'
    where s': "bk_remove ops obj (f obj) s = Inr s'" "rep f s' (bucket_of f A i - {obj})" by blast
  have "buckets_ok f (A - {obj}) (m(i := if bk_empty ops s' then None else Some s'))"
    using assms(1) s'(2) rep_empty[OF s'(2)] unfolding buckets_ok_def
    by (auto simp: bucket_of_remove i_def[symmetric])
  then show ?thesis using s(1) s'(1) unfolding i_def by blast
qed

lemma add_indexed_ok:
  assumes "index_ok f P ia" "obj \<in> objectIdRange" "objectToIndex ia obj = Some (f obj)"
  shows "\<exists>ia'. add_indexed ops obj (f obj) c ia = Inr ia' \<and> index_ok f (P(c := insert obj (P c))) ia' \<and> objectToIndex ia' = objectToIndex ia"
proof -
  define m where "m = (case containerToIndexedObjects ia c of None \<Rightarrow> Map.empty | Some m \<Rightarrow> m)"
  have "buckets_ok f (P c) m"
    using assms(1) unfolding index_ok_def m_def by (cases "containerToIndexedObjects ia c") auto
  from buckets_add[OF this assms(2)] obtain s' where s':
    "bk_add ops obj (f obj) (case m (getPrimaryIndex ops (f obj)) of None \<Rightarrow> bk_fresh ops | Some s \<Rightarrow> s) = Inr s'"
    "buckets_ok f (insert obj (P c)) (m(getPrimaryIndex ops (f obj) \<mapsto> s'))" by blast
  then show ?thesis using assms unfolding add_indexed_def m_def[symmetric] Let_def
    by (auto simp: index_ok_def)
qed

lemma setOn_ok:
  assumes "index_ok f P ia" "obj \<in> objectIdRange" "objectToIndex ia obj = Some (f obj)"
  shows "\<exists>ia'. setOn ops obj c ia = Inr ia' \<and> index_ok f (P(c := insert obj (P c))) ia' \<and> objectToIndex ia' = objectToIndex ia"
  using add_indexed_ok[OF assms, of c] assms(3) by (simp add: setOn_def getObjectIndex_def)

lemma removeFrom_ok:
  assumes "index_ok f P ia" "obj \<in> P c"
  shows "\<exists>ia'. removeFrom ops obj c ia = Inr ia' \<and> index_ok f (P(c := P c - {obj})) ia' \<and> objectToIndex ia' = objectToIndex ia"
proof -
  have obj: "objectToIndex ia obj = Some (f obj)" "obj \<in> objectIdRange" using assms by (auto simp: index_ok_def)
  obtain m where m: "containerToIndexedObjects ia c = Some m" "buckets_ok f (P c) m"
    using assms unfolding index_ok_def by (cases "containerToIndexedObjects ia c") auto
  from buckets_remove[OF m(2) assms(2) obj(2)] obtain s s' where
    "m (getPrimaryIndex ops (f obj)) = Some s" "bk_remove ops obj (f obj) s = Inr s'"
    "buckets_ok f (P c - {obj}) (m(getPrimaryIndex ops (f obj) := if bk_empty ops s' then None else Some s'))" by blast
  then show ?thesis using assms(1) obj m(1)
    by (auto simp: removeFrom_def getObjectIndex_def Let_def index_ok_def)
qed

text \<open>The index describes \<open>D\<close> and knows the index of every object of \<open>K\<close>.\<close>

definition index_holds :: "(ContainerId \<Rightarrow> ObjectId set) \<Rightarrow> ObjectId set \<Rightarrow> ('x, 'i, 's) IndexedAssignment \<Rightarrow> bool" where
  "index_holds D K ia \<longleftrightarrow> (\<exists>f. index_ok f D ia \<and> (\<forall>obj \<in> K. objectToIndex ia obj = Some (f obj)))"

lemma setOn_holds:
  assumes "index_holds D K ia" "obj \<in> objectIdRange" "obj \<in> K"
  shows "\<exists>ia'. setOn ops obj c ia = Inr ia' \<and> index_holds (D(c := insert obj (D c))) K ia'"
proof -
  obtain f where f: "index_ok f D ia" "\<forall>obj \<in> K. objectToIndex ia obj = Some (f obj)" using assms(1) by (auto simp: index_holds_def)
  then have "objectToIndex ia obj = Some (f obj)" using assms(3) by blast
  from setOn_ok[OF f(1) assms(2) this, of c] obtain ia' where "setOn ops obj c ia = Inr ia'"
    "index_ok f (D(c := insert obj (D c))) ia'" "objectToIndex ia' = objectToIndex ia" by blast
  then show ?thesis unfolding index_holds_def using f(2) by (intro exI[of _ ia'] conjI exI[of _ f]) simp_all
qed

lemma removeFrom_holds:
  assumes "index_holds D K ia" "obj \<in> D c"
  shows "\<exists>ia'. removeFrom ops obj c ia = Inr ia' \<and> index_holds (D(c := D c - {obj})) K ia'"
proof -
  obtain f where f: "index_ok f D ia" "\<forall>obj \<in> K. objectToIndex ia obj = Some (f obj)" using assms(1) by (auto simp: index_holds_def)
  from removeFrom_ok[where c = c, OF f(1) assms(2)] obtain ia' where "removeFrom ops obj c ia = Inr ia'"
    "index_ok f (D(c := D c - {obj})) ia'" "objectToIndex ia' = objectToIndex ia" by blast
  then show ?thesis unfolding index_holds_def using f(2) by (intro exI[of _ ia'] conjI exI[of _ f]) simp_all
qed

definition known_indexes :: "(ObjectId \<Rightarrow> 'x) \<Rightarrow> ('x, 'i, 's) IndexedAssignment \<Rightarrow> bool" where
  "known_indexes f ia \<longleftrightarrow> (\<forall>obj. objectToIndex ia obj = None \<or> objectToIndex ia obj = Some (f obj))"

lemma index_object_ok:
  assumes "index_ok f P ia" "known_indexes f ia" "obj \<in> objectIdRange" "getF obj = Inr (f obj)"
  shows "\<exists>ia'. index_object ops getF c obj ia = Inr ia' \<and> index_ok f (P(c := insert obj (P c))) ia' \<and> known_indexes f ia'"
proof -
  define ia1 where "ia1 = (if objectToIndex ia obj = None then ia\<lparr>objectToIndex := (objectToIndex ia)(obj \<mapsto> f obj)\<rparr> else ia)"
  have "objectToIndex ia obj = None \<or> objectToIndex ia obj = Some (f obj)" using assms(2) by (simp add: known_indexes_def)
  then have "index_ok f P ia1" "objectToIndex ia1 obj = Some (f obj)" "known_indexes f ia1"
    using assms(1,2) by (force simp: ia1_def index_ok_def, force simp: ia1_def, force simp: ia1_def known_indexes_def)
  then obtain ia' where "add_indexed ops obj (f obj) c ia1 = Inr ia'" "index_ok f (P(c := insert obj (P c))) ia'"
      "objectToIndex ia' = objectToIndex ia1" "known_indexes f ia1"
    using add_indexed_ok[of f P ia1 obj c] assms(3) by blast
  moreover have "index_object ops getF c obj ia = add_indexed ops obj (f obj) c ia1"
    unfolding index_object_def assms(4) bindE_Inr Let_def ia1_def ..
  ultimately show ?thesis by (simp add: known_indexes_def)
qed

lemma index_objects_ok:
  "index_ok f P ia \<Longrightarrow> known_indexes f ia \<Longrightarrow> \<forall>obj \<in> set objs. obj \<in> objectIdRange \<and> getF obj = Inr (f obj) \<Longrightarrow>
     \<exists>ia'. foldE (index_object ops getF c) objs ia = Inr ia' \<and> index_ok f (P(c := set objs \<union> P c)) ia' \<and> known_indexes f ia'"
proof (induction objs arbitrary: P ia)
  case (Cons obj objs)
  then obtain ia1 where "index_object ops getF c obj ia = Inr ia1" "index_ok f (P(c := insert obj (P c))) ia1" "known_indexes f ia1"
    using index_object_ok[of f P ia obj getF c] by auto
  moreover have "(P(c := insert obj (P c)))(c := set objs \<union> (P(c := insert obj (P c))) c) = P(c := set (obj # objs) \<union> P c)"
    by (auto simp: fun_eq_iff)
  ultimately show ?case using Cons.IH[of "P(c := insert obj (P c))" ia1] Cons.prems(3)
    by (simp del: fun_upd_apply fun_upd_upd)
qed (simp add: fun_upd_idem)

lemma index_containers_ok:
  "index_ok f P ia \<Longrightarrow> known_indexes f ia \<Longrightarrow> \<forall>(c, objs) \<in> set cobjs. \<forall>obj \<in> set objs. obj \<in> objectIdRange \<and> getF obj = Inr (f obj) \<Longrightarrow>
     \<exists>ia'. foldE (index_container ops getF) cobjs ia = Inr ia' \<and> index_ok f (\<lambda>c. placement cobjs c \<union> P c) ia' \<and> known_indexes f ia'"
proof (induction cobjs arbitrary: P ia)
  case (Cons e cobjs)
  obtain c objs where e: "e = (c, objs)" by (cases e)
  define ia0 where "ia0 = ia\<lparr>containerToIndexedObjects := (containerToIndexedObjects ia)
      (c \<mapsto> (case containerToIndexedObjects ia c of None \<Rightarrow> Map.empty | Some m \<Rightarrow> m))\<rparr>"
  have "index_ok f P ia0" "known_indexes f ia0"
    using Cons.prems(1,2) unfolding ia0_def index_ok_def known_indexes_def by (cases "containerToIndexedObjects ia c"; simp)+
  then obtain ia1 where "foldE (index_object ops getF c) objs ia0 = Inr ia1" "index_ok f (P(c := set objs \<union> P c)) ia1" "known_indexes f ia1"
    using index_objects_ok[of f P ia0 objs getF c] Cons.prems(3) e by auto
  moreover have "(\<lambda>d. placement cobjs d \<union> (P(c := set objs \<union> P c)) d) = (\<lambda>d. placement (e # cobjs) d \<union> P d)"
    using e by (auto simp: fun_eq_iff)
  moreover have "foldE (index_container ops getF) (e # cobjs) ia = bindE (foldE (index_object ops getF c) objs ia0) (foldE (index_container ops getF) cobjs)"
    unfolding e index_container_def ia0_def by simp
  ultimately show ?case using Cons.IH[of "P(c := set objs \<union> P c)" ia1] Cons.prems(3) by (simp del: fun_upd_apply)
qed simp

lemma mkIndexedAssignment_ok:
  assumes "\<forall>(c, objs) \<in> set cobjs. \<forall>obj \<in> set objs. obj \<in> objectIdRange \<and> getF obj = Inr (f obj)"
  shows "\<exists>ia. mkIndexedAssignment ops getF cobjs = Inr ia \<and> index_ok f (placement cobjs) ia"
  using index_containers_ok[of f "\<lambda>_. {}" "\<lparr>containerToIndexedObjects = Map.empty, objectToIndex = Map.empty\<rparr>", OF _ _ assms]
  by (auto simp: mkIndexedAssignment_def index_ok_def known_indexes_def)

end

definition nested_rep :: "(ObjectId \<Rightarrow> nat \<times> nat) \<Rightarrow> (nat \<rightharpoonup> ObjectId set) \<Rightarrow> ObjectId set \<Rightarrow> bool" where
  "nested_rep f m A \<longleftrightarrow> (\<forall>k. m k = (let B = {obj \<in> A. snd (f obj) = k} in if B = {} then None else Some B))"

interpretation byEquivSet: bucket_laws "storeBuckets scores" "\<lambda>f s A. store_ok s \<and> store_elems s = A" for scores
  by unfold_locales
    (use factory_get_ok store_insert_spec store_erase_spec store_empty_ok in \<open>auto simp: storeBuckets_def\<close>)

interpretation byGroup: bucket_laws setBuckets "\<lambda>f s A. s = A"
  by unfold_locales (auto simp: setBuckets_def)

lemma nested_slice:
  "nested_rep f m A \<Longrightarrow> (case m k of None \<Rightarrow> {} | Some B \<Rightarrow> B) = {obj \<in> A. snd (f obj) = k}"
  by (auto simp: nested_rep_def Let_def)

lemma nested_add_rep: "nested_rep f m A \<Longrightarrow> nested_rep f (m(snd (f obj) \<mapsto> insert obj {x \<in> A. snd (f x) = snd (f obj)})) (insert obj A)"
  by (auto simp: nested_rep_def Let_def)

lemma nested_remove_rep:
  assumes "nested_rep f m A" "obj \<in> A"
  shows "\<exists>m'. nested_remove obj (f obj) m = Inr m' \<and> nested_rep f m' (A - {obj})"
proof -
  define B where "B = {x \<in> A. snd (f x) = snd (f obj)}"
  have "m (snd (f obj)) = Some B" using assms by (auto simp: nested_rep_def Let_def B_def)
  moreover have "{x \<in> A - {obj}. snd (f x) = k} = (if k = snd (f obj) then B - {obj} else {x \<in> A. snd (f x) = k})" for k
    by (auto simp: B_def)
  ultimately show ?thesis using assms(1) by (simp add: nested_remove_def nested_rep_def Let_def)
qed

interpretation byEquivSetAndGroup: bucket_laws nestedBuckets nested_rep
proof unfold_locales
  show "bk_empty nestedBuckets m \<longleftrightarrow> A = {}" if "nested_rep f m A" for f m A
  proof -
    have "(\<forall>k. {obj \<in> A. snd (f obj) = k} = {}) \<longleftrightarrow> A = {}" by auto
    then show ?thesis using that by (simp add: nestedBuckets_def nested_rep_def fun_eq_iff Let_def)
  qed
  show "\<exists>s'. bk_add nestedBuckets obj (f obj) m = Inr s' \<and> nested_rep f s' (insert obj A)" if "nested_rep f m A" for f m A obj
    using nested_add_rep[OF that, of obj] nested_slice[OF that] by (simp add: nestedBuckets_def nested_add_def)
qed (use nested_remove_rep in \<open>auto simp: nestedBuckets_def nested_rep_def\<close>)

end
