(* ===== verification/Assignment_State.thy ===== *)
theory Assignment_State
  imports Indexed_Assignment Change_Sets
begin

text \<open>
  \<open>Assignment\<close> (\<open>solver/utils/Assignment.{h,cpp}\<close>): which container every object
  is in, the objects of every container, the same for the objects that may move,
  and the optional indexes over the latter by equivalence set, by group and by
  both. The order in which a hash container is iterated is the parameter
  \<open>hash_order\<close>; the functions that give the equivalence set and the groups of an
  object are arguments.
\<close>

section \<open>Definitions\<close>

record Assignment =
  objectToContainer :: "ObjectId \<rightharpoonup> ContainerId"
  containerToObjects :: "ContainerId \<rightharpoonup> ObjectStore"
  containerToObjectsDynamic :: "ContainerId \<rightharpoonup> ObjectStore"
  fixedObjects :: "ObjectId set"
  containerToEquivSetsToObjects :: "(nat, nat, ObjectStore) IndexedAssignment option"
  indexedEquivalenceSetsKey :: string
  indexByGroups :: "(nat \<times> (nat, nat, ObjectId set) IndexedAssignment) list"
  indexByEquivSetAndGroups :: "(nat \<times> (nat \<times> nat, nat, nat \<rightharpoonup> ObjectId set) IndexedAssignment) list"
  objectScores :: "(ObjectId \<Rightarrow> real) option"
  useDynamicObjectOrdering :: bool

definition new_store :: "Assignment \<Rightarrow> ObjectStore" where
  "new_store a = factory_get (objectScores a) (useDynamicObjectOrdering a)"

definition emptyAssignment :: Assignment where
  "emptyAssignment = \<lparr>objectToContainer = Map.empty, containerToObjects = Map.empty, containerToObjectsDynamic = Map.empty,
     fixedObjects = {}, containerToEquivSetsToObjects = None, indexedEquivalenceSetsKey = [], indexByGroups = [],
     indexByEquivSetAndGroups = [], objectScores = None, useDynamicObjectOrdering = False\<rparr>"

text \<open>One container of \<open>setContainerToObjectsMap\<close>; \<open>emplace\<close> keeps the entry that is already there.\<close>

definition emplace :: "'k \<Rightarrow> 'v \<Rightarrow> ('k \<rightharpoonup> 'v) \<Rightarrow> ('k \<rightharpoonup> 'v)" where
  "emplace k v m = (if m k = None then m(k \<mapsto> v) else m)"

definition place_object :: "ContainerId \<Rightarrow> ObjectId set \<Rightarrow> ObjectId \<Rightarrow> (ObjectId \<rightharpoonup> ContainerId) \<times> ObjectStore \<times> ObjectStore \<Rightarrow>
    ((ObjectId \<rightharpoonup> ContainerId) \<times> ObjectStore \<times> ObjectStore) result" where
  "place_object c fixed obj = (\<lambda>(o2c, store, storeDynamic).
     bindE (store_insert obj store) (\<lambda>store'.
     bindE (if obj \<in> fixed then Inr storeDynamic else store_insert obj storeDynamic) (\<lambda>storeDynamic'.
     Inr (emplace obj c o2c, store', storeDynamic'))))"

definition place_container :: "ContainerId \<times> ObjectId list \<Rightarrow> Assignment \<Rightarrow> Assignment result" where
  "place_container = (\<lambda>(c, objs) a.
     bindE (foldE (place_object c (fixedObjects a)) objs (objectToContainer a, new_store a, new_store a))
       (\<lambda>(o2c, store, storeDynamic).
          Inr (a\<lparr>objectToContainer := o2c,
                  containerToObjects := emplace c store (containerToObjects a),
                  containerToObjectsDynamic := emplace c storeDynamic (containerToObjectsDynamic a)\<rparr>)))"

definition setContainerToObjectsMap :: "(ContainerId \<times> ObjectId list) list \<Rightarrow> Assignment \<Rightarrow> Assignment result" where
  "setContainerToObjectsMap cobjs a =
     foldE place_container cobjs
       (a\<lparr>objectToContainer := Map.empty, containerToObjects := Map.empty, containerToObjectsDynamic := Map.empty\<rparr>)"

definition mkAssignment :: "(ContainerId \<times> ObjectId list) list \<Rightarrow> (ObjectId \<Rightarrow> real) option \<Rightarrow> ObjectId set \<Rightarrow> bool \<Rightarrow> Assignment result" where
  "mkAssignment cobjs scores fixed dyn =
     setContainerToObjectsMap cobjs
       (emptyAssignment\<lparr>fixedObjects := fixed, objectScores := scores, useDynamicObjectOrdering := dyn\<rparr>)"

text \<open>\<open>getObjects(map, c).f()\<close>: creates the store of the container when it is missing.\<close>

definition at_store :: "ObjectStore \<Rightarrow> (ObjectStore \<Rightarrow> ObjectStore result) \<Rightarrow> ContainerId \<Rightarrow> (ContainerId \<rightharpoonup> ObjectStore) \<Rightarrow> (ContainerId \<rightharpoonup> ObjectStore) result" where
  "at_store fresh f c m = bindE (f (case m c of None \<Rightarrow> fresh | Some s \<Rightarrow> s)) (\<lambda>s. Inr (m(c \<mapsto> s)))"

definition optE :: "('a \<Rightarrow> 'a result) \<Rightarrow> 'a option \<Rightarrow> 'a option result" where
  "optE f x = (case x of None \<Rightarrow> Inr None | Some y \<Rightarrow> bindE (f y) (\<lambda>y'. Inr (Some y')))"

fun valuesE :: "('a \<Rightarrow> 'a result) \<Rightarrow> ('k \<times> 'a) list \<Rightarrow> ('k \<times> 'a) list result" where
  "valuesE f [] = Inr []"
| "valuesE f ((k, v) # kvs) = bindE (f v) (\<lambda>v'. bindE (valuesE f kvs) (\<lambda>kvs'. Inr ((k, v') # kvs')))"

definition asg_add :: "ObjectId \<Rightarrow> ContainerId \<Rightarrow> Assignment \<Rightarrow> Assignment result" where
  "asg_add obj c a =
     bindE (at_store (new_store a) (store_insert obj) c (containerToObjects a)) (\<lambda>all.
     let a = a\<lparr>containerToObjects := all\<rparr> in
     if obj \<in> fixedObjects a then Inr a
     else
       bindE (at_store (new_store a) (store_insert obj) c (containerToObjectsDynamic a)) (\<lambda>dyn.
       bindE (optE (setOn (storeBuckets (objectScores a)) obj c) (containerToEquivSetsToObjects a)) (\<lambda>ei.
       bindE (valuesE (setOn setBuckets obj c) (indexByGroups a)) (\<lambda>gi.
       bindE (valuesE (setOn nestedBuckets obj c) (indexByEquivSetAndGroups a)) (\<lambda>egi.
       Inr (a\<lparr>containerToObjectsDynamic := dyn, containerToEquivSetsToObjects := ei,
               indexByGroups := gi, indexByEquivSetAndGroups := egi\<rparr>))))))"

definition asg_remove :: "ObjectId \<Rightarrow> ContainerId \<Rightarrow> Assignment \<Rightarrow> Assignment result" where
  "asg_remove obj c a =
     bindE (at_store (new_store a) (store_erase obj) c (containerToObjects a)) (\<lambda>all.
     let a = a\<lparr>containerToObjects := all\<rparr> in
     if obj \<in> fixedObjects a then Inr a
     else
       bindE (at_store (new_store a) (store_erase obj) c (containerToObjectsDynamic a)) (\<lambda>dyn.
       bindE (optE (removeFrom (storeBuckets (objectScores a)) obj c) (containerToEquivSetsToObjects a)) (\<lambda>ei.
       bindE (valuesE (removeFrom setBuckets obj c) (indexByGroups a)) (\<lambda>gi.
       bindE (valuesE (removeFrom nestedBuckets obj c) (indexByEquivSetAndGroups a)) (\<lambda>egi.
       Inr (a\<lparr>containerToObjectsDynamic := dyn, containerToEquivSetsToObjects := ei,
               indexByGroups := gi, indexByEquivSetAndGroups := egi\<rparr>))))))"

definition moveTo :: "ObjectId \<Rightarrow> ContainerId \<Rightarrow> Assignment \<Rightarrow> Assignment result" where
  "moveTo obj c a =
    (case objectToContainer a obj of
       None \<Rightarrow> Inl Out_of_range
     | Some cur \<Rightarrow>
         bindE (asg_remove obj cur a) (\<lambda>a1.
         bindE (asg_add obj c a1) (\<lambda>a2.
         Inr (a2\<lparr>objectToContainer := (objectToContainer a2)(obj \<mapsto> c)\<rparr>))))"

definition getObjects :: "ContainerId \<Rightarrow> Assignment \<Rightarrow> ObjectStore" where
  "getObjects c a = (case containerToObjects a c of None \<Rightarrow> factory_get None False | Some s \<Rightarrow> s)"

definition getDynamicObjects :: "ContainerId \<Rightarrow> Assignment \<Rightarrow> ObjectStore" where
  "getDynamicObjects c a = (case containerToObjectsDynamic a c of None \<Rightarrow> factory_get None False | Some s \<Rightarrow> s)"

definition isDynamic :: "ObjectId \<Rightarrow> Assignment \<Rightarrow> bool" where
  "isDynamic obj a \<longleftrightarrow> objectToContainer a obj \<noteq> None \<and> obj \<notin> fixedObjects a"

definition hasContainer :: "ContainerId \<Rightarrow> Assignment \<Rightarrow> bool" where
  "hasContainer c a \<longleftrightarrow> containerToObjects a c \<noteq> None"

definition hasObject :: "ObjectId \<Rightarrow> Assignment \<Rightarrow> bool" where
  "hasObject obj a \<longleftrightarrow> objectToContainer a obj \<noteq> None"

definition getContainer :: "ObjectId \<Rightarrow> Assignment \<Rightarrow> ContainerId result" where
  "getContainer obj a = (case objectToContainer a obj of None \<Rightarrow> Inl Out_of_range | Some c \<Rightarrow> Inr c)"

definition getChanges :: "(nat set \<Rightarrow> nat list) \<Rightarrow> Assignment \<Rightarrow> ChangeSet result" where
  "getChanges hash_order a =
     foldE (\<lambda>obj cs. bindE (getContainer obj a) (\<lambda>c. bindE (mkChange obj c 1) (\<lambda>ch. Inr (cs_insert ch cs))))
       (hash_order (dom (objectToContainer a))) emptyChangeSet"

definition asg_delta :: "(nat set \<Rightarrow> nat list) \<Rightarrow> Assignment \<Rightarrow> Assignment \<Rightarrow> nat result" where
  "asg_delta hash_order a other =
     foldE (\<lambda>obj n. bindE (getContainer obj a) (\<lambda>c. bindE (getContainer obj other) (\<lambda>d. Inr (if d \<noteq> c then n + 1 else n))))
       (hash_order (dom (objectToContainer a))) 0"

definition dynamic_entries :: "(nat set \<Rightarrow> nat list) \<Rightarrow> Assignment \<Rightarrow> (ContainerId \<times> ObjectId list) list" where
  "dynamic_entries hash_order a =
     map (\<lambda>c. (c, store_iteration hash_order (getDynamicObjects c a))) (hash_order (dom (containerToObjectsDynamic a)))"

definition buildIndexByEquivalentSets :: "(nat set \<Rightarrow> nat list) \<Rightarrow> (ObjectId \<Rightarrow> nat result) \<Rightarrow> string \<Rightarrow> Assignment \<Rightarrow> Assignment result" where
  "buildIndexByEquivalentSets hash_order equivSetOf setsKey a =
     bindE (mkIndexedAssignment (storeBuckets (objectScores a)) equivSetOf (dynamic_entries hash_order a)) (\<lambda>ia.
     Inr (a\<lparr>containerToEquivSetsToObjects := Some ia, indexedEquivalenceSetsKey := setsKey\<rparr>))"

definition isIndexedByEquivalentSets :: "string \<Rightarrow> Assignment \<Rightarrow> bool" where
  "isIndexedByEquivalentSets setsKey a \<longleftrightarrow> containerToEquivSetsToObjects a \<noteq> None \<and> indexedEquivalenceSetsKey a = setsKey"

definition maybeBuildIndex :: "(nat set \<Rightarrow> nat list) \<Rightarrow> (ObjectId \<Rightarrow> nat result) \<Rightarrow> string \<Rightarrow> Assignment \<Rightarrow> Assignment result" where
  "maybeBuildIndex hash_order equivSetOf setsKey a =
     (if \<not> isIndexedByEquivalentSets setsKey a then buildIndexByEquivalentSets hash_order equivSetOf setsKey a else Inr a)"

definition getObjectsIndexedByEquivSets :: "string \<Rightarrow> Assignment \<Rightarrow> (nat, nat, ObjectStore) IndexedAssignment result" where
  "getObjectsIndexedByEquivSets setsKey a =
    (case containerToEquivSetsToObjects a of
       None \<Rightarrow> Inl Runtime_error
     | Some ia \<Rightarrow> if \<not> isIndexedByEquivalentSets setsKey a then Inl Runtime_error else Inr ia)"

definition getDistinctObjectsFromEquivSetIdx :: "(nat set \<Rightarrow> nat list) \<Rightarrow> ContainerId \<Rightarrow> string \<Rightarrow> Assignment \<Rightarrow> ObjectId list result" where
  "getDistinctObjectsFromEquivSetIdx hash_order c setsKey a =
    (if store_empty (getDynamicObjects c a) then Inr []
     else bindE (getObjectsIndexedByEquivSets setsKey a) (\<lambda>ia.
          bindE (getContainerObjects ia c) (\<lambda>m.
          foldE (\<lambda>i acc. case store_iteration hash_order (the (m i)) of
                   [] \<Rightarrow> Inl Undefined_behaviour
                 | obj # _ \<Rightarrow> Inr (acc @ [obj]))
            (hash_order (dom m)) [])))"

definition groupIndexFunc :: "(ObjectId \<rightharpoonup> nat list) \<Rightarrow> ObjectId \<Rightarrow> nat result" where
  "groupIndexFunc objectIdToGroupIds obj =
    (case objectIdToGroupIds obj of
       None \<Rightarrow> Inl Out_of_range
     | Some gs \<Rightarrow> if length gs \<noteq> 1 then Inl Runtime_error else vec_at gs 0)"

definition buildIndexByPartition :: "(nat set \<Rightarrow> nat list) \<Rightarrow> (ObjectId \<rightharpoonup> nat list) \<Rightarrow> nat \<Rightarrow> Assignment \<Rightarrow> Assignment result" where
  "buildIndexByPartition hash_order objectIdToGroupIds part a =
    (if map_of (indexByGroups a) part \<noteq> None then Inr a
     else bindE (mkIndexedAssignment setBuckets (groupIndexFunc objectIdToGroupIds) (dynamic_entries hash_order a)) (\<lambda>ia.
          Inr (a\<lparr>indexByGroups := (part, ia) # indexByGroups a\<rparr>)))"

definition equivGroupIndexFunc :: "(ObjectId \<Rightarrow> nat result) \<Rightarrow> (ObjectId \<rightharpoonup> nat list) \<Rightarrow> ObjectId \<Rightarrow> (nat \<times> nat) result" where
  "equivGroupIndexFunc equivSetOf objectIdToGroupIds obj =
     bindE (groupIndexFunc objectIdToGroupIds obj) (\<lambda>g. bindE (equivSetOf obj) (\<lambda>e. Inr (e, g)))"

definition buildIndexByEquivalentSetsAndPartition :: "(nat set \<Rightarrow> nat list) \<Rightarrow> (ObjectId \<Rightarrow> nat result) \<Rightarrow> (ObjectId \<rightharpoonup> nat list) \<Rightarrow> nat \<Rightarrow> Assignment \<Rightarrow> Assignment result" where
  "buildIndexByEquivalentSetsAndPartition hash_order equivSetOf objectIdToGroupIds part a =
     bindE (mkIndexedAssignment nestedBuckets (equivGroupIndexFunc equivSetOf objectIdToGroupIds) (dynamic_entries hash_order a)) (\<lambda>ia.
     Inr (a\<lparr>indexByEquivSetAndGroups := (part, ia) # filter (\<lambda>e. fst e \<noteq> part) (indexByEquivSetAndGroups a)\<rparr>))"

definition getObjectsIndexedByPartition :: "nat \<Rightarrow> Assignment \<Rightarrow> (nat, nat, ObjectId set) IndexedAssignment result" where
  "getObjectsIndexedByPartition part a = (case map_of (indexByGroups a) part of None \<Rightarrow> Inl Runtime_error | Some ia \<Rightarrow> Inr ia)"

definition getObjectsIndexedByEquivSetsAndPartition :: "nat \<Rightarrow> Assignment \<Rightarrow> (nat \<times> nat, nat, nat \<rightharpoonup> ObjectId set) IndexedAssignment result" where
  "getObjectsIndexedByEquivSetsAndPartition part a =
    (case map_of (indexByEquivSetAndGroups a) part of None \<Rightarrow> Inl Runtime_error | Some ia \<Rightarrow> Inr ia)"

section \<open>The tables describe one placement\<close>

definition stores_hold :: "(ContainerId \<Rightarrow> ObjectId set) \<Rightarrow> (ContainerId \<rightharpoonup> ObjectStore) \<Rightarrow> bool" where
  "stores_hold Q m \<longleftrightarrow> finite (dom m) \<and> (\<forall>c. m c = None \<longrightarrow> Q c = {}) \<and> (\<forall>c s. m c = Some s \<longrightarrow> store_ok s \<and> store_elems s = Q c)"

text \<open>
  \<open>tables_hold Q D K a\<close>: the stores of \<open>a\<close> hold the placement \<open>Q\<close>, the stores and
  the indexes of the objects that may move hold \<open>D\<close>, and the indexes know \<open>K\<close>.
\<close>

definition indexes_hold :: "(ContainerId \<Rightarrow> ObjectId set) \<Rightarrow> ObjectId set \<Rightarrow> Assignment \<Rightarrow> bool" where
  "indexes_hold D K a \<longleftrightarrow>
     pred_option (byEquivSet.index_holds (objectScores a) D K) (containerToEquivSetsToObjects a) \<and>
     list_all (\<lambda>e. byGroup.index_holds D K (snd e)) (indexByGroups a) \<and>
     list_all (\<lambda>e. byEquivSetAndGroup.index_holds D K (snd e)) (indexByEquivSetAndGroups a)"

definition tables_hold :: "(ContainerId \<Rightarrow> ObjectId set) \<Rightarrow> (ContainerId \<Rightarrow> ObjectId set) \<Rightarrow> ObjectId set \<Rightarrow> Assignment \<Rightarrow> bool" where
  "tables_hold Q D K a \<longleftrightarrow> stores_hold Q (containerToObjects a) \<and> stores_hold D (containerToObjectsDynamic a) \<and> indexes_hold D K a"

definition all_in :: "Assignment \<Rightarrow> ContainerId \<Rightarrow> ObjectId set" where
  "all_in a c = {obj. objectToContainer a obj = Some c}"

definition dynamic_in :: "Assignment \<Rightarrow> ContainerId \<Rightarrow> ObjectId set" where
  "dynamic_in a c = all_in a c - fixedObjects a"

definition asg_ok :: "Assignment \<Rightarrow> bool" where
  "asg_ok a \<longleftrightarrow> finite (dom (objectToContainer a)) \<and> dom (objectToContainer a) \<subseteq> objectIdRange \<and>
     tables_hold (all_in a) (dynamic_in a) (dom (objectToContainer a) - fixedObjects a) a"

section \<open>Single updates\<close>

lemma at_store_ok:
  assumes "stores_hold Q m" "store_ok fresh" "store_elems fresh = {}"
    "\<And>s. store_ok s \<Longrightarrow> store_elems s = Q c \<Longrightarrow> \<exists>s'. f s = Inr s' \<and> store_ok s' \<and> store_elems s' = B"
  shows "\<exists>m'. at_store fresh f c m = Inr m' \<and> stores_hold (Q(c := B)) m'"
proof -
  define s where "s = (case m c of None \<Rightarrow> fresh | Some s \<Rightarrow> s)"
  have "store_ok s" "store_elems s = Q c"
    using assms(1-3) unfolding s_def stores_hold_def by (cases "m c"; simp)+
  from assms(4)[OF this] obtain s' where "f s = Inr s'" "store_ok s'" "store_elems s' = B" by blast
  then show ?thesis using assms(1) by (auto simp: at_store_def s_def[symmetric] stores_hold_def)
qed

lemma new_store_ok: "store_ok (new_store a)" "store_elems (new_store a) = {}"
  by (simp_all add: new_store_def factory_get_ok)

lemma optE_ok:
  assumes "pred_option P x" "\<And>y. P y \<Longrightarrow> \<exists>y'. f y = Inr y' \<and> R y'"
  shows "\<exists>x'. optE f x = Inr x' \<and> pred_option R x'"
proof (cases x)
  case (Some y)
  then obtain y' where "f y = Inr y'" "R y'" using assms by auto
  then show ?thesis using Some by (simp add: optE_def)
qed (simp add: optE_def)

lemma valuesE_ok:
  "list_all (\<lambda>e. P (snd e)) kvs \<Longrightarrow> (\<And>v. P v \<Longrightarrow> \<exists>v'. f v = Inr v' \<and> R v') \<Longrightarrow>
     \<exists>kvs'. valuesE f kvs = Inr kvs' \<and> list_all (\<lambda>e. R (snd e)) kvs'"
proof (induction kvs)
  case (Cons e kvs)
  obtain v' where v': "f (snd e) = Inr v'" "R v'" using Cons.prems by auto
  obtain kvs' where "valuesE f kvs = Inr kvs'" "list_all (\<lambda>e. R (snd e)) kvs'" using Cons by auto
  then show ?case using v' by (cases e) simp
qed simp

lemma indexes_update:
  assumes "indexes_hold D K a"
    "\<And>ia. byEquivSet.index_holds (objectScores a) D K ia \<Longrightarrow> \<exists>ia'. f ia = Inr ia' \<and> byEquivSet.index_holds (objectScores a) D' K ia'"
    "\<And>ia. byGroup.index_holds D K ia \<Longrightarrow> \<exists>ia'. g ia = Inr ia' \<and> byGroup.index_holds D' K ia'"
    "\<And>ia. byEquivSetAndGroup.index_holds D K ia \<Longrightarrow> \<exists>ia'. h ia = Inr ia' \<and> byEquivSetAndGroup.index_holds D' K ia'"
  shows "\<exists>ei gi egi.
     optE f (containerToEquivSetsToObjects a) = Inr ei \<and> valuesE g (indexByGroups a) = Inr gi \<and>
     valuesE h (indexByEquivSetAndGroups a) = Inr egi \<and>
     indexes_hold D' K (a\<lparr>containerToEquivSetsToObjects := ei, indexByGroups := gi, indexByEquivSetAndGroups := egi\<rparr>)"
proof -
  have hold: "pred_option (byEquivSet.index_holds (objectScores a) D K) (containerToEquivSetsToObjects a)"
    "list_all (\<lambda>e. byGroup.index_holds D K (snd e)) (indexByGroups a)"
    "list_all (\<lambda>e. byEquivSetAndGroup.index_holds D K (snd e)) (indexByEquivSetAndGroups a)"
    using assms(1) by (auto simp: indexes_hold_def)
  have "\<exists>ei. optE f (containerToEquivSetsToObjects a) = Inr ei \<and> pred_option (byEquivSet.index_holds (objectScores a) D' K) ei"
    by (rule optE_ok[OF hold(1)]) (rule assms(2))
  moreover have "\<exists>gi. valuesE g (indexByGroups a) = Inr gi \<and> list_all (\<lambda>e. byGroup.index_holds D' K (snd e)) gi"
    by (rule valuesE_ok[OF hold(2)]) (rule assms(3))
  moreover have "\<exists>egi. valuesE h (indexByEquivSetAndGroups a) = Inr egi \<and> list_all (\<lambda>e. byEquivSetAndGroup.index_holds D' K (snd e)) egi"
    by (rule valuesE_ok[OF hold(3)]) (rule assms(4))
  ultimately show ?thesis by (auto simp: indexes_hold_def)
qed

lemma indexes_setOn:
  assumes "indexes_hold D K a" "obj \<in> objectIdRange" "obj \<in> K"
  shows "\<exists>ei gi egi.
     optE (setOn (storeBuckets (objectScores a)) obj c) (containerToEquivSetsToObjects a) = Inr ei \<and>
     valuesE (setOn setBuckets obj c) (indexByGroups a) = Inr gi \<and>
     valuesE (setOn nestedBuckets obj c) (indexByEquivSetAndGroups a) = Inr egi \<and>
     indexes_hold (D(c := insert obj (D c))) K
       (a\<lparr>containerToEquivSetsToObjects := ei, indexByGroups := gi, indexByEquivSetAndGroups := egi\<rparr>)"
proof (rule indexes_update[OF assms(1)])
qed (fact byEquivSet.setOn_holds[OF _ assms(2,3)] byGroup.setOn_holds[OF _ assms(2,3)] byEquivSetAndGroup.setOn_holds[OF _ assms(2,3)])+

lemma indexes_removeFrom:
  assumes "indexes_hold D K a" "obj \<in> D c"
  shows "\<exists>ei gi egi.
     optE (removeFrom (storeBuckets (objectScores a)) obj c) (containerToEquivSetsToObjects a) = Inr ei \<and>
     valuesE (removeFrom setBuckets obj c) (indexByGroups a) = Inr gi \<and>
     valuesE (removeFrom nestedBuckets obj c) (indexByEquivSetAndGroups a) = Inr egi \<and>
     indexes_hold (D(c := D c - {obj})) K
       (a\<lparr>containerToEquivSetsToObjects := ei, indexByGroups := gi, indexByEquivSetAndGroups := egi\<rparr>)"
proof (rule indexes_update[OF assms(1)])
qed (fact byEquivSet.removeFrom_holds[where D = D and c = c, OF _ assms(2)] byGroup.removeFrom_holds[where D = D and c = c, OF _ assms(2)]
    byEquivSetAndGroup.removeFrom_holds[where D = D and c = c, OF _ assms(2)])+

lemma at_store_insert:
  assumes "stores_hold Q m" "obj \<in> objectIdRange"
  shows "\<exists>m'. at_store (new_store a) (store_insert obj) c m = Inr m' \<and> stores_hold (Q(c := insert obj (Q c))) m'"
proof (rule at_store_ok[OF assms(1) new_store_ok])
  fix s assume "store_ok s" "store_elems s = Q c"
  then show "\<exists>s'. store_insert obj s = Inr s' \<and> store_ok s' \<and> store_elems s' = insert obj (Q c)"
    using store_insert_spec[OF _ assms(2), of s] by simp
qed

lemma at_store_erase:
  assumes "stores_hold Q m" "obj \<in> objectIdRange"
  shows "\<exists>m'. at_store (new_store a) (store_erase obj) c m = Inr m' \<and> stores_hold (Q(c := Q c - {obj})) m'"
proof (rule at_store_ok[OF assms(1) new_store_ok])
  fix s assume "store_ok s" "store_elems s = Q c"
  then show "\<exists>s'. store_erase obj s = Inr s' \<and> store_ok s' \<and> store_elems s' = Q c - {obj}"
    using store_erase_spec[OF _ assms(2), of s] by simp
qed

lemma asg_add_ok:
  assumes "tables_hold Q D K a" "obj \<in> objectIdRange" "obj \<notin> fixedObjects a \<Longrightarrow> obj \<in> K"
  shows "\<exists>a'. asg_add obj c a = Inr a' \<and>
     tables_hold (Q(c := insert obj (Q c))) (if obj \<in> fixedObjects a then D else D(c := insert obj (D c))) K a' \<and>
     objectToContainer a' = objectToContainer a \<and> fixedObjects a' = fixedObjects a"
proof -
  obtain all where all: "at_store (new_store a) (store_insert obj) c (containerToObjects a) = Inr all" "stores_hold (Q(c := insert obj (Q c))) all"
    using at_store_insert[OF _ assms(2), of Q "containerToObjects a" a c] assms(1) by (auto simp: tables_hold_def)
  obtain dyn where dyn: "at_store (new_store a) (store_insert obj) c (containerToObjectsDynamic a) = Inr dyn" "stores_hold (D(c := insert obj (D c))) dyn"
    using at_store_insert[OF _ assms(2), of D "containerToObjectsDynamic a" a c] assms(1) by (auto simp: tables_hold_def)
  have new: "new_store (a\<lparr>containerToObjects := all\<rparr>) = new_store a" by (simp add: new_store_def)
  show ?thesis
  proof (cases "obj \<in> fixedObjects a")
    case True
    then show ?thesis using all assms(1) by (simp add: asg_add_def tables_hold_def indexes_hold_def)
  next
    case False
    then have "obj \<in> K" "indexes_hold D K a" using assms(1,3) by (auto simp: tables_hold_def)
    then obtain ei gi egi where
      "optE (setOn (storeBuckets (objectScores a)) obj c) (containerToEquivSetsToObjects a) = Inr ei"
      "valuesE (setOn setBuckets obj c) (indexByGroups a) = Inr gi"
      "valuesE (setOn nestedBuckets obj c) (indexByEquivSetAndGroups a) = Inr egi"
      "indexes_hold (D(c := insert obj (D c))) K (a\<lparr>containerToEquivSetsToObjects := ei, indexByGroups := gi, indexByEquivSetAndGroups := egi\<rparr>)"
      using indexes_setOn[OF _ assms(2), of D K a c] by blast
    then show ?thesis using False all dyn new by (simp add: asg_add_def tables_hold_def indexes_hold_def)
  qed
qed

lemma asg_remove_ok:
  assumes "tables_hold Q D K a" "obj \<in> objectIdRange" "obj \<notin> fixedObjects a \<Longrightarrow> obj \<in> D c"
  shows "\<exists>a'. asg_remove obj c a = Inr a' \<and>
     tables_hold (Q(c := Q c - {obj})) (if obj \<in> fixedObjects a then D else D(c := D c - {obj})) K a' \<and>
     objectToContainer a' = objectToContainer a \<and> fixedObjects a' = fixedObjects a"
proof -
  obtain all where all: "at_store (new_store a) (store_erase obj) c (containerToObjects a) = Inr all" "stores_hold (Q(c := Q c - {obj})) all"
    using at_store_erase[OF _ assms(2), of Q "containerToObjects a" a c] assms(1) by (auto simp: tables_hold_def)
  obtain dyn where dyn: "at_store (new_store a) (store_erase obj) c (containerToObjectsDynamic a) = Inr dyn" "stores_hold (D(c := D c - {obj})) dyn"
    using at_store_erase[OF _ assms(2), of D "containerToObjectsDynamic a" a c] assms(1) by (auto simp: tables_hold_def)
  have new: "new_store (a\<lparr>containerToObjects := all\<rparr>) = new_store a" by (simp add: new_store_def)
  show ?thesis
  proof (cases "obj \<in> fixedObjects a")
    case True
    then show ?thesis using all assms(1) by (simp add: asg_remove_def tables_hold_def indexes_hold_def)
  next
    case False
    then have "obj \<in> D c" "indexes_hold D K a" using assms(1,3) by (auto simp: tables_hold_def)
    then obtain ei gi egi where
      "optE (removeFrom (storeBuckets (objectScores a)) obj c) (containerToEquivSetsToObjects a) = Inr ei"
      "valuesE (removeFrom setBuckets obj c) (indexByGroups a) = Inr gi"
      "valuesE (removeFrom nestedBuckets obj c) (indexByEquivSetAndGroups a) = Inr egi"
      "indexes_hold (D(c := D c - {obj})) K (a\<lparr>containerToEquivSetsToObjects := ei, indexByGroups := gi, indexByEquivSetAndGroups := egi\<rparr>)"
      using indexes_removeFrom[of D K a obj c] by blast
    then show ?thesis using False all dyn new by (simp add: asg_remove_def tables_hold_def indexes_hold_def)
  qed
qed

lemma moveTo_ok:
  assumes "asg_ok a" "objectToContainer a obj = Some cur"
  shows "\<exists>a'. moveTo obj c a = Inr a' \<and> asg_ok a' \<and> objectToContainer a' = (objectToContainer a)(obj \<mapsto> c) \<and> fixedObjects a' = fixedObjects a"
proof -
  define K where "K = dom (objectToContainer a) - fixedObjects a"
  have range: "obj \<in> objectIdRange" using assms by (auto simp: asg_ok_def)
  have tables: "tables_hold (all_in a) (dynamic_in a) K a" using assms(1) by (simp add: asg_ok_def K_def)
  have mem: "obj \<notin> fixedObjects a \<Longrightarrow> obj \<in> dynamic_in a cur" "obj \<notin> fixedObjects a \<Longrightarrow> obj \<in> K"
    using assms(2) by (auto simp: dynamic_in_def all_in_def K_def)
  obtain a1 where a1: "asg_remove obj cur a = Inr a1" "objectToContainer a1 = objectToContainer a" "fixedObjects a1 = fixedObjects a"
      "tables_hold ((all_in a)(cur := all_in a cur - {obj})) (if obj \<in> fixedObjects a then dynamic_in a else (dynamic_in a)(cur := dynamic_in a cur - {obj})) K a1"
    using asg_remove_ok[OF tables range mem(1)] by blast
  obtain a2 where a2: "asg_add obj c a1 = Inr a2" "objectToContainer a2 = objectToContainer a" "fixedObjects a2 = fixedObjects a"
      "tables_hold (((all_in a)(cur := all_in a cur - {obj}))(c := insert obj (((all_in a)(cur := all_in a cur - {obj})) c)))
        (if obj \<in> fixedObjects a then dynamic_in a
         else ((dynamic_in a)(cur := dynamic_in a cur - {obj}))(c := insert obj (((dynamic_in a)(cur := dynamic_in a cur - {obj})) c))) K a2"
    using asg_add_ok[OF a1(4) range, of c] mem(2) a1(2,3) by (auto split: if_splits)
  define a' where "a' = a2\<lparr>objectToContainer := (objectToContainer a2)(obj \<mapsto> c)\<rparr>"
  have "all_in a' = ((all_in a)(cur := all_in a cur - {obj}))(c := insert obj (((all_in a)(cur := all_in a cur - {obj})) c))"
    using assms(2) a2(2) by (auto simp: all_in_def a'_def fun_eq_iff)
  moreover have "dynamic_in a' = (if obj \<in> fixedObjects a then dynamic_in a
      else ((dynamic_in a)(cur := dynamic_in a cur - {obj}))(c := insert obj (((dynamic_in a)(cur := dynamic_in a cur - {obj})) c)))"
    using assms(2) a2(2,3) by (auto simp: dynamic_in_def all_in_def a'_def fun_eq_iff)
  ultimately have "tables_hold (all_in a') (dynamic_in a') K a2" using a2(4) by simp
  then have "tables_hold (all_in a') (dynamic_in a') K a'" by (simp add: tables_hold_def indexes_hold_def a'_def)
  moreover have "dom (objectToContainer a') - fixedObjects a' = K" "dom (objectToContainer a') = dom (objectToContainer a)"
    using assms(2) a2(2,3) by (auto simp: K_def a'_def)
  ultimately have "asg_ok a'" using assms(1) by (simp add: asg_ok_def)
  moreover have "moveTo obj c a = Inr a'" using assms(2) a1(1) a2(1) by (simp add: moveTo_def a'_def)
  moreover have "objectToContainer a' = (objectToContainer a)(obj \<mapsto> c)" "fixedObjects a' = fixedObjects a" using a2(2,3) by (simp_all add: a'_def)
  ultimately show ?thesis by blast
qed

section \<open>Construction\<close>

lemma place_objects_ok:
  "distinct objs \<Longrightarrow> set objs \<inter> dom o2c = {} \<Longrightarrow> set objs \<subseteq> objectIdRange \<Longrightarrow> store_ok s \<Longrightarrow> store_ok d \<Longrightarrow>
     \<exists>s' d'. foldE (place_object c fixed) objs (o2c, s, d) = Inr (\<lambda>obj. if obj \<in> set objs then Some c else o2c obj, s', d') \<and>
        store_ok s' \<and> store_elems s' = set objs \<union> store_elems s \<and> store_ok d' \<and> store_elems d' = (set objs - fixed) \<union> store_elems d"
proof (induction objs arbitrary: o2c s d)
  case (Cons obj objs)
  have range: "obj \<in> objectIdRange" and free: "o2c obj = None" using Cons.prems by auto
  obtain s1 where s1: "store_insert obj s = Inr s1" "store_ok s1" "store_elems s1 = insert obj (store_elems s)"
    using store_insert_spec[OF Cons.prems(4) range] by blast
  obtain d1 where d1: "(if obj \<in> fixed then Inr d else store_insert obj d) = Inr d1" "store_ok d1" "store_elems d1 = (if obj \<in> fixed then store_elems d else insert obj (store_elems d))"
    using store_insert_spec[OF Cons.prems(5) range] Cons.prems(5) by (cases "obj \<in> fixed") auto
  have "(\<lambda>x. if x \<in> set objs then Some c else (o2c(obj \<mapsto> c)) x) = (\<lambda>x. if x \<in> set (obj # objs) then Some c else o2c x)"
    by auto
  moreover have "foldE (place_object c fixed) (obj # objs) (o2c, s, d) = foldE (place_object c fixed) objs (o2c(obj \<mapsto> c), s1, d1)"
    using s1(1) d1(1) free by (simp add: place_object_def emplace_def)
  moreover have "set objs \<inter> dom (o2c(obj \<mapsto> c)) = {}" using Cons.prems(1,2) by auto
  ultimately show ?case
    using Cons.IH[of "o2c(obj \<mapsto> c)" s1 d1] Cons.prems(1,3) s1(2,3) d1(2,3)
    by (cases "obj \<in> fixed") (auto simp del: foldE.simps fun_upd_apply)
qed simp

definition unindexed :: "Assignment \<Rightarrow> bool" where
  "unindexed a \<longleftrightarrow> containerToEquivSetsToObjects a = None \<and> indexByGroups a = [] \<and> indexByEquivSetAndGroups a = []"

lemma place_container_ok:
  assumes "asg_ok a" "unindexed a" "containerToObjects a c = None" "containerToObjectsDynamic a c = None"
    "distinct objs" "set objs \<inter> dom (objectToContainer a) = {}" "set objs \<subseteq> objectIdRange"
  shows "\<exists>a'. place_container (c, objs) a = Inr a' \<and> asg_ok a' \<and> unindexed a' \<and> fixedObjects a' = fixedObjects a \<and>
     dom (containerToObjects a') = insert c (dom (containerToObjects a)) \<and>
     dom (containerToObjectsDynamic a') = insert c (dom (containerToObjectsDynamic a)) \<and>
     objectToContainer a' = (\<lambda>obj. if obj \<in> set objs then Some c else objectToContainer a obj)"
proof -
  obtain s d where sd: "foldE (place_object c (fixedObjects a)) objs (objectToContainer a, new_store a, new_store a)
        = Inr (\<lambda>obj. if obj \<in> set objs then Some c else objectToContainer a obj, s, d)"
      "store_ok s" "store_elems s = set objs" "store_ok d" "store_elems d = set objs - fixedObjects a"
    using place_objects_ok[OF assms(5-7) new_store_ok(1)[of a] new_store_ok(1)[of a], of c "fixedObjects a"] by (auto simp: new_store_ok)
  define a' where "a' = a\<lparr>objectToContainer := (\<lambda>obj. if obj \<in> set objs then Some c else objectToContainer a obj),
      containerToObjects := (containerToObjects a)(c \<mapsto> s), containerToObjectsDynamic := (containerToObjectsDynamic a)(c \<mapsto> d)\<rparr>"
  have run: "place_container (c, objs) a = Inr a'"
    using sd(1) assms(3,4) by (simp add: place_container_def emplace_def a'_def)
  have none: "all_in a c = {}" "dynamic_in a c = {}"
    using assms(1,3,4) by (auto simp: asg_ok_def tables_hold_def stores_hold_def)
  have "all_in a' = (all_in a)(c := set objs)" "dynamic_in a' = (dynamic_in a)(c := set objs - fixedObjects a)"
    using none assms(6) by (auto simp: all_in_def dynamic_in_def a'_def fun_eq_iff)
  then have "stores_hold (all_in a') (containerToObjects a')" "stores_hold (dynamic_in a') (containerToObjectsDynamic a')"
    using assms(1) sd(2-5) by (auto simp: a'_def asg_ok_def tables_hold_def stores_hold_def)
  moreover have "dom (objectToContainer a') = set objs \<union> dom (objectToContainer a)" by (auto simp: a'_def split: if_splits)
  ultimately have "asg_ok a'" using assms(1,2,7) by (auto simp: asg_ok_def tables_hold_def indexes_hold_def unindexed_def a'_def)
  then show ?thesis using run assms(2) by (simp add: a'_def unindexed_def)
qed

definition well_placed :: "(ContainerId \<times> ObjectId list) list \<Rightarrow> bool" where
  "well_placed cobjs \<longleftrightarrow> distinct (map fst cobjs) \<and> distinct (concat (map snd cobjs)) \<and> set (concat (map snd cobjs)) \<subseteq> objectIdRange"

text \<open>The map from objects to containers that placing the given containers adds to.\<close>

fun placed_by :: "(ContainerId \<times> ObjectId list) list \<Rightarrow> (ObjectId \<rightharpoonup> ContainerId) \<Rightarrow> (ObjectId \<rightharpoonup> ContainerId)" where
  "placed_by [] m = m"
| "placed_by ((c, objs) # cobjs) m = placed_by cobjs (\<lambda>obj. if obj \<in> set objs then Some c else m obj)"

lemma place_containers_ok:
  "asg_ok a \<Longrightarrow> unindexed a \<Longrightarrow> well_placed cobjs \<Longrightarrow> fst ` set cobjs \<inter> (dom (containerToObjects a) \<union> dom (containerToObjectsDynamic a)) = {} \<Longrightarrow>
     set (concat (map snd cobjs)) \<inter> dom (objectToContainer a) = {} \<Longrightarrow>
     \<exists>a'. foldE place_container cobjs a = Inr a' \<and> asg_ok a' \<and> unindexed a' \<and> fixedObjects a' = fixedObjects a \<and>
        objectToContainer a' = placed_by cobjs (objectToContainer a)"
proof (induction cobjs arbitrary: a)
  case (Cons e cobjs)
  obtain c objs where e: "e = (c, objs)" by (cases e)
  have c: "containerToObjects a c = None" "containerToObjectsDynamic a c = None" using Cons.prems(4) e by auto
  have objs: "distinct objs" "set objs \<inter> dom (objectToContainer a) = {}" "set objs \<subseteq> objectIdRange"
    using Cons.prems(3,5) e by (auto simp: well_placed_def)
  obtain a1 where a1: "place_container (c, objs) a = Inr a1" "asg_ok a1" "unindexed a1" "fixedObjects a1 = fixedObjects a"
      "dom (containerToObjects a1) = insert c (dom (containerToObjects a))"
      "dom (containerToObjectsDynamic a1) = insert c (dom (containerToObjectsDynamic a))"
      "objectToContainer a1 = (\<lambda>obj. if obj \<in> set objs then Some c else objectToContainer a obj)"
    using place_container_ok[OF Cons.prems(1,2) c objs] by blast
  have rest: "well_placed cobjs" "fst ` set cobjs \<inter> (dom (containerToObjects a1) \<union> dom (containerToObjectsDynamic a1)) = {}"
      "set (concat (map snd cobjs)) \<inter> dom (objectToContainer a1) = {}"
  proof -
    have "set (concat (map snd cobjs)) \<inter> (set objs \<union> dom (objectToContainer a)) = {}"
      using Cons.prems(3,5) e by (auto simp: well_placed_def)
    moreover have "dom (objectToContainer a1) \<subseteq> set objs \<union> dom (objectToContainer a)" by (auto simp: a1(7) split: if_splits)
    ultimately show "set (concat (map snd cobjs)) \<inter> dom (objectToContainer a1) = {}" by blast
  qed (use Cons.prems(3,4) e a1(5,6) in \<open>auto simp: well_placed_def\<close>)
  show ?case using Cons.IH[OF a1(2,3) rest] a1(1,4,7) e by simp
qed simp

lemma empty_asg_ok: "asg_ok (emptyAssignment\<lparr>fixedObjects := fixed, objectScores := scores, useDynamicObjectOrdering := dyn\<rparr>)"
  by (simp add: asg_ok_def emptyAssignment_def tables_hold_def stores_hold_def indexes_hold_def all_in_def dynamic_in_def)

lemma mkAssignment_ok:
  assumes "well_placed cobjs"
  shows "\<exists>a. mkAssignment cobjs scores fixed dyn = Inr a \<and> asg_ok a \<and> fixedObjects a = fixed \<and>
     objectToContainer a = placed_by cobjs Map.empty"
  using place_containers_ok[OF empty_asg_ok[where fixed = fixed and scores = scores and dyn = dyn] _ assms]
  by (auto simp: mkAssignment_def setContainerToObjectsMap_def unindexed_def emptyAssignment_def)

section \<open>Indexes\<close>

lemma dynamic_entries_placement:
  assumes "asg_ok a" "\<forall>A. finite A \<longrightarrow> distinct (hash_order A) \<and> set (hash_order A) = A"
  shows "placement (dynamic_entries hash_order a) = dynamic_in a"
    "\<forall>(c, objs) \<in> set (dynamic_entries hash_order a). set objs = dynamic_in a c"
proof -
  have hold: "stores_hold (dynamic_in a) (containerToObjectsDynamic a)" using assms(1) by (simp add: asg_ok_def tables_hold_def)
  have elems: "set (store_iteration hash_order (getDynamicObjects c a)) = dynamic_in a c"
    if key: "c \<in> dom (containerToObjectsDynamic a)" for c
  proof -
    obtain s where "containerToObjectsDynamic a c = Some s" using key by auto
    then have "getDynamicObjects c a = s" "store_ok s" "store_elems s = dynamic_in a c"
      using hold by (auto simp: stores_hold_def getDynamicObjects_def)
    then show ?thesis using store_iteration_ok[of s hash_order] assms(2) by simp
  qed
  have keys: "set (hash_order (dom (containerToObjectsDynamic a))) = dom (containerToObjectsDynamic a)"
    using assms(2) hold by (auto simp: stores_hold_def)
  show "\<forall>(c, objs) \<in> set (dynamic_entries hash_order a). set objs = dynamic_in a c"
    using elems keys by (auto simp: dynamic_entries_def)
  have "placement (dynamic_entries hash_order a) c = dynamic_in a c" for c
  proof (cases "containerToObjectsDynamic a c")
    case None
    then have "dynamic_in a c = {}" using hold by (simp add: stores_hold_def)
    then show ?thesis using elems keys None by (auto simp: placement_def dynamic_entries_def)
  next
    case (Some s)
    then have "{e \<in> set (dynamic_entries hash_order a). fst e = c} = {(c, store_iteration hash_order (getDynamicObjects c a))}"
      using keys by (auto simp: dynamic_entries_def)
    then show ?thesis using elems[of c] Some by (auto simp: placement_def)
  qed
  then show "placement (dynamic_entries hash_order a) = dynamic_in a" by (rule ext)
qed

lemma dynamic_in_range: "asg_ok a \<Longrightarrow> dynamic_in a c \<subseteq> objectIdRange"
  by (auto simp: asg_ok_def dynamic_in_def all_in_def)

context bucket_laws
begin

lemma built_index_holds:
  assumes "asg_ok a" "\<forall>A. finite A \<longrightarrow> distinct (hash_order A) \<and> set (hash_order A) = A"
    "\<forall>obj \<in> dom (objectToContainer a) - fixedObjects a. getF obj = Inr (f obj)"
  shows "\<exists>ia. mkIndexedAssignment ops getF (dynamic_entries hash_order a) = Inr ia \<and>
     index_holds (dynamic_in a) (dom (objectToContainer a) - fixedObjects a) ia"
proof -
  have "obj \<in> objectIdRange \<and> getF obj = Inr (f obj)" if "(c, objs) \<in> set (dynamic_entries hash_order a)" "obj \<in> set objs" for c objs obj
  proof -
    have "obj \<in> dynamic_in a c" using dynamic_entries_placement(2)[OF assms(1,2)] that by fastforce
    then show ?thesis using dynamic_in_range[OF assms(1)] assms(3) by (auto simp: dynamic_in_def all_in_def)
  qed
  then obtain ia where ia: "mkIndexedAssignment ops getF (dynamic_entries hash_order a) = Inr ia" "index_ok f (dynamic_in a) ia"
    using mkIndexedAssignment_ok[of "dynamic_entries hash_order a" getF f] dynamic_entries_placement(1)[OF assms(1,2)] by fastforce
  have "objectToIndex ia obj = Some (f obj)" if obj: "obj \<in> dom (objectToContainer a) - fixedObjects a" for obj
  proof -
    obtain c where "obj \<in> dynamic_in a c" using obj by (auto simp: dynamic_in_def all_in_def)
    then show ?thesis using ia(2) by (auto simp: index_ok_def)
  qed
  then show ?thesis using ia unfolding index_holds_def by blast
qed

end

lemma update_index_ok:
  assumes "asg_ok a" "indexes_hold (dynamic_in a) (dom (objectToContainer a) - fixedObjects a) a'"
    "objectToContainer a' = objectToContainer a" "fixedObjects a' = fixedObjects a"
    "containerToObjects a' = containerToObjects a" "containerToObjectsDynamic a' = containerToObjectsDynamic a"
  shows "asg_ok a'"
proof -
  have "all_in a' = all_in a" "dynamic_in a' = dynamic_in a" using assms(3,4) by (simp_all add: all_in_def dynamic_in_def fun_eq_iff)
  then show ?thesis using assms by (simp add: asg_ok_def tables_hold_def)
qed

datatype asg_op = MoveObject ObjectId ContainerId | IndexEquivSets | IndexPartition nat | IndexBoth nat

text \<open>One operation; the equivalence sets, their key and the partitions are fixed.\<close>

fun run_asg_op :: "(nat set \<Rightarrow> nat list) \<Rightarrow> (ObjectId \<Rightarrow> nat result) \<Rightarrow> string \<Rightarrow> (nat \<Rightarrow> ObjectId \<rightharpoonup> nat list) \<Rightarrow> asg_op \<Rightarrow> Assignment \<Rightarrow> Assignment result" where
  "run_asg_op hash_order equivSetOf setsKey groups (MoveObject obj c) a = moveTo obj c a"
| "run_asg_op hash_order equivSetOf setsKey groups IndexEquivSets a = maybeBuildIndex hash_order equivSetOf setsKey a"
| "run_asg_op hash_order equivSetOf setsKey groups (IndexPartition part) a = buildIndexByPartition hash_order (groups part) part a"
| "run_asg_op hash_order equivSetOf setsKey groups (IndexBoth part) a =
     buildIndexByEquivalentSetsAndPartition hash_order equivSetOf (groups part) part a"

fun moved_map :: "asg_op \<Rightarrow> (ObjectId \<rightharpoonup> ContainerId) \<Rightarrow> (ObjectId \<rightharpoonup> ContainerId)" where
  "moved_map (MoveObject obj c) m = m(obj \<mapsto> c)"
| "moved_map _ m = m"

definition op_allowed :: "Assignment \<Rightarrow> asg_op \<Rightarrow> bool" where
  "op_allowed a oper = (case oper of MoveObject obj c \<Rightarrow> obj \<in> dom (objectToContainer a) | _ \<Rightarrow> True)"

lemma run_asg_op_ok:
  assumes ok: "asg_ok a" and order: "\<forall>A. finite A \<longrightarrow> distinct (hash_order A) \<and> set (hash_order A) = A"
    and sets: "\<forall>obj \<in> dom (objectToContainer a). \<exists>e. equivSetOf obj = Inr e"
    and groups: "\<forall>part. \<forall>obj \<in> dom (objectToContainer a). \<exists>g. groups part obj = Some [g]"
    and allowed: "op_allowed a oper"
  shows "\<exists>a'. run_asg_op hash_order equivSetOf setsKey groups oper a = Inr a' \<and> asg_ok a' \<and>
     objectToContainer a' = moved_map oper (objectToContainer a) \<and> fixedObjects a' = fixedObjects a"
proof -
  define K where "K = dom (objectToContainer a) - fixedObjects a"
  have hold: "indexes_hold (dynamic_in a) K a" using ok by (simp add: asg_ok_def tables_hold_def K_def)
  obtain f where f: "\<forall>obj \<in> dom (objectToContainer a). equivSetOf obj = Inr (f obj)" using sets by metis
  obtain g where g: "\<forall>part. \<forall>obj \<in> dom (objectToContainer a). groups part obj = Some [g part obj]" using groups by metis
  have gf: "groupIndexFunc (groups part) obj = Inr (g part obj)" "equivGroupIndexFunc equivSetOf (groups part) obj = Inr (f obj, g part obj)"
    if "obj \<in> dom (objectToContainer a)" for part obj
    using that f g by (auto simp: groupIndexFunc_def equivGroupIndexFunc_def)
  show ?thesis
  proof (cases oper)
    case (MoveObject obj c)
    then show ?thesis using moveTo_ok[OF ok, of obj _ c] allowed by (auto simp: op_allowed_def)
  next
    case IndexEquivSets
    obtain ia where ia: "mkIndexedAssignment (storeBuckets (objectScores a)) equivSetOf (dynamic_entries hash_order a) = Inr ia"
        "byEquivSet.index_holds (objectScores a) (dynamic_in a) K ia"
      using byEquivSet.built_index_holds[OF ok order, of equivSetOf f "objectScores a"] f by (auto simp: K_def)
    have "asg_ok (a\<lparr>containerToEquivSetsToObjects := Some ia, indexedEquivalenceSetsKey := setsKey\<rparr>)"
      by (rule update_index_ok[OF ok]) (use hold ia(2) in \<open>simp_all add: indexes_hold_def K_def\<close>)
    then show ?thesis using IndexEquivSets ia(1) ok by (simp add: maybeBuildIndex_def buildIndexByEquivalentSets_def)
  next
    case (IndexPartition part)
    obtain ia where ia: "mkIndexedAssignment setBuckets (groupIndexFunc (groups part)) (dynamic_entries hash_order a) = Inr ia"
        "byGroup.index_holds (dynamic_in a) K ia"
      using byGroup.built_index_holds[OF ok order, of "groupIndexFunc (groups part)" "g part"] gf(1) by (auto simp: K_def)
    have "asg_ok (a\<lparr>indexByGroups := (part, ia) # indexByGroups a\<rparr>)"
      by (rule update_index_ok[OF ok]) (use hold ia(2) in \<open>simp_all add: indexes_hold_def K_def\<close>)
    then show ?thesis using IndexPartition ia(1) ok by (simp add: buildIndexByPartition_def)
  next
    case (IndexBoth part)
    obtain ia where ia: "mkIndexedAssignment nestedBuckets (equivGroupIndexFunc equivSetOf (groups part)) (dynamic_entries hash_order a) = Inr ia"
        "byEquivSetAndGroup.index_holds (dynamic_in a) K ia"
      using byEquivSetAndGroup.built_index_holds[OF ok order, of "equivGroupIndexFunc equivSetOf (groups part)" "\<lambda>obj. (f obj, g part obj)"] gf(2)
      by (auto simp: K_def)
    have "asg_ok (a\<lparr>indexByEquivSetAndGroups := (part, ia) # filter (\<lambda>e. fst e \<noteq> part) (indexByEquivSetAndGroups a)\<rparr>)"
      by (rule update_index_ok[OF ok]) (use hold ia(2) in \<open>auto simp: indexes_hold_def K_def list_all_iff\<close>)
    then show ?thesis using IndexBoth ia(1) ok by (simp add: buildIndexByEquivalentSetsAndPartition_def)
  qed
qed

lemma run_asg_ops_ok:
  assumes order: "\<forall>A. finite A \<longrightarrow> distinct (hash_order A) \<and> set (hash_order A) = A"
  shows "asg_ok a \<Longrightarrow> \<forall>obj \<in> dom (objectToContainer a). \<exists>e. equivSetOf obj = Inr e \<Longrightarrow>
     \<forall>part. \<forall>obj \<in> dom (objectToContainer a). \<exists>g. groups part obj = Some [g] \<Longrightarrow> list_all (op_allowed a) ops \<Longrightarrow>
     \<exists>a'. foldE (run_asg_op hash_order equivSetOf setsKey groups) ops a = Inr a' \<and> asg_ok a' \<and>
       objectToContainer a' = fold moved_map ops (objectToContainer a) \<and> fixedObjects a' = fixedObjects a"
proof (induction ops arbitrary: a)
  case (Cons oper ops)
  have allowed: "op_allowed a oper" using Cons.prems(4) by simp
  obtain a1 where a1: "run_asg_op hash_order equivSetOf setsKey groups oper a = Inr a1" "asg_ok a1"
      "objectToContainer a1 = moved_map oper (objectToContainer a)" "fixedObjects a1 = fixedObjects a"
    using run_asg_op_ok[OF Cons.prems(1) order Cons.prems(2,3) allowed] by blast
  have dom: "dom (objectToContainer a1) = dom (objectToContainer a)"
    unfolding a1(3) using allowed by (cases oper) (auto simp: op_allowed_def)
  then have "op_allowed a1 = op_allowed a" unfolding op_allowed_def by (rule subst) (rule refl)
  then show ?case using Cons.IH[OF a1(2), unfolded dom, OF Cons.prems(2,3)] a1 Cons.prems(4) by simp
qed simp

lemma store_of_container:
  assumes "asg_ok a"
  shows "store_elems (getObjects c a) = all_in a c" "store_elems (getDynamicObjects c a) = dynamic_in a c"
proof -
  have "stores_hold (all_in a) (containerToObjects a)" "stores_hold (dynamic_in a) (containerToObjectsDynamic a)"
    using assms by (auto simp: asg_ok_def tables_hold_def)
  then show "store_elems (getObjects c a) = all_in a c" "store_elems (getDynamicObjects c a) = dynamic_in a c"
    by (auto simp: getObjects_def getDynamicObjects_def stores_hold_def factory_get_ok split: option.splits)
qed

lemma equiv_bucket_elems:
  assumes "asg_ok a" "containerToEquivSetsToObjects a = Some ia" "containerToIndexedObjects ia c = Some m" "m e = Some s"
  shows "store_elems s = {obj \<in> dynamic_in a c. objectToIndex ia obj = Some e} \<and> store_elems s \<noteq> {}"
proof -
  obtain f where "byEquivSet.index_ok (objectScores a) f (dynamic_in a) ia"
    using assms(1,2) by (auto simp: asg_ok_def tables_hold_def indexes_hold_def byEquivSet.index_holds_def)
  then have f: "byEquivSet.buckets_ok (objectScores a) f (dynamic_in a c) m" "\<forall>obj \<in> dynamic_in a c. objectToIndex ia obj = Some (f obj)"
    using assms(3) unfolding byEquivSet.index_ok_def by blast+
  then have "store_elems s = {obj \<in> dynamic_in a c. f obj = e}" "store_elems s \<noteq> {}"
    using assms(4) unfolding byEquivSet.buckets_ok_def byEquivSet.bucket_of_def by (auto simp: storeBuckets_def)
  then show ?thesis using f(2) by auto
qed

section \<open>Properties\<close>





end
