(* ===== verification/Expression_Base.thy ===== *)
theory Expression_Base
  imports Tolerances Assignment_State Value_Queues Hybrid_Map
begin

text \<open>
  The base class of the expression graph
  (\<open>solver/expressions/Expression.h\<close>, \<open>Expression.cpp\<close>): the members every
  expression has, with the kind-specific members in the field \<open>kind\<close>. An
  \<open>Expression*\<close> is its identifier, so that pointers can be compared and used as
  keys, and a heap maps identifiers to expressions. Hash sets and hash maps that
  are only iterated are lists in the order of their iteration. Doubles are
  reals; \<open>double_max\<close> is the largest finite double.
\<close>

section \<open>Definitions\<close>

type_synonym ExprId = nat

definition double_max :: real where
  "double_max = (2 - 1 / 2 ^ 52) * 2 ^ 1023"

record Bounds =
  lower_bound :: real
  upper_bound :: real

record ChildPotential =
  cp_expr :: ExprId
  potential :: real
  valueAtLastRefresh :: real

record 'k Expression =
  children :: "ExprId list"
  exprValue :: real
  initialValue :: real
  properlyInitialized :: bool
  isFixed :: bool
  directlyAffectedContainers :: "ContainerId list option"
  potentials :: "ChildPotential list"
  shouldRefresh :: bool
  kind :: 'k

type_synonym 'k heap = "ExprId \<Rightarrow> 'k Expression"

definition newExpression :: "'k \<Rightarrow> 'k Expression" where
  "newExpression k = \<lparr>children = [], exprValue = 0, initialValue = 0, properlyInitialized = False, isFixed = False,
     directlyAffectedContainers = None, potentials = [], shouldRefresh = True, kind = k\<rparr>"

definition setInitialValue :: "real \<Rightarrow> 'k Expression \<Rightarrow> 'k Expression" where
  "setInitialValue v e = e\<lparr>initialValue := v, exprValue := v, properlyInitialized := True\<rparr>"

definition add_child :: "ExprId \<Rightarrow> 'k Expression \<Rightarrow> 'k Expression" where
  "add_child c e = (if c \<in> set (children e) then e else e\<lparr>children := children e @ [c]\<rparr>)"

definition snapToZero :: "PrecisionTolerances \<Rightarrow> real \<Rightarrow> real" where
  "snapToZero t v = (if isZero t v then 0 else v)"

definition scaled_bound :: "PrecisionTolerances \<Rightarrow> real \<Rightarrow> real" where
  "scaled_bound t v = (if v \<ge> 0 then v * 2 else v / 2) + absolute t"

definition throwIfNotProperlyInitialized :: "'k Expression \<Rightarrow> unit result" where
  "throwIfNotProperlyInitialized e = (if properlyInitialized e then Inr () else Inl Runtime_error)"

definition ensureOnlyOneChildExists :: "'k Expression \<Rightarrow> unit result" where
  "ensureOnlyOneChildExists e = (if length (children e) = 1 then Inr () else Inl Runtime_error)"

definition getOnlyChild :: "'k Expression \<Rightarrow> ExprId result" where
  "getOnlyChild e = bindE (ensureOnlyOneChildExists e) (\<lambda>_. Inr (hd (children e)))"

definition markFixed :: "'k Expression \<Rightarrow> 'k Expression" where
  "markFixed e = e\<lparr>isFixed := True\<rparr>"

text \<open>The same object seen with the members of a derived class.\<close>

definition upcast :: "('k \<Rightarrow> 'j) \<Rightarrow> 'k Expression \<Rightarrow> 'j Expression" where
  "upcast f e = \<lparr>children = children e, exprValue = exprValue e, initialValue = initialValue e,
     properlyInitialized = properlyInitialized e, isFixed = isFixed e,
     directlyAffectedContainers = directlyAffectedContainers e, potentials = potentials e,
     shouldRefresh = shouldRefresh e, kind = f (kind e)\<rparr>"

section \<open>Basic facts\<close>

named_theorems expr_simps

lemma setInitialValue_fields [simp, expr_simps]:
  "exprValue (setInitialValue v e) = v" "initialValue (setInitialValue v e) = v"
  "children (setInitialValue v e) = children e" "kind (setInitialValue v e) = kind e"
  "properlyInitialized (setInitialValue v e)" "isFixed (setInitialValue v e) = isFixed e"
  "directlyAffectedContainers (setInitialValue v e) = directlyAffectedContainers e"
  by (simp_all add: setInitialValue_def)

lemma add_child_fields [simp, expr_simps]:
  "set (children (add_child c e)) = insert c (set (children e))"
  "exprValue (add_child c e) = exprValue e" "initialValue (add_child c e) = initialValue e"
  "kind (add_child c e) = kind e"
  "directlyAffectedContainers (add_child c e) = directlyAffectedContainers e"
  by (auto simp: add_child_def)

lemma add_child_distinct [simp]: "distinct (children e) \<Longrightarrow> distinct (children (add_child c e))"
  by (simp add: add_child_def)

lemma fold_add_child_fields [simp]:
  "set (children (fold add_child cs e)) = set cs \<union> set (children e)"
  "kind (fold add_child cs e) = kind e" "exprValue (fold add_child cs e) = exprValue e"
  "initialValue (fold add_child cs e) = initialValue e"
  "directlyAffectedContainers (fold add_child cs e) = directlyAffectedContainers e"
  by (induction cs arbitrary: e) auto

lemma fold_add_child_distinct [simp]: "distinct (children e) \<Longrightarrow> distinct (children (fold add_child cs e))"
  by (induction cs arbitrary: e) auto

lemma newExpression_fields [simp, expr_simps]:
  "children (newExpression k) = []" "kind (newExpression k) = k" "directlyAffectedContainers (newExpression k) = None"
  by (simp_all add: newExpression_def)

lemma upcast_fields [simp, expr_simps]:
  "children (upcast f e) = children e" "exprValue (upcast f e) = exprValue e" "initialValue (upcast f e) = initialValue e"
  "properlyInitialized (upcast f e) = properlyInitialized e" "kind (upcast f e) = f (kind e)"
  "isFixed (upcast f e) = isFixed e" "directlyAffectedContainers (upcast f e) = directlyAffectedContainers e"
  by (simp_all add: upcast_def)

lemma snapToZero_zero [simp]: "snapToZero t 0 = 0"
  by (simp add: snapToZero_def)

lemma snapToZero_near: "0 < absolute t \<Longrightarrow> \<bar>snapToZero t v - v\<bar> < absolute t"
  by (simp add: snapToZero_def isZero_def)

lemma snapToZero_mono:
  assumes "0 < absolute t" "a \<le> b"
  shows "snapToZero t a \<le> snapToZero t b"
  using assms by (auto simp: snapToZero_def isZero_def)

lemma double_max_pos: "0 < double_max"
proof -
  have "(1 :: real) / 2 ^ 52 < 2" by simp
  then show ?thesis unfolding double_max_def by (intro mult_pos_pos) simp_all
qed

text \<open>A sum over a sorted association list is the sum over the map it represents.\<close>

lemma agg_sum_map:
  fixes A :: "('k::linorder \<times> real) list"
  assumes "distinct (map fst A)"
  shows "agg (+) 0 A = (\<Sum>k \<in> dom (map_of A). the (map_of A k))"
  using assms
proof (induction A)
  case (Cons e A)
  obtain k v where e: "e = (k, v)" by (cases e)
  then have notin: "k \<notin> dom (map_of A)" using Cons.prems by (auto simp: dom_map_of_conv_image_fst)
  have "(\<Sum>j \<in> dom (map_of (e # A)). the (map_of (e # A) j)) = v + (\<Sum>j \<in> dom (map_of A). the (map_of (e # A) j))"
    using notin by (simp add: e finite_dom_map_of)
  also have "(\<Sum>j \<in> dom (map_of A). the (map_of (e # A) j)) = (\<Sum>j \<in> dom (map_of A). the (map_of A j))"
    by (rule sum.cong) (use notin e in auto)
  finally show ?case using Cons e by simp
qed simp

lemma agg_sum_on:
  fixes A :: "('k::linorder \<times> real) list"
  assumes "distinct (map fst A)" "map_of A = (\<lambda>k. if k \<in> S then Some (f k) else None)"
  shows "agg (+) 0 A = sum f S"
proof -
  have "dom (map_of A) = S" by (auto simp: assms(2) dom_def split: if_splits)
  moreover have "(\<Sum>k \<in> S. the (map_of A k)) = sum f S" by (rule sum.cong) (simp_all add: assms(2))
  ultimately show ?thesis using agg_sum_map[OF assms(1)] by simp
qed

end
