(* ===== verification/Linear_Sum.thy ===== *)
theory Linear_Sum
  imports Expression_Base "HOL-Library.AList"
begin

text \<open>
  Weighted sums of expressions (\<open>solver/expressions/LinearSum.h\<close>,
  \<open>LinearSum.cpp\<close>). The weighted child values are kept in a \<open>SumMap\<close>, the AVL
  tree of \<open>Avl_Map\<close>, and the sum is its cached aggregate. The argument \<open>init\<close>
  gives \<open>getInitialValue()\<close> of an expression, \<open>apply\<close> and \<open>eval\<close> what the
  evaluator answers for a child, \<open>cur\<close> the member \<open>value\<close> of a child.
\<close>

section \<open>Definitions\<close>

record LinearSum =
  ls_constant :: real
  collection :: "(ExprId, real) AvlNode"
  coefficients :: "ExprId \<rightharpoonup> real"
  allCoeffsOne :: bool

definition getChildCoefficient :: "LinearSum \<Rightarrow> ExprId \<Rightarrow> real" where
  "getChildCoefficient s c = (if allCoeffsOne s then 1 else case coefficients s c of None \<Rightarrow> 0 | Some w \<Rightarrow> w)"

definition computeValue :: "PrecisionTolerances \<Rightarrow> LinearSum \<Rightarrow> real" where
  "computeValue t s = snapToZero t (ls_constant s + avl_query 0 (collection s))"

definition put_child :: "(ExprId \<Rightarrow> real) \<Rightarrow> ExprId \<Rightarrow> LinearSum \<Rightarrow> LinearSum" where
  "put_child v c s = s\<lparr>collection := avl_update (+) c (v c * getChildCoefficient s c) (collection s)\<rparr>"

definition rebuildInitialValueFrom :: "PrecisionTolerances \<Rightarrow> (ExprId \<Rightarrow> real) \<Rightarrow> ExprId list \<Rightarrow> LinearSum Expression \<Rightarrow> LinearSum Expression" where
  "rebuildInitialValueFrom t init exprs e =
    (let s = fold (put_child init) exprs (kind e) in setInitialValue (computeValue t s) (e\<lparr>kind := s\<rparr>))"

definition ls_add_term :: "ExprId \<times> real \<Rightarrow> LinearSum Expression \<Rightarrow> LinearSum Expression" where
  "ls_add_term = (\<lambda>(child, weight) e.
     if weight = 0 then e
     else (add_child child e)\<lparr>kind := (kind e)\<lparr>coefficients := emplace child weight (coefficients (kind e)),
            allCoeffsOne := allCoeffsOne (kind e) \<and> weight = 1\<rparr>\<rparr>)"

definition mkLinearSum :: "PrecisionTolerances \<Rightarrow> (ExprId \<Rightarrow> real) \<Rightarrow> real \<Rightarrow> (ExprId \<times> real) list \<Rightarrow> LinearSum Expression" where
  "mkLinearSum t init c coef =
    (let e = fold ls_add_term coef (newExpression \<lparr>ls_constant = c, collection = Leaf, coefficients = Map.empty, allCoeffsOne = True\<rparr>)
     in rebuildInitialValueFrom t init (children e) e)"

definition ls_is_integer :: "(ExprId \<Rightarrow> bool) \<Rightarrow> ExprId list \<Rightarrow> LinearSum \<Rightarrow> bool" where
  "ls_is_integer child_integer cs s \<longleftrightarrow> of_int \<lfloor>ls_constant s\<rfloor> = ls_constant s
     \<and> (\<forall>c \<in> set cs. of_int \<lfloor>getChildCoefficient s c\<rfloor> = getChildCoefficient s c \<and> child_integer c)"

definition ls_evaluate :: "PrecisionTolerances \<Rightarrow> (ExprId \<Rightarrow> real) \<Rightarrow> (ExprId \<Rightarrow> real) \<Rightarrow> ExprId list \<Rightarrow> real \<Rightarrow> LinearSum \<Rightarrow> real" where
  "ls_evaluate t cur eval changedChildren val s =
    snapToZero t (fold (\<lambda>c acc. acc + (eval c - cur c) * getChildCoefficient s c) changedChildren val)"

definition ls_fullApply :: "PrecisionTolerances \<Rightarrow> (ExprId \<Rightarrow> real) \<Rightarrow> ExprId list \<Rightarrow> LinearSum \<Rightarrow> LinearSum \<times> real" where
  "ls_fullApply t apply cs s =
    (let s' = fold (put_child apply) cs (s\<lparr>collection := avl_clear (collection s)\<rparr>) in (s', computeValue t s'))"

definition ls_partialApply :: "PrecisionTolerances \<Rightarrow> (ExprId \<Rightarrow> real) \<Rightarrow> ExprId list \<Rightarrow> LinearSum \<Rightarrow> LinearSum \<times> real" where
  "ls_partialApply t apply changedChildren s =
    (let s' = fold (put_child apply) changedChildren s in (s', computeValue t s'))"

definition ls_bound_term :: "(ExprId \<Rightarrow> Bounds) \<Rightarrow> LinearSum \<Rightarrow> ExprId \<Rightarrow> real \<times> real \<Rightarrow> real \<times> real" where
  "ls_bound_term b s c = (\<lambda>(lb, ub).
     let coef = getChildCoefficient s c in
     if coef = 0 then (lb, ub)
     else if coef > 0 then (lb + lower_bound (b c) * coef, ub + upper_bound (b c) * coef)
     else (lb + upper_bound (b c) * coef, ub + lower_bound (b c) * coef))"

definition ls_bounds :: "PrecisionTolerances \<Rightarrow> (ExprId \<Rightarrow> Bounds) \<Rightarrow> ExprId list \<Rightarrow> LinearSum \<Rightarrow> Bounds" where
  "ls_bounds t b cs s =
    (let (lb, ub) = fold (ls_bound_term b s) cs (ls_constant s, ls_constant s)
     in \<lparr>lower_bound = snapToZero t lb, upper_bound = snapToZero t ub\<rparr>)"

text \<open>\<open>coef[child] += w\<close> on a hash map that starts empty.\<close>

definition add_coef :: "ExprId \<times> real \<Rightarrow> (ExprId \<times> real) list \<Rightarrow> (ExprId \<times> real) list" where
  "add_coef = (\<lambda>(c, w) m. AList.map_default c w (\<lambda>x. x + w) m)"

definition terms_of :: "LinearSum Expression \<Rightarrow> (ExprId \<times> real) list" where
  "terms_of e = map (\<lambda>c. (c, getChildCoefficient (kind e) c)) (children e)"

definition ls_plus_const :: "PrecisionTolerances \<Rightarrow> (ExprId \<Rightarrow> real) \<Rightarrow> LinearSum Expression \<Rightarrow> real \<Rightarrow> LinearSum Expression" where
  "ls_plus_const t init e other = mkLinearSum t init (ls_constant (kind e) + other) (terms_of e)"

definition ls_plus :: "PrecisionTolerances \<Rightarrow> (ExprId \<Rightarrow> real) \<Rightarrow> LinearSum Expression \<Rightarrow> LinearSum Expression \<Rightarrow> LinearSum Expression" where
  "ls_plus t init e other =
    mkLinearSum t init (ls_constant (kind e) + ls_constant (kind other)) (fold add_coef (terms_of e @ terms_of other) [])"

definition combine_term :: "real \<Rightarrow> ExprId \<times> real \<Rightarrow> LinearSum Expression \<Rightarrow> LinearSum Expression" where
  "combine_term scale = (\<lambda>(child, coefficient) e.
     let newCoeff = (case coefficients (kind e) child of None \<Rightarrow> 0 | Some w \<Rightarrow> w) + coefficient * scale in
     (add_child child e)\<lparr>kind := (kind e)\<lparr>coefficients := (coefficients (kind e))(child \<mapsto> newCoeff),
        allCoeffsOne := allCoeffsOne (kind e) \<and> newCoeff = 1\<rparr>\<rparr>)"

definition ls_combine :: "PrecisionTolerances \<Rightarrow> (ExprId \<Rightarrow> real) \<Rightarrow> LinearSum Expression \<Rightarrow> real \<Rightarrow> LinearSum Expression \<Rightarrow> LinearSum Expression" where
  "ls_combine t init other scale e =
    (let e1 = e\<lparr>kind := (kind e)\<lparr>ls_constant := ls_constant (kind e) + ls_constant (kind other) * scale\<rparr>\<rparr>;
         e2 = fold (combine_term scale) (terms_of other) e1
     in rebuildInitialValueFrom t init (children other) e2)"

definition ls_add_const :: "PrecisionTolerances \<Rightarrow> real \<Rightarrow> LinearSum Expression \<Rightarrow> LinearSum Expression" where
  "ls_add_const t other e =
    (let s = (kind e)\<lparr>ls_constant := ls_constant (kind e) + other\<rparr> in setInitialValue (computeValue t s) (e\<lparr>kind := s\<rparr>))"

definition ls_add_sum :: "PrecisionTolerances \<Rightarrow> (ExprId \<Rightarrow> real) \<Rightarrow> LinearSum Expression \<Rightarrow> LinearSum Expression \<Rightarrow> LinearSum Expression" where
  "ls_add_sum t init other e = ls_combine t init other 1 e"

definition ls_sub_const :: "PrecisionTolerances \<Rightarrow> real \<Rightarrow> LinearSum Expression \<Rightarrow> LinearSum Expression" where
  "ls_sub_const t other e = ls_add_const t (- other) e"

definition ls_sub_sum :: "PrecisionTolerances \<Rightarrow> (ExprId \<Rightarrow> real) \<Rightarrow> LinearSum Expression \<Rightarrow> LinearSum Expression \<Rightarrow> LinearSum Expression" where
  "ls_sub_sum t init other e = ls_combine t init other (- 1) e"

definition ls_times :: "PrecisionTolerances \<Rightarrow> (ExprId \<Rightarrow> real) \<Rightarrow> LinearSum Expression \<Rightarrow> real \<Rightarrow> LinearSum Expression" where
  "ls_times t init e other = mkLinearSum t init (ls_constant (kind e) * other) (map (\<lambda>(c, w). (c, w * other)) (terms_of e))"

definition ls_scale :: "PrecisionTolerances \<Rightarrow> (ExprId \<Rightarrow> real) \<Rightarrow> real \<Rightarrow> LinearSum Expression \<Rightarrow> LinearSum Expression" where
  "ls_scale t init other e =
    rebuildInitialValueFrom t init (children e)
      (e\<lparr>kind := (kind e)\<lparr>ls_constant := ls_constant (kind e) * other,
          coefficients := (\<lambda>c. map_option (\<lambda>w. w * other) (coefficients (kind e) c)),
          allCoeffsOne := allCoeffsOne (kind e) \<and> other = 1\<rparr>\<rparr>)"

definition ls_divide :: "PrecisionTolerances \<Rightarrow> (ExprId \<Rightarrow> real) \<Rightarrow> real \<Rightarrow> LinearSum Expression \<Rightarrow> LinearSum Expression" where
  "ls_divide t init other e = ls_scale t init (1 / other) e"

definition ls_equals :: "LinearSum Expression \<Rightarrow> real \<Rightarrow> bool" where
  "ls_equals e other \<longleftrightarrow> ls_constant (kind e) = other \<and> children e = []"

definition ls_add :: "PrecisionTolerances \<Rightarrow> (ExprId \<Rightarrow> real) \<Rightarrow> ExprId \<Rightarrow> real \<Rightarrow> LinearSum Expression \<Rightarrow> LinearSum Expression" where
  "ls_add t init expr coef e =
    (let s = (kind e)\<lparr>coefficients := emplace expr coef (coefficients (kind e)),
                allCoeffsOne := allCoeffsOne (kind e) \<and> coef = 1,
                collection := avl_update (+) expr (init expr * coef) (collection (kind e))\<rparr>
     in setInitialValue (computeValue t s) ((add_child expr e)\<lparr>kind := s\<rparr>))"

section \<open>The cached sum\<close>

text \<open>The value a sum has for given child values, before rounding at zero.\<close>

definition raw_sum :: "LinearSum \<Rightarrow> ExprId list \<Rightarrow> (ExprId \<Rightarrow> real) \<Rightarrow> real" where
  "raw_sum s cs v = ls_constant s + (\<Sum>c \<in> set cs. v c * getChildCoefficient s c)"

definition ls_ok :: "LinearSum \<Rightarrow> ExprId list \<Rightarrow> (ExprId \<Rightarrow> real) \<Rightarrow> bool" where
  "ls_ok s cs v \<longleftrightarrow> avl_inv (+) (collection s) \<and>
     map_of (entries (collection s)) = (\<lambda>c. if c \<in> set cs then Some (v c * getChildCoefficient s c) else None)"

lemma put_child_fields [simp]:
  "ls_constant (put_child v c s) = ls_constant s" "coefficients (put_child v c s) = coefficients s"
  "allCoeffsOne (put_child v c s) = allCoeffsOne s" "getChildCoefficient (put_child v c s) d = getChildCoefficient s d"
  by (simp_all add: put_child_def getChildCoefficient_def)

lemma getChildCoefficient_collection [simp]: "getChildCoefficient (s\<lparr>collection := x\<rparr>) c = getChildCoefficient s c"
  by (simp add: getChildCoefficient_def)

lemma fold_put_child_fields [simp]:
  "ls_constant (fold (put_child v) cs s) = ls_constant s" "coefficients (fold (put_child v) cs s) = coefficients s"
  "allCoeffsOne (fold (put_child v) cs s) = allCoeffsOne s"
  "getChildCoefficient (fold (put_child v) cs s) d = getChildCoefficient s d"
  by (induction cs arbitrary: s) simp_all

lemma fold_put_child_entries:
  "avl_inv (+) (collection s) \<Longrightarrow>
     avl_inv (+) (collection (fold (put_child v) cs s)) \<and>
     map_of (entries (collection (fold (put_child v) cs s))) =
       (\<lambda>c. if c \<in> set cs then Some (v c * getChildCoefficient s c) else map_of (entries (collection s)) c)"
proof (induction cs arbitrary: s)
  case (Cons c cs)
  have "keys_sorted (entries (collection s))" using Cons.prems by (simp add: avl_inv_def)
  then have "map_of (entries (collection (put_child v c s))) = (map_of (entries (collection s)))(c \<mapsto> v c * getChildCoefficient s c)"
    using avl_update_inv[OF Cons.prems, of c "v c * getChildCoefficient s c"] by (simp add: put_child_def map_of_al_put)
  moreover have "avl_inv (+) (collection (put_child v c s))"
    using avl_update_inv(1)[OF Cons.prems] by (simp add: put_child_def)
  ultimately show ?case using Cons.IH[of "put_child v c s"] by (auto simp: fun_eq_iff)
qed simp

lemma ls_ok_query:
  assumes "ls_ok s cs v"
  shows "ls_constant s + avl_query 0 (collection s) = raw_sum s cs v"
proof -
  have inv: "results_ok (+) (collection s)" "distinct (map fst (entries (collection s)))"
    using assms by (auto simp: ls_ok_def avl_inv_def keys_sorted_distinct)
  have "avl_query 0 (collection s) = agg (+) 0 (entries (collection s))"
    by (rule real_sum.avl_query_agg[OF inv(1)])
  also have "\<dots> = (\<Sum>c \<in> set cs. v c * getChildCoefficient s c)"
    using assms by (intro agg_sum_on[OF inv(2)]) (auto simp: ls_ok_def)
  finally show ?thesis by (simp add: raw_sum_def)
qed

lemma ls_fullApply_ok:
  "ls_ok (fst (ls_fullApply t v cs s)) cs v \<and> snd (ls_fullApply t v cs s) = snapToZero t (raw_sum s cs v)"
proof -
  let ?s = "fold (put_child v) cs (s\<lparr>collection := Leaf\<rparr>)"
  have ok: "ls_ok ?s cs v"
    using fold_put_child_entries[of "s\<lparr>collection := Leaf\<rparr>" v cs] by (auto simp: ls_ok_def avl_inv_Leaf fun_eq_iff)
  moreover have "raw_sum ?s cs v = raw_sum s cs v" by (simp add: raw_sum_def)
  ultimately show ?thesis using ls_ok_query[OF ok] by (simp add: ls_fullApply_def avl_clear_def computeValue_def Let_def)
qed

lemma ls_partialApply_ok:
  assumes "ls_ok s cs v" "set D \<subseteq> set cs" "\<forall>c \<in> set cs - set D. v c = v' c"
  shows "ls_ok (fst (ls_partialApply t v' D s)) cs v' \<and> snd (ls_partialApply t v' D s) = snapToZero t (raw_sum s cs v')"
proof -
  let ?s = "fold (put_child v') D s"
  have ok: "ls_ok ?s cs v'"
    using fold_put_child_entries[of s v' D] assms by (auto simp: ls_ok_def fun_eq_iff)
  moreover have "raw_sum ?s cs v' = raw_sum s cs v'" by (simp add: raw_sum_def)
  ultimately show ?thesis using ls_ok_query[OF ok] by (simp add: ls_partialApply_def computeValue_def Let_def)
qed

lemma ls_apply_fields:
  "ls_constant (fst (ls_partialApply t v D s)) = ls_constant s"
  "getChildCoefficient (fst (ls_partialApply t v D s)) c = getChildCoefficient s c"
  "ls_constant (fst (ls_fullApply t v D s)) = ls_constant s"
  "getChildCoefficient (fst (ls_fullApply t v D s)) c = getChildCoefficient s c"
  by (simp_all add: ls_partialApply_def ls_fullApply_def Let_def)

text \<open>The evaluation adds the weighted changes; it agrees with the recomputed
  sum unless the stored value was itself rounded to zero.\<close>

lemma fold_add_sum: "fold (\<lambda>c acc. acc + f c) cs (a :: real) = a + sum_list (map f cs)"
  by (induction cs arbitrary: a) auto

lemma ls_evaluate_ok:
  assumes "set D \<subseteq> set cs" "distinct D" "\<forall>c \<in> set cs - set D. eval c = cur c"
    and "val = snapToZero t (raw_sum s cs cur)" "isZero t (raw_sum s cs cur) \<longrightarrow> raw_sum s cs cur = 0"
  shows "ls_evaluate t cur eval D val s = snapToZero t (raw_sum s cs eval)"
proof -
  let ?w = "getChildCoefficient s"
  have "sum_list (map (\<lambda>c. (eval c - cur c) * ?w c) D) = (\<Sum>c \<in> set D. (eval c - cur c) * ?w c)"
    using assms(2) by (rule sum_list_distinct_conv_sum_set)
  also have "\<dots> = (\<Sum>c \<in> set cs. (eval c - cur c) * ?w c)"
    by (rule sum.mono_neutral_left) (use assms(1,3) in auto)
  finally have "raw_sum s cs cur + sum_list (map (\<lambda>c. (eval c - cur c) * ?w c) D) = raw_sum s cs eval"
    by (simp add: raw_sum_def left_diff_distrib sum_subtractf)
  moreover have "val = raw_sum s cs cur" using assms(4,5) by (auto simp: snapToZero_def)
  ultimately show ?thesis by (simp add: ls_evaluate_def fold_add_sum)
qed

section \<open>Construction and arithmetic\<close>

text \<open>Every child has a coefficient, and the flag is only set when all are one.\<close>

definition ls_wf :: "LinearSum Expression \<Rightarrow> bool" where
  "ls_wf e \<longleftrightarrow> distinct (children e) \<and> dom (coefficients (kind e)) = set (children e)
     \<and> (allCoeffsOne (kind e) \<longrightarrow> (\<forall>w \<in> ran (coefficients (kind e)). w = 1))"

definition ls_term :: "LinearSum \<Rightarrow> ExprId \<Rightarrow> real" where
  "ls_term s c = (case coefficients s c of None \<Rightarrow> 0 | Some w \<Rightarrow> w)"

lemma ls_wf_coefficient:
  assumes "ls_wf e" "c \<in> set (children e)"
  shows "getChildCoefficient (kind e) c = ls_term (kind e) c"
proof -
  obtain w where w: "coefficients (kind e) c = Some w" using assms by (auto simp: ls_wf_def)
  then have "allCoeffsOne (kind e) \<Longrightarrow> w = 1" using assms(1) w ranI[of "coefficients (kind e)" c w] by (simp add: ls_wf_def)
  then show ?thesis using w by (simp add: getChildCoefficient_def ls_term_def)
qed

lemma raw_sum_terms:
  "ls_wf e \<Longrightarrow> raw_sum (kind e) (children e) v = ls_constant (kind e) + (\<Sum>c \<in> set (children e). v c * ls_term (kind e) c)"
  using ls_wf_coefficient[of e] by (simp add: raw_sum_def)

definition ls_consistent :: "PrecisionTolerances \<Rightarrow> (ExprId \<Rightarrow> real) \<Rightarrow> LinearSum Expression \<Rightarrow> bool" where
  "ls_consistent t init e \<longleftrightarrow> ls_wf e \<and> ls_ok (kind e) (children e) init \<and> properlyInitialized e
     \<and> initialValue e = snapToZero t (raw_sum (kind e) (children e) init) \<and> exprValue e = initialValue e"

lemma rebuild_fields [simp]:
  "children (rebuildInitialValueFrom t init exprs e) = children e"
  "raw_sum (kind (rebuildInitialValueFrom t init exprs e)) cs v = raw_sum (kind e) cs v"
  by (simp_all add: rebuildInitialValueFrom_def raw_sum_def Let_def)

lemma rebuild_consistent:
  assumes "ls_wf e" "set exprs \<subseteq> set (children e)"
    and "avl_inv (+) (collection (kind e))"
    and "\<And>c. c \<notin> set exprs \<Longrightarrow> map_of (entries (collection (kind e))) c =
           (if c \<in> set (children e) then Some (init c * getChildCoefficient (kind e) c) else None)"
  shows "ls_consistent t init (rebuildInitialValueFrom t init exprs e)"
proof -
  let ?s = "fold (put_child init) exprs (kind e)"
  have ok: "ls_ok ?s (children e) init"
    using fold_put_child_entries[OF assms(3), of init exprs] assms(2,4) by (auto simp: ls_ok_def fun_eq_iff)
  have raw: "raw_sum ?s (children e) v = raw_sum (kind e) (children e) v" for v by (simp add: raw_sum_def)
  have "ls_wf (e\<lparr>kind := ?s\<rparr>)" using assms(1) by (simp add: ls_wf_def)
  then have wf: "ls_wf (rebuildInitialValueFrom t init exprs e)" by (simp add: rebuildInitialValueFrom_def ls_wf_def Let_def)
  show ?thesis
    using ok wf ls_ok_query[OF ok] raw by (simp add: ls_consistent_def rebuildInitialValueFrom_def computeValue_def Let_def)
qed

definition wsum :: "(ExprId \<Rightarrow> real) \<Rightarrow> (ExprId \<times> real) list \<Rightarrow> real" where
  "wsum v ts = sum_list (map (\<lambda>(c, w). v c * w) ts)"

lemma wsum_simps [simp]: "wsum v [] = 0" "wsum v ((c, w) # ts) = v c * w + wsum v ts" "wsum v (ts @ us) = wsum v ts + wsum v us"
  by (simp_all add: wsum_def)

lemma wsum_terms_of: "distinct (children e) \<Longrightarrow> ls_constant (kind e) + wsum v (terms_of e) = raw_sum (kind e) (children e) v"
  by (simp add: raw_sum_def terms_of_def wsum_def o_def sum_list_distinct_conv_sum_set)

definition put_term :: "ExprId \<Rightarrow> real \<Rightarrow> LinearSum Expression \<Rightarrow> LinearSum Expression" where
  "put_term c w e = (add_child c e)\<lparr>kind := (kind e)\<lparr>coefficients := (coefficients (kind e))(c \<mapsto> w),
     allCoeffsOne := allCoeffsOne (kind e) \<and> w = 1\<rparr>\<rparr>"

lemma put_term_fields [simp]:
  "set (children (put_term c w e)) = insert c (set (children e))" "collection (kind (put_term c w e)) = collection (kind e)"
  "ls_constant (kind (put_term c w e)) = ls_constant (kind e)"
  "ls_term (kind (put_term c w e)) d = (if d = c then w else ls_term (kind e) d)"
  by (simp_all add: put_term_def ls_term_def)

lemma put_term_wf: "ls_wf e \<Longrightarrow> ls_wf (put_term c w e)"
  by (auto simp: put_term_def ls_wf_def ran_def split: if_splits)

lemma put_term_raw:
  assumes "ls_wf e"
  shows "raw_sum (kind (put_term c w e)) (children (put_term c w e)) v
    = raw_sum (kind e) (children e) v + v c * (w - ls_term (kind e) c)"
proof -
  let ?f = "\<lambda>d. v d * ls_term (kind e) d"
  have zero: "c \<notin> set (children e) \<Longrightarrow> ls_term (kind e) c = 0"
    using assms by (auto simp: ls_wf_def ls_term_def split: option.splits)
  have "(\<Sum>d \<in> insert c (set (children e)). v d * ls_term (kind (put_term c w e)) d)
      = v c * w + (\<Sum>d \<in> set (children e) - {c}. v d * ls_term (kind (put_term c w e)) d)"
    by (simp add: sum.insert_remove)
  also have "(\<Sum>d \<in> set (children e) - {c}. v d * ls_term (kind (put_term c w e)) d) = sum ?f (set (children e) - {c})"
    by (rule sum.cong) auto
  also have "\<dots> = sum ?f (set (children e)) - ?f c" using zero by (auto simp: sum_diff1)
  finally show ?thesis
    using raw_sum_terms[OF put_term_wf[OF assms, of c w], of v] raw_sum_terms[OF assms, of v] by (simp add: right_diff_distrib)
qed

lemma add_term_step:
  assumes "ls_wf e" "c \<notin> set (children e)"
  shows "ls_wf (ls_add_term (c, w) e)" "collection (kind (ls_add_term (c, w) e)) = collection (kind e)"
    "set (children (ls_add_term (c, w) e)) \<subseteq> insert c (set (children e))"
    "raw_sum (kind (ls_add_term (c, w) e)) (children (ls_add_term (c, w) e)) v = raw_sum (kind e) (children e) v + v c * w"
proof -
  have fresh: "coefficients (kind e) c = None" using assms by (auto simp: ls_wf_def)
  then have eq: "ls_add_term (c, w) e = (if w = 0 then e else put_term c w e)" "ls_term (kind e) c = 0"
    by (simp_all add: ls_add_term_def emplace_def put_term_def ls_term_def)
  show "ls_wf (ls_add_term (c, w) e)" "collection (kind (ls_add_term (c, w) e)) = collection (kind e)"
    "set (children (ls_add_term (c, w) e)) \<subseteq> insert c (set (children e))"
    using put_term_wf[OF assms(1)] assms(1) by (auto simp: eq)
  show "raw_sum (kind (ls_add_term (c, w) e)) (children (ls_add_term (c, w) e)) v = raw_sum (kind e) (children e) v + v c * w"
    using put_term_raw[OF assms(1), of c w v] by (simp add: eq)
qed

lemma fold_add_term:
  "ls_wf e \<Longrightarrow> distinct (map fst ts) \<Longrightarrow> fst ` set ts \<inter> set (children e) = {} \<Longrightarrow>
     ls_wf (fold ls_add_term ts e) \<and> collection (kind (fold ls_add_term ts e)) = collection (kind e) \<and>
     raw_sum (kind (fold ls_add_term ts e)) (children (fold ls_add_term ts e)) v = raw_sum (kind e) (children e) v + wsum v ts"
proof (induction ts arbitrary: e)
  case (Cons p ts)
  obtain c w where p: "p = (c, w)" by (cases p)
  have c: "c \<notin> set (children e)" using Cons.prems(3) p by auto
  note step = add_term_step[OF Cons.prems(1) c, where w = w]
  have "fst ` set ts \<inter> set (children (ls_add_term p e)) = {}" using Cons.prems(2,3) step(3) p by auto
  then show ?case using Cons.IH[of "ls_add_term p e"] Cons.prems(2) step p by simp
qed simp

lemma mkLinearSum_consistent:
  assumes "distinct (map fst ts)"
  shows "ls_consistent t init (mkLinearSum t init k ts)"
    "raw_sum (kind (mkLinearSum t init k ts)) (children (mkLinearSum t init k ts)) v = k + wsum v ts"
proof -
  let ?start = "newExpression \<lparr>ls_constant = k, collection = Leaf, coefficients = Map.empty, allCoeffsOne = True\<rparr>"
  let ?e = "fold ls_add_term ts ?start"
  have "ls_wf ?start" "raw_sum (kind ?start) (children ?start) v = k" by (simp_all add: ls_wf_def raw_sum_def)
  then have e: "ls_wf ?e" "collection (kind ?e) = Leaf" "raw_sum (kind ?e) (children ?e) v = k + wsum v ts"
    using fold_add_term[of ?start ts v] assms by simp_all
  have "avl_inv (+) (collection (kind ?e))" using e(2) by (simp add: avl_inv_Leaf)
  from rebuild_consistent[OF e(1) order.refl this, of init t]
  show "ls_consistent t init (mkLinearSum t init k ts)"
    "raw_sum (kind (mkLinearSum t init k ts)) (children (mkLinearSum t init k ts)) v = k + wsum v ts"
    using e(2,3) by (simp_all add: mkLinearSum_def Let_def)
qed

lemma map_default_wsum:
  "distinct (map fst m) \<Longrightarrow> distinct (map fst (AList.map_default c w (\<lambda>x. x + w) m)) \<and>
     wsum v (AList.map_default c w (\<lambda>x. x + w) m) = wsum v m + v c * w"
proof (induction m)
  case (Cons p m)
  have "fst ` set (AList.map_default c w (\<lambda>x. x + w) m) = insert c (fst ` set m)" by (induction m) (auto simp: image_iff)
  then show ?case using Cons by (cases p) (auto simp: algebra_simps)
qed simp

lemma fold_add_coef:
  "distinct (map fst m) \<Longrightarrow> distinct (map fst (fold add_coef ts m)) \<and> wsum v (fold add_coef ts m) = wsum v m + wsum v ts"
proof (induction ts arbitrary: m)
  case (Cons p ts)
  then show ?case using map_default_wsum[of m "fst p" "snd p" v] by (cases p) (simp add: add_coef_def)
qed simp

lemma combine_term_step:
  assumes "ls_wf e"
  shows "ls_wf (combine_term k (c, w) e)" "collection (kind (combine_term k (c, w) e)) = collection (kind e)"
    "set (children (combine_term k (c, w) e)) = insert c (set (children e))"
    "d \<noteq> c \<Longrightarrow> ls_term (kind (combine_term k (c, w) e)) d = ls_term (kind e) d"
    "raw_sum (kind (combine_term k (c, w) e)) (children (combine_term k (c, w) e)) v = raw_sum (kind e) (children e) v + k * (v c * w)"
proof -
  have eq: "combine_term k (c, w) e = put_term c (ls_term (kind e) c + w * k) e"
    by (simp add: combine_term_def put_term_def ls_term_def Let_def)
  show "ls_wf (combine_term k (c, w) e)" "collection (kind (combine_term k (c, w) e)) = collection (kind e)"
    "set (children (combine_term k (c, w) e)) = insert c (set (children e))"
    "d \<noteq> c \<Longrightarrow> ls_term (kind (combine_term k (c, w) e)) d = ls_term (kind e) d"
    using put_term_wf[OF assms] by (simp_all add: eq)
  show "raw_sum (kind (combine_term k (c, w) e)) (children (combine_term k (c, w) e)) v = raw_sum (kind e) (children e) v + k * (v c * w)"
    using put_term_raw[OF assms, of c "ls_term (kind e) c + w * k" v] by (simp add: eq algebra_simps)
qed

lemma fold_combine_term:
  "ls_wf e \<Longrightarrow> ls_wf (fold (combine_term k) ts e) \<and> collection (kind (fold (combine_term k) ts e)) = collection (kind e) \<and>
     set (children (fold (combine_term k) ts e)) = fst ` set ts \<union> set (children e) \<and>
     (\<forall>d. d \<notin> fst ` set ts \<longrightarrow> ls_term (kind (fold (combine_term k) ts e)) d = ls_term (kind e) d) \<and>
     raw_sum (kind (fold (combine_term k) ts e)) (children (fold (combine_term k) ts e)) v = raw_sum (kind e) (children e) v + k * wsum v ts"
proof (induction ts arbitrary: e)
  case (Cons p ts)
  obtain c w where p: "p = (c, w)" by (cases p)
  note step = combine_term_step[OF Cons.prems, where k = k and c = c and w = w]
  show ?case using Cons.IH[OF step(1)] step(2-5) unfolding p by (auto simp: algebra_simps)
qed simp

definition sum_of :: "LinearSum Expression \<Rightarrow> (ExprId \<Rightarrow> real) \<Rightarrow> real" where
  "sum_of e v = raw_sum (kind e) (children e) v"

lemma getChildCoefficient_constant [simp]: "getChildCoefficient (s\<lparr>ls_constant := k\<rparr>) c = getChildCoefficient s c"
  by (simp add: getChildCoefficient_def)

lemma ls_ok_constant [simp]: "ls_ok (s\<lparr>ls_constant := k\<rparr>) cs v \<longleftrightarrow> ls_ok s cs v"
  by (simp add: ls_ok_def cong: if_cong)

lemma ls_wf_constant [simp]: "ls_wf (e\<lparr>kind := (kind e)\<lparr>ls_constant := k\<rparr>\<rparr>) \<longleftrightarrow> ls_wf e"
  by (simp add: ls_wf_def)

lemma raw_sum_constant [simp]: "raw_sum (s\<lparr>ls_constant := k\<rparr>) cs v = raw_sum s cs v + (k - ls_constant s)"
  by (simp add: raw_sum_def)

lemma ls_plus_ok:
  assumes "ls_wf a" "ls_wf b"
  shows "ls_consistent t init (ls_plus t init a b)" "sum_of (ls_plus t init a b) v = sum_of a v + sum_of b v"
proof -
  let ?ts = "fold add_coef (terms_of a @ terms_of b) []"
  have ts: "distinct (map fst ?ts)" "wsum v ?ts = wsum v (terms_of a) + wsum v (terms_of b)"
    using fold_add_coef[of "[]" "terms_of a @ terms_of b" v] by simp_all
  show "ls_consistent t init (ls_plus t init a b)"
    unfolding ls_plus_def by (rule mkLinearSum_consistent(1)[OF ts(1)])
  have "distinct (children a)" "distinct (children b)" using assms by (simp_all add: ls_wf_def)
  then show "sum_of (ls_plus t init a b) v = sum_of a v + sum_of b v"
    using mkLinearSum_consistent(2)[OF ts(1), of t init "ls_constant (kind a) + ls_constant (kind b)" v] ts(2)
      wsum_terms_of[of a v] wsum_terms_of[of b v] by (simp add: ls_plus_def sum_of_def)
qed

lemma ls_plus_const_ok:
  assumes "ls_wf a"
  shows "ls_consistent t init (ls_plus_const t init a k)" "sum_of (ls_plus_const t init a k) v = sum_of a v + k"
proof -
  have "distinct (children a)" using assms by (simp add: ls_wf_def)
  moreover from this have "distinct (map fst (terms_of a))" by (simp add: terms_of_def o_def)
  ultimately show "ls_consistent t init (ls_plus_const t init a k)" "sum_of (ls_plus_const t init a k) v = sum_of a v + k"
    using mkLinearSum_consistent[of "terms_of a" t init "ls_constant (kind a) + k"] wsum_terms_of[of a v]
    by (simp_all add: ls_plus_const_def sum_of_def)
qed

lemma ls_times_ok:
  assumes "ls_wf a"
  shows "ls_consistent t init (ls_times t init a k)" "sum_of (ls_times t init a k) v = k * sum_of a v"
proof -
  let ?ts = "map (\<lambda>(c, w). (c, w * k)) (terms_of a)"
  have "distinct (children a)" using assms by (simp add: ls_wf_def)
  moreover from this have ts: "distinct (map fst ?ts)" by (simp add: terms_of_def o_def)
  moreover have "wsum v ?ts = k * wsum v (terms_of a)" by (induction "terms_of a") (auto simp: wsum_def o_def case_prod_beta sum_list_const_mult[symmetric] algebra_simps)
  ultimately show "ls_consistent t init (ls_times t init a k)" "sum_of (ls_times t init a k) v = k * sum_of a v"
    using mkLinearSum_consistent[OF ts, of t init "ls_constant (kind a) * k"] wsum_terms_of[of a v, symmetric]
    by (simp_all add: ls_times_def sum_of_def algebra_simps)
qed

lemma ls_add_const_ok:
  assumes "ls_consistent t init a"
  shows "ls_consistent t init (ls_add_const t k a)" "sum_of (ls_add_const t k a) v = sum_of a v + k"
proof -
  have "ls_ok ((kind a)\<lparr>ls_constant := ls_constant (kind a) + k\<rparr>) (children a) init" using assms by (simp add: ls_consistent_def)
  from ls_ok_query[OF this] show "ls_consistent t init (ls_add_const t k a)"
    using assms by (simp add: ls_add_const_def ls_consistent_def ls_wf_def computeValue_def Let_def algebra_simps)
  show "sum_of (ls_add_const t k a) v = sum_of a v + k" by (simp add: ls_add_const_def sum_of_def Let_def)
qed

lemma ls_combine_ok:
  assumes "ls_consistent t init a" "ls_wf b"
  shows "ls_consistent t init (ls_combine t init b k a)" "sum_of (ls_combine t init b k a) v = sum_of a v + k * sum_of b v"
proof -
  let ?a = "a\<lparr>kind := (kind a)\<lparr>ls_constant := ls_constant (kind a) + ls_constant (kind b) * k\<rparr>\<rparr>"
  let ?e = "fold (combine_term k) (terms_of b) ?a"
  have wf: "ls_wf ?a" "ls_wf a" using assms(1) by (simp_all add: ls_consistent_def)
  have keys: "fst ` set (terms_of b) = set (children b)" by (simp add: terms_of_def image_image)
  note e = fold_combine_term[OF wf(1), of k "terms_of b"]
  have same: "getChildCoefficient (kind ?e) c = getChildCoefficient (kind a) c" if "c \<in> set (children a)" "c \<notin> set (children b)" for c
    using that e keys ls_wf_coefficient[of ?e c] ls_wf_coefficient[OF wf(2), of c] by (simp add: ls_term_def)
  have "avl_inv (+) (collection (kind ?e))" using e assms(1) by (simp add: ls_consistent_def ls_ok_def)
  note rebuilt = this
  have entries: "map_of (entries (collection (kind ?e))) c =
      (if c \<in> set (children ?e) then Some (init c * getChildCoefficient (kind ?e) c) else None)" if "c \<notin> set (children b)" for c
    using that e keys same[of c] assms(1) by (simp add: ls_consistent_def ls_ok_def)
  have "ls_consistent t init (rebuildInitialValueFrom t init (children b) ?e)"
    by (rule rebuild_consistent[OF _ _ rebuilt entries]) (use e keys in auto)
  then show "ls_consistent t init (ls_combine t init b k a)" by (simp add: ls_combine_def Let_def)
  have "distinct (children b)" using assms(2) by (simp add: ls_wf_def)
  then show "sum_of (ls_combine t init b k a) v = sum_of a v + k * sum_of b v"
    using e[of v] wsum_terms_of[of b v, symmetric] by (simp add: ls_combine_def sum_of_def Let_def algebra_simps)
qed

lemma ls_scale_ok:
  assumes "ls_consistent t init a"
  shows "ls_consistent t init (ls_scale t init k a)" "sum_of (ls_scale t init k a) v = k * sum_of a v"
proof -
  let ?e = "a\<lparr>kind := (kind a)\<lparr>ls_constant := ls_constant (kind a) * k,
      coefficients := (\<lambda>c. map_option (\<lambda>w. w * k) (coefficients (kind a) c)), allCoeffsOne := allCoeffsOne (kind a) \<and> k = 1\<rparr>\<rparr>"
  have wf: "ls_wf a" "avl_inv (+) (collection (kind a))"
    "\<And>c. c \<notin> set (children a) \<Longrightarrow> map_of (entries (collection (kind a))) c = None"
    using assms by (simp_all add: ls_consistent_def ls_ok_def)
  then have wf': "ls_wf ?e" by (fastforce simp: ls_wf_def ran_def dom_def)
  have "ls_term (kind ?e) c = ls_term (kind a) c * k" for c by (simp add: ls_term_def split: option.splits)
  then have raw: "raw_sum (kind ?e) (children a) v = k * raw_sum (kind a) (children a) v"
    using raw_sum_terms[OF wf', of v] raw_sum_terms[OF wf(1), of v] by (simp add: algebra_simps sum_distrib_left)
  have "avl_inv (+) (collection (kind ?e))" using wf(2) by simp
  from rebuild_consistent[of ?e "children a" init t, OF wf' _ this]
  show "ls_consistent t init (ls_scale t init k a)" "sum_of (ls_scale t init k a) v = k * sum_of a v"
    using raw wf(3) by (simp_all add: ls_scale_def sum_of_def)
qed

lemma ls_add_ok:
  assumes "ls_consistent t init a" "c \<notin> set (children a)"
  shows "ls_consistent t init (ls_add t init c w a)" "sum_of (ls_add t init c w a) v = sum_of a v + v c * w"
proof -
  have wf: "ls_wf a" "ls_ok (kind a) (children a) init" using assms by (simp_all add: ls_consistent_def)
  have fresh: "coefficients (kind a) c = None" "ls_term (kind a) c = 0"
    using wf(1) assms(2) by (auto simp: ls_wf_def ls_term_def split: option.splits)
  let ?e = "put_term c w a"
  let ?s = "(kind ?e)\<lparr>collection := avl_update (+) c (init c * w) (collection (kind a))\<rparr>"
  have eq: "ls_add t init c w a = setInitialValue (computeValue t ?s) (?e\<lparr>kind := ?s\<rparr>)"
    using fresh(1) by (simp add: ls_add_def put_term_def emplace_def Let_def)
  have coef: "getChildCoefficient (kind ?e) d = (if d = c then w else getChildCoefficient (kind a) d)" if "d \<in> insert c (set (children a))" for d
    using that ls_wf_coefficient[OF put_term_wf[OF wf(1)], of d c w] ls_wf_coefficient[OF wf(1), of d] by auto
  have avl: "avl_inv (+) (collection (kind a))" "keys_sorted (entries (collection (kind a)))"
    using wf(2) by (auto simp: ls_ok_def avl_inv_def)
  have ok: "ls_ok ?s (children ?e) init"
    using avl_update_inv[OF avl(1), of c "init c * w"] wf(2) coef assms(2) by (auto simp: ls_ok_def map_of_al_put[OF avl(2)] fun_eq_iff)
  have "ls_wf (?e\<lparr>kind := ?s\<rparr>)" using put_term_wf[OF wf(1), of c w] by (simp add: ls_wf_def)
  then show "ls_consistent t init (ls_add t init c w a)"
    using ok ls_ok_query[OF ok] by (simp add: eq ls_consistent_def ls_wf_def computeValue_def)
  show "sum_of (ls_add t init c w a) v = sum_of a v + v c * w"
    using put_term_raw[OF wf(1), of c w v] fresh(2) by (simp add: eq sum_of_def raw_sum_def)
qed

section \<open>Bounds\<close>

lemma fold_bound_term:
  assumes "distinct cs" "\<And>c. c \<in> set cs \<Longrightarrow> lower_bound (b c) \<le> v c \<and> v c \<le> upper_bound (b c)" "lb \<le> x" "x \<le> ub"
  shows "fst (fold (ls_bound_term b s) cs (lb, ub)) \<le> x + (\<Sum>c \<in> set cs. v c * getChildCoefficient s c) \<and>
    x + (\<Sum>c \<in> set cs. v c * getChildCoefficient s c) \<le> snd (fold (ls_bound_term b s) cs (lb, ub))"
  using assms
proof (induction cs arbitrary: lb ub x)
  case (Cons c cs)
  let ?w = "getChildCoefficient s c"
  obtain lb' ub' where step: "ls_bound_term b s c (lb, ub) = (lb', ub')" by fastforce
  have bnd: "lower_bound (b c) \<le> v c" "v c \<le> upper_bound (b c)" using Cons.prems(2) by auto
  have "lb' \<le> x + v c * ?w \<and> x + v c * ?w \<le> ub'"
  proof (cases "?w > 0")
    case True
    then have "lower_bound (b c) * ?w \<le> v c * ?w" "v c * ?w \<le> upper_bound (b c) * ?w" using bnd by (simp_all add: mult_right_mono)
    then have "lb + lower_bound (b c) * ?w \<le> x + v c * ?w" "x + v c * ?w \<le> ub + upper_bound (b c) * ?w"
      using Cons.prems(3,4) by linarith+
    then show ?thesis using step True by (auto simp: ls_bound_term_def Let_def)
  next
    case False
    then have "upper_bound (b c) * ?w \<le> v c * ?w" "v c * ?w \<le> lower_bound (b c) * ?w" using bnd by (simp_all add: mult_right_mono_neg)
    then have "lb + upper_bound (b c) * ?w \<le> x + v c * ?w" "x + v c * ?w \<le> ub + lower_bound (b c) * ?w"
      using Cons.prems(3,4) by linarith+
    then show ?thesis using step False Cons.prems(3,4) by (auto simp: ls_bound_term_def Let_def split: if_splits)
  qed
  then show ?case using Cons.IH[of lb' "x + v c * ?w" ub'] Cons.prems(1,2) step by (simp add: add.assoc)
qed simp

lemma ls_bounds_sound:
  assumes "0 < absolute t" "distinct cs" "\<And>c. c \<in> set cs \<Longrightarrow> lower_bound (b c) \<le> v c \<and> v c \<le> upper_bound (b c)"
  shows "lower_bound (ls_bounds t b cs s) \<le> snapToZero t (raw_sum s cs v)" "snapToZero t (raw_sum s cs v) \<le> upper_bound (ls_bounds t b cs s)"
  using fold_bound_term[where b = b and s = s and lb = "ls_constant s" and ub = "ls_constant s" and x = "ls_constant s", OF assms(2,3)] snapToZero_mono[OF assms(1)]
  by (auto simp: ls_bounds_def raw_sum_def case_prod_beta Let_def)

section \<open>Properties\<close>




end
