(* ===== verification/Order_Nodes.thy ===== *)
theory Order_Nodes
  imports Expression_Base
begin

text \<open>
  The maximum of expressions (\<open>solver/expressions/Max.h\<close>, \<open>Max.cpp\<close>), kept in a
  \<open>ValueSortedMap\<close>, and the indicator that some expression is positive
  (\<open>AnyPositive.cpp\<close>), kept as the set of violating children. The arguments
  \<open>init\<close>, \<open>apply\<close>, \<open>eval\<close> and \<open>cur\<close> are the values of the children as in
  \<open>Linear_Sum\<close>.
\<close>

section \<open>Definitions: Max\<close>

definition SortedValuesCompare :: "ExprId \<times> real \<Rightarrow> ExprId \<times> real \<Rightarrow> bool" where
  "SortedValuesCompare lhs rhs \<longleftrightarrow> (if snd lhs = snd rhs then fst lhs < fst rhs else snd lhs > snd rhs)"

type_synonym MaxNode = "(ExprId, real) ValueSortedMap"

definition max_assign :: "(ExprId \<Rightarrow> real) \<Rightarrow> ExprId \<Rightarrow> MaxNode \<Rightarrow> MaxNode result" where
  "max_assign v c m = vsm_assign SortedValuesCompare c (v c) m"

definition max_first :: "MaxNode \<Rightarrow> real result" where
  "max_first m = (case vsm_begin m of None \<Rightarrow> Inl Undefined_behaviour | Some (c, v) \<Rightarrow> Inr v)"

definition max_fullApply :: "(ExprId \<Rightarrow> real) \<Rightarrow> ExprId list \<Rightarrow> MaxNode \<Rightarrow> (MaxNode \<times> real) result" where
  "max_fullApply apply cs m =
    bindE (foldE (max_assign apply) cs (vsm_clear m)) (\<lambda>m'. bindE (max_first m') (\<lambda>v. Inr (m', v)))"

definition max_partialApply :: "(ExprId \<Rightarrow> real) \<Rightarrow> ExprId list \<Rightarrow> MaxNode \<Rightarrow> (MaxNode \<times> real) result" where
  "max_partialApply apply changedChildren m =
    bindE (foldE (max_assign apply) changedChildren m) (\<lambda>m'. bindE (max_first m') (\<lambda>v. Inr (m', v)))"

definition max_buildSorted :: "(ExprId \<Rightarrow> real) \<Rightarrow> MaxNode Expression \<Rightarrow> MaxNode Expression result" where
  "max_buildSorted init e =
    bindE (max_fullApply init (children e) (kind e)) (\<lambda>(m, v). Inr (setInitialValue v (e\<lparr>kind := m\<rparr>)))"

definition mkMax :: "(ExprId \<Rightarrow> real) \<Rightarrow> ExprId list \<Rightarrow> MaxNode Expression result" where
  "mkMax init exprs =
    (let e = fold add_child exprs (newExpression vsm_empty)
     in if children e = [] then Inl Runtime_error else max_buildSorted init e)"

definition max_add :: "(ExprId \<Rightarrow> real) \<Rightarrow> ExprId \<Rightarrow> MaxNode Expression \<Rightarrow> MaxNode Expression result" where
  "max_add init c e =
    bindE (max_partialApply init [c] (kind e)) (\<lambda>(m, v). Inr (setInitialValue v ((add_child c e)\<lparr>kind := m\<rparr>)))"

text \<open>\<open>combine\<close> descends into nested expressions of the same class; \<open>nested\<close>
  gives their children, and the fuel bounds the depth of the nesting.\<close>

primrec max_combine :: "nat \<Rightarrow> (ExprId \<rightharpoonup> ExprId list) \<Rightarrow> (ExprId \<Rightarrow> real) \<Rightarrow> ExprId \<Rightarrow> MaxNode Expression \<Rightarrow> MaxNode Expression result" where
  "max_combine 0 nested init expr e = Inl Undefined_behaviour"
| "max_combine (Suc n) nested init expr e =
    (case nested expr of Some cs \<Rightarrow> foldE (max_combine n nested init) cs e | None \<Rightarrow> max_add init expr e)"

definition max_evaluate :: "(ExprId \<Rightarrow> real) \<Rightarrow> ExprId list \<Rightarrow> ExprId list \<Rightarrow> MaxNode \<Rightarrow> real" where
  "max_evaluate eval changedChildren cs m =
    (let new_max = fold (\<lambda>c best. if eval c > best then eval c else best) changedChildren (- 1 * double_max)
     in if length changedChildren = length cs then new_max
        else case List.find (\<lambda>p. fst p \<notin> set changedChildren) (vsm_set m) of
               None \<Rightarrow> new_max
             | Some p \<Rightarrow> if snd p > new_max then snd p else new_max)"

definition max_bounds :: "(ExprId \<Rightarrow> Bounds) \<Rightarrow> ExprId list \<Rightarrow> Bounds" where
  "max_bounds b cs =
    \<lparr>lower_bound = fold (\<lambda>c lb. max lb (lower_bound (b c))) cs (- 1 * double_max),
     upper_bound = fold (\<lambda>c ub. max ub (upper_bound (b c))) cs (- 1 * double_max)\<rparr>"

definition max_is_integer :: "(ExprId \<Rightarrow> bool) \<Rightarrow> ExprId list \<Rightarrow> bool" where
  "max_is_integer child_integer cs \<longleftrightarrow> list_all child_integer cs"

section \<open>Definitions: AnyPositive\<close>

type_synonym AnyPositive = "ExprId set"

definition isViolating :: "PrecisionTolerances \<Rightarrow> real \<Rightarrow> bool" where
  "isViolating t v = isStrictlyGtZero t v"

definition computeResult :: "AnyPositive \<Rightarrow> real" where
  "computeResult violating = (if violating = {} then 0 else 1)"

definition any_update :: "PrecisionTolerances \<Rightarrow> (ExprId \<Rightarrow> real) \<Rightarrow> ExprId \<Rightarrow> AnyPositive \<Rightarrow> AnyPositive" where
  "any_update t v c violating = (if isViolating t (v c) then insert c violating else violating - {c})"

definition any_insert :: "PrecisionTolerances \<Rightarrow> (ExprId \<Rightarrow> real) \<Rightarrow> ExprId \<Rightarrow> AnyPositive Expression \<Rightarrow> AnyPositive Expression" where
  "any_insert t init c e = (add_child c e)\<lparr>kind := (if isViolating t (init c) then insert c (kind e) else kind e)\<rparr>"

definition mkAnyPositive :: "PrecisionTolerances \<Rightarrow> (ExprId \<Rightarrow> real) \<Rightarrow> ExprId list \<Rightarrow> AnyPositive Expression" where
  "mkAnyPositive t init exprs =
    (let e = fold (any_insert t init) exprs (newExpression {})
     in setInitialValue (computeResult (kind e)) e)"

definition any_add :: "PrecisionTolerances \<Rightarrow> (ExprId \<Rightarrow> real) \<Rightarrow> ExprId \<Rightarrow> AnyPositive Expression \<Rightarrow> AnyPositive Expression" where
  "any_add t init c e =
    (if c \<in> set (children e) then e
     else let e' = any_insert t init c e in setInitialValue (computeResult (kind e')) e')"

primrec any_combine :: "nat \<Rightarrow> (ExprId \<rightharpoonup> ExprId list) \<Rightarrow> PrecisionTolerances \<Rightarrow> (ExprId \<Rightarrow> real) \<Rightarrow> ExprId \<Rightarrow> AnyPositive Expression \<Rightarrow> AnyPositive Expression result" where
  "any_combine 0 nested t init expr e = Inl Undefined_behaviour"
| "any_combine (Suc n) nested t init expr e =
    (case nested expr of Some cs \<Rightarrow> foldE (any_combine n nested t init) cs e | None \<Rightarrow> Inr (any_add t init expr e))"

fun any_evaluate :: "PrecisionTolerances \<Rightarrow> (ExprId \<Rightarrow> real) \<Rightarrow> ExprId list \<Rightarrow> nat \<Rightarrow> AnyPositive \<Rightarrow> real" where
  "any_evaluate t eval [] nonViolatingChildren violating = (if card violating = nonViolatingChildren then 0 else 1)"
| "any_evaluate t eval (c # D) nonViolatingChildren violating =
    (if isStrictlyGtZero t (eval c) then 1
     else any_evaluate t eval D (nonViolatingChildren + (if c \<in> violating then 1 else 0)) violating)"

definition any_fullApply :: "PrecisionTolerances \<Rightarrow> (ExprId \<Rightarrow> real) \<Rightarrow> ExprId list \<Rightarrow> AnyPositive \<times> real" where
  "any_fullApply t apply cs =
    (let violating = fold (\<lambda>c s. if isViolating t (apply c) then insert c s else s) cs {} in (violating, computeResult violating))"

definition any_partialApply :: "PrecisionTolerances \<Rightarrow> (ExprId \<Rightarrow> real) \<Rightarrow> ExprId list \<Rightarrow> AnyPositive \<Rightarrow> AnyPositive \<times> real" where
  "any_partialApply t apply changedChildren violating =
    (let violating' = fold (any_update t apply) changedChildren violating in (violating', computeResult violating'))"

definition any_bounds :: "ExprId list \<Rightarrow> Bounds" where
  "any_bounds cs = \<lparr>lower_bound = 0, upper_bound = (if cs = [] then 0 else 1)\<rparr>"

section \<open>The cached maximum\<close>

interpretation byValue: value_order SortedValuesCompare
proof unfold_locales
  show "SortedValuesCompare x y \<or> SortedValuesCompare y x" if "x \<noteq> y" for x y
    using that by (cases x; cases y) (auto simp: SortedValuesCompare_def)
qed (auto simp: SortedValuesCompare_def split: if_splits)

definition max_ok :: "MaxNode \<Rightarrow> ExprId list \<Rightarrow> (ExprId \<Rightarrow> real) \<Rightarrow> bool" where
  "max_ok m cs v \<longleftrightarrow> byValue.vsm_ok m \<and> cs \<noteq> [] \<and> vsm_map m = (\<lambda>c. if c \<in> set cs then Some (v c) else None)"

lemma foldE_max_assign:
  "byValue.vsm_ok m \<Longrightarrow> \<exists>m'. foldE (max_assign v) cs m = Inr m' \<and> byValue.vsm_ok m' \<and>
     vsm_map m' = (\<lambda>c. if c \<in> set cs then Some (v c) else vsm_map m c)"
proof (induction cs arbitrary: m)
  case (Cons c cs)
  obtain m1 where m1: "max_assign v c m = Inr m1" "byValue.vsm_ok m1" "vsm_map m1 = (vsm_map m)(c \<mapsto> v c)"
    using byValue.vsm_assign_ok[OF Cons.prems, of c "v c"] by (auto simp: max_assign_def)
  then show ?case using Cons.IH[OF m1(2)] by (auto simp: fun_eq_iff)
qed auto

lemma max_first_ok:
  assumes "max_ok m cs v"
  shows "max_first m = Inr (Max (v ` set cs))"
proof -
  have ok: "byValue.vsm_ok m" "vsm_map m = (\<lambda>c. if c \<in> set cs then Some (v c) else None)" "cs \<noteq> []"
    using assms by (auto simp: max_ok_def)
  have below: "\<exists>k w. vsm_begin m = Some (k, w) \<and> k \<in> set cs \<and> w = v k \<and> v c \<le> w" if "c \<in> set cs" for c
    using byValue.vsm_begin_first[OF ok(1), of c "v c"] that ok(2)
    by (auto simp: SortedValuesCompare_def split: if_splits)
  obtain k where k: "vsm_begin m = Some (k, v k)" "k \<in> set cs" using below[of "hd cs"] ok(3) by auto
  have "Max (v ` set cs) = v k" by (rule Max_eqI) (use k below in auto)
  then show ?thesis using k(1) by (simp add: max_first_def)
qed

lemma max_fullApply_ok:
  assumes "cs \<noteq> []"
  shows "\<exists>m'. max_fullApply v cs m = Inr (m', Max (v ` set cs)) \<and> max_ok m' cs v"
proof -
  have "byValue.vsm_ok (vsm_clear m)" by (simp add: byValue.vsm_ok_def vsm_clear_def)
  then obtain m' where m': "foldE (max_assign v) cs (vsm_clear m) = Inr m'" "byValue.vsm_ok m'"
      "vsm_map m' = (\<lambda>c. if c \<in> set cs then Some (v c) else vsm_map (vsm_clear m) c)"
    using foldE_max_assign by blast
  then have "max_ok m' cs v" using assms by (simp add: max_ok_def vsm_clear_def fun_eq_iff)
  then show ?thesis using m'(1) max_first_ok by (auto simp: max_fullApply_def)
qed

lemma max_partialApply_ok:
  assumes "max_ok m cs v" "set D \<subseteq> set cs" "\<forall>c \<in> set cs - set D. v c = v' c"
  shows "\<exists>m'. max_partialApply v' D m = Inr (m', Max (v' ` set cs)) \<and> max_ok m' cs v'"
proof -
  have ok: "byValue.vsm_ok m" "vsm_map m = (\<lambda>c. if c \<in> set cs then Some (v c) else None)" "cs \<noteq> []"
    using assms(1) by (auto simp: max_ok_def)
  obtain m' where m': "foldE (max_assign v') D m = Inr m'" "byValue.vsm_ok m'"
      "vsm_map m' = (\<lambda>c. if c \<in> set D then Some (v' c) else vsm_map m c)"
    using foldE_max_assign[OF ok(1)] by blast
  then have "max_ok m' cs v'" using assms(2,3) ok by (auto simp: max_ok_def fun_eq_iff)
  then show ?thesis using m'(1) max_first_ok by (auto simp: max_partialApply_def)
qed

lemma fold_best: "fold (\<lambda>c best. if (f c :: real) > best then f c else best) cs b = Max (insert b (f ` set cs))"
proof (induction cs arbitrary: b)
  case (Cons c cs)
  have "Max (insert b (f ` set (c # cs))) = Max (insert (max b (f c)) (f ` set cs))"
    by (cases "set cs = {}") (simp_all add: max.assoc[symmetric])
  then show ?case using Cons by (simp add: max_def)
qed simp

lemma find_first_unchanged:
  assumes "max_ok m cs v"
  shows "case List.find (\<lambda>p. fst p \<notin> set D) (vsm_set m) of
      None \<Rightarrow> set cs \<subseteq> set D
    | Some p \<Rightarrow> fst p \<in> set cs - set D \<and> snd p = v (fst p) \<and> (\<forall>c \<in> set cs - set D. v c \<le> snd p)"
proof -
  have ok: "sorted_wrt SortedValuesCompare (vsm_set m)" "set (vsm_set m) = {(c, v c) | c. c \<in> set cs}"
    using assms by (auto simp: max_ok_def byValue.vsm_ok_def Map.graph_def split: if_splits)
  show ?thesis
  proof (cases "List.find (\<lambda>p. fst p \<notin> set D) (vsm_set m)")
    case None
    then have "set cs \<subseteq> set D" using ok(2) by (auto simp: find_None_iff)
    then show ?thesis using None by simp
  next
    case (Some p)
    then obtain i where i: "i < length (vsm_set m)" "fst p \<notin> set D" "p = vsm_set m ! i" "\<forall>j < i. \<not> fst (vsm_set m ! j) \<notin> set D"
      by (auto simp: find_Some_iff)
    have "v c \<le> snd p" if c: "c \<in> set cs - set D" for c
    proof -
      have "(c, v c) \<in> set (vsm_set m)" using ok(2) c by blast
      then obtain j where j: "j < length (vsm_set m)" "vsm_set m ! j = (c, v c)" by (auto simp: in_set_conv_nth)
      then have "\<not> j < i" using i(4) c by auto
      then consider "i = j" | "i < j" by linarith
      then show ?thesis
      proof cases
        case 2
        then have "SortedValuesCompare p (c, v c)" using sorted_wrt_nth_less[OF ok(1), of i j] i(3) j by simp
        then show ?thesis by (auto simp: SortedValuesCompare_def split: if_splits)
      qed (use i(3) j in simp)
    qed
    moreover have "p \<in> {(c, v c) | c. c \<in> set cs}" unfolding ok(2)[symmetric] using i(1,3) by simp
    ultimately show ?thesis using Some i(2) by auto
  qed
qed

lemma max_evaluate_ok:
  assumes "max_ok m cs cur" "distinct cs" "distinct D" "set D \<subseteq> set cs" "\<forall>c \<in> set cs - set D. eval c = cur c"
    and "\<forall>c \<in> set cs. - double_max \<le> eval c"
  shows "max_evaluate eval D cs m = Max (eval ` set cs)"
proof -
  have nonempty: "set cs \<noteq> {}" using assms(1) by (auto simp: max_ok_def)
  let ?best = "Max (insert (- double_max) (eval ` set D))"
  have all: "Max (eval ` set cs) = Max (insert (- double_max) (eval ` set cs))"
    using assms(6) nonempty by (simp add: max_def Max_ge_iff)
  show ?thesis
  proof (cases "length D = length cs")
    case True
    then have "set D = set cs" using assms(2-4) by (metis List.finite_set card_subset_eq distinct_card)
    then show ?thesis using True all by (simp add: max_evaluate_def fold_best)
  next
    case False
    then have "set D \<noteq> set cs" using assms(2,3) by (metis distinct_card)
    then have "\<not> set cs \<subseteq> set D" using assms(4) by blast
    then obtain p where p: "List.find (\<lambda>p. fst p \<notin> set D) (vsm_set m) = Some p" "fst p \<in> set cs - set D"
        "snd p = cur (fst p)" "\<forall>c \<in> set cs - set D. cur c \<le> snd p"
      using find_first_unchanged[OF assms(1), of D] by (auto split: option.splits)
    have "Max (insert (- double_max) (eval ` set cs)) = max (snd p) ?best"
    proof (rule Max_eqI)
      have "snd p \<in> eval ` set cs" using p(2,3) assms(5) by force
      moreover have "?best \<in> insert (- double_max) (eval ` set cs)"
        using assms(4) Max_in[of "insert (- double_max) (eval ` set D)"] by auto
      ultimately show "max (snd p) ?best \<in> insert (- double_max) (eval ` set cs)" by (auto simp: max_def)
      have "eval c \<le> max (snd p) ?best" if "c \<in> set cs" for c
      proof (cases "c \<in> set D")
        case True
        then show ?thesis by (intro max.coboundedI2 Max_ge) auto
      next
        case False
        then show ?thesis using p(4) assms(5) that by (simp add: max.coboundedI1)
      qed
      moreover have "- double_max \<le> max (snd p) ?best" by (intro max.coboundedI2 Max_ge) auto
      ultimately show "y \<le> max (snd p) ?best" if "y \<in> insert (- double_max) (eval ` set cs)" for y using that by auto
    qed simp
    moreover have "max_evaluate eval D cs m = (if snd p > ?best then snd p else ?best)"
      unfolding max_evaluate_def fold_best using False p(1) by (simp del: Max_less_iff)
    ultimately show ?thesis using all by (metis max_def not_le)
  qed
qed

lemma fold_max: "fold (\<lambda>c x. max x (f c)) cs (y :: real) = Max (insert y (f ` set cs))"
proof (induction cs arbitrary: y)
  case (Cons c cs)
  have "Max (insert y (f ` set (c # cs))) = Max (insert (max y (f c)) (f ` set cs))"
    by (cases "set cs = {}") (simp_all add: max.assoc[symmetric])
  then show ?case using Cons by simp
qed simp

lemma max_bounds_sound:
  assumes "cs \<noteq> []" "\<And>c. c \<in> set cs \<Longrightarrow> lower_bound (b c) \<le> v c \<and> v c \<le> upper_bound (b c)" "\<forall>c \<in> set cs. - double_max \<le> v c"
  shows "lower_bound (max_bounds b cs) \<le> Max (v ` set cs)" "Max (v ` set cs) \<le> upper_bound (max_bounds b cs)"
proof -
  have ge: "v c \<le> Max (v ` set cs)" if "c \<in> set cs" for c using that by simp
  have "hd cs \<in> set cs" using assms(1) by simp
  then have "- double_max \<le> Max (v ` set cs)" using assms(3) order.trans[OF _ ge[of "hd cs"]] by blast
  moreover have "lower_bound (b c) \<le> Max (v ` set cs)" if "c \<in> set cs" for c using assms(2)[OF that] ge[OF that] by linarith
  ultimately show "lower_bound (max_bounds b cs) \<le> Max (v ` set cs)" by (simp add: max_bounds_def fold_max)
  have "v c \<le> Max (insert (- double_max) ((\<lambda>c. upper_bound (b c)) ` set cs))" if "c \<in> set cs" for c
    using assms(2)[OF that] that by (intro order.trans[OF _ Max_ge]) auto
  then show "Max (v ` set cs) \<le> upper_bound (max_bounds b cs)" using assms(1) by (simp add: max_bounds_def fold_max)
qed

section \<open>The set of violating children\<close>

definition any_ok :: "PrecisionTolerances \<Rightarrow> AnyPositive \<Rightarrow> ExprId list \<Rightarrow> (ExprId \<Rightarrow> real) \<Rightarrow> bool" where
  "any_ok t violating cs v \<longleftrightarrow> violating = {c \<in> set cs. isStrictlyGtZero t (v c)}"

definition any_value :: "PrecisionTolerances \<Rightarrow> ExprId list \<Rightarrow> (ExprId \<Rightarrow> real) \<Rightarrow> real" where
  "any_value t cs v = (if list_ex (\<lambda>c. isStrictlyGtZero t (v c)) cs then 1 else 0)"

lemma computeResult_any: "any_ok t violating cs v \<Longrightarrow> computeResult violating = any_value t cs v"
  by (auto simp: any_ok_def computeResult_def any_value_def list_ex_iff)

lemma any_fullApply_ok: "any_ok t (fst (any_fullApply t v cs)) cs v \<and> snd (any_fullApply t v cs) = any_value t cs v"
proof -
  have "fold (\<lambda>c s. if isViolating t (v c) then insert c s else s) cs s = s \<union> {c \<in> set cs. isStrictlyGtZero t (v c)}" for s
    by (induction cs arbitrary: s) (auto simp: isViolating_def)
  then have "any_ok t (fst (any_fullApply t v cs)) cs v" by (simp add: any_ok_def any_fullApply_def Let_def)
  then show ?thesis using computeResult_any by (simp add: any_fullApply_def Let_def)
qed

lemma fold_any_update:
  "fold (any_update t v) D s = {c. if c \<in> set D then isStrictlyGtZero t (v c) else c \<in> s}"
  by (induction D arbitrary: s) (auto simp: any_update_def isViolating_def)

lemma any_partialApply_ok:
  assumes "any_ok t s cs v" "set D \<subseteq> set cs" "\<forall>c \<in> set cs - set D. v c = v' c"
  shows "any_ok t (fst (any_partialApply t v' D s)) cs v' \<and> snd (any_partialApply t v' D s) = any_value t cs v'"
proof -
  have "any_ok t (fst (any_partialApply t v' D s)) cs v'"
    using assms by (auto simp: any_ok_def any_partialApply_def fold_any_update Let_def)
  then show ?thesis using computeResult_any by (simp add: any_partialApply_def Let_def)
qed

lemma any_evaluate_scan:
  "distinct D \<Longrightarrow> any_evaluate t eval D n s =
     (if list_ex (\<lambda>c. isStrictlyGtZero t (eval c)) D \<or> card s \<noteq> n + card (set D \<inter> s) then 1 else 0)"
proof (induction D arbitrary: n)
  case (Cons c D)
  have "card (set (c # D) \<inter> s) = (if c \<in> s then 1 else 0) + card (set D \<inter> s)" using Cons.prems by (simp add: Int_insert_left)
  then show ?case using Cons by simp
qed simp

lemma any_evaluate_ok:
  assumes "any_ok t s cs cur" "distinct D" "set D \<subseteq> set cs" "\<forall>c \<in> set cs - set D. eval c = cur c"
  shows "any_evaluate t eval D 0 s = any_value t cs eval"
proof -
  have fin: "finite s" using assms(1) by (simp add: any_ok_def)
  then have "card s = card (set D \<inter> s) \<longleftrightarrow> s \<subseteq> set D"
    by (metis Int_absorb2 Int_commute Int_lower2 card_subset_eq)
  then have "any_evaluate t eval D 0 s = (if (\<exists>c \<in> set D. isStrictlyGtZero t (eval c)) \<or> \<not> s \<subseteq> set D then 1 else 0)"
    using any_evaluate_scan[OF assms(2), of t eval 0 s] by (simp add: list_ex_iff)
  moreover have "(\<exists>c \<in> set D. isStrictlyGtZero t (eval c)) \<or> \<not> s \<subseteq> set D \<longleftrightarrow> (\<exists>c \<in> set cs. isStrictlyGtZero t (eval c))"
  proof -
    have "c \<in> s \<longleftrightarrow> isStrictlyGtZero t (eval c)" if "c \<in> set cs - set D" for c
      using that assms(1,4) by (simp add: any_ok_def)
    moreover have "s \<subseteq> set cs" using assms(1) by (auto simp: any_ok_def)
    ultimately show ?thesis using assms(3) by blast
  qed
  ultimately show ?thesis by (simp add: any_value_def list_ex_iff)
qed

section \<open>Construction\<close>

lemma mkMax_ok:
  assumes "exprs \<noteq> []"
  shows "\<exists>e. mkMax init exprs = Inr e \<and> distinct (children e) \<and> set (children e) = set exprs \<and> properlyInitialized e
    \<and> max_ok (kind e) (children e) init \<and> initialValue e = Max (init ` set exprs) \<and> exprValue e = initialValue e"
proof -
  let ?e = "fold add_child exprs (newExpression (vsm_empty :: MaxNode))"
  have cs: "set (children ?e) = set exprs" "distinct (children ?e)" by simp_all
  then have ne: "children ?e \<noteq> []" using assms by (metis set_empty)
  obtain m where "max_fullApply init (children ?e) (kind ?e) = Inr (m, Max (init ` set (children ?e)))" "max_ok m (children ?e) init"
    using max_fullApply_ok[OF ne, of init "kind ?e"] by blast
  then show ?thesis using cs ne by (simp add: mkMax_def max_buildSorted_def Let_def del: fold_add_child_fields)
qed

lemma max_add_ok:
  assumes "max_ok (kind e) (children e) init"
  shows "\<exists>e'. max_add init c e = Inr e' \<and> set (children e') = insert c (set (children e)) \<and> max_ok (kind e') (children e') init
    \<and> initialValue e' = Max (init ` set (children e')) \<and> exprValue e' = initialValue e'"
proof -
  have ok: "byValue.vsm_ok (kind e)" "vsm_map (kind e) = (\<lambda>c. if c \<in> set (children e) then Some (init c) else None)"
    using assms by (auto simp: max_ok_def)
  obtain m where m: "max_assign init c (kind e) = Inr m" "byValue.vsm_ok m" "vsm_map m = (\<lambda>d. if d \<in> set [c] then Some (init d) else vsm_map (kind e) d)"
    using foldE_max_assign[OF ok(1), of init "[c]"] by (auto simp: bindE_eq_Inr)
  have "children (add_child c e) \<noteq> []" using assms by (auto simp: max_ok_def add_child_def)
  then have "max_ok m (children (add_child c e)) init" using m(2,3) ok(2) by (auto simp: max_ok_def fun_eq_iff)
  then show ?thesis using m(1) max_first_ok by (fastforce simp: max_add_def max_partialApply_def)
qed

lemma fold_any_insert:
  "set (children (fold (any_insert t init) exprs e)) = set exprs \<union> set (children e)"
  "distinct (children e) \<Longrightarrow> distinct (children (fold (any_insert t init) exprs e))"
  "kind (fold (any_insert t init) exprs e) = kind e \<union> {c \<in> set exprs. isStrictlyGtZero t (init c)}"
  by (induction exprs arbitrary: e) (auto simp: any_insert_def isViolating_def)

lemma mkAnyPositive_ok:
  "distinct (children (mkAnyPositive t init exprs)) \<and> set (children (mkAnyPositive t init exprs)) = set exprs
    \<and> properlyInitialized (mkAnyPositive t init exprs)
    \<and> any_ok t (kind (mkAnyPositive t init exprs)) (children (mkAnyPositive t init exprs)) init
    \<and> initialValue (mkAnyPositive t init exprs) = any_value t (children (mkAnyPositive t init exprs)) init
    \<and> exprValue (mkAnyPositive t init exprs) = initialValue (mkAnyPositive t init exprs)"
proof -
  let ?e = "fold (any_insert t init) exprs (newExpression {})"
  have e: "set (children ?e) = set exprs" "distinct (children ?e)" "kind ?e = {c \<in> set exprs. isStrictlyGtZero t (init c)}"
    using fold_any_insert[where e = "newExpression {}" and t = t and init = init and exprs = exprs] by simp_all
  then have ok: "any_ok t (kind ?e) (children ?e) init" by (simp add: any_ok_def)
  show ?thesis using e ok computeResult_any[OF ok] by (simp add: mkAnyPositive_def Let_def)
qed

end
