(* ===== verification/Nth_Largest.thy ===== *)
theory Nth_Largest
  imports Expression_Base
begin

text \<open>
  The n-th largest of several expressions
  (\<open>solver/expressions/NthLargest.cpp\<close>) and the iterator over the union of two
  ordered maps it is computed with (\<open>solver/iterators/MapUnion.h\<close>). A
  \<open>std::map\<close> is its sorted association list; the pair of the remaining entries
  of both maps is the state of the iterator. The infinity that an empty
  expression would return is the argument \<open>infty\<close> of the scan.
\<close>

section \<open>Definitions: the union of two ordered maps\<close>

type_synonym ('k, 'v) union_iterator = "('k \<times> 'v) list \<times> ('k \<times> 'v) list"

fun mu_deref :: "('k \<Rightarrow> 'k \<Rightarrow> bool) \<Rightarrow> 'v \<Rightarrow> ('k, 'v) union_iterator \<Rightarrow> ('k \<times> 'v \<times> 'v) result" where
  "mu_deref lt d ([], []) = Inl Undefined_behaviour"
| "mu_deref lt d ([], (k2, v2) # ys) = Inr (k2, d, v2)"
| "mu_deref lt d ((k1, v1) # xs, []) = Inr (k1, v1, d)"
| "mu_deref lt d ((k1, v1) # xs, (k2, v2) # ys) =
    (if lt k1 k2 then Inr (k1, v1, d) else if lt k2 k1 then Inr (k2, d, v2) else Inr (k1, v1, v2))"

fun mu_next :: "('k \<Rightarrow> 'k \<Rightarrow> bool) \<Rightarrow> ('k, 'v) union_iterator \<Rightarrow> ('k, 'v) union_iterator" where
  "mu_next lt ([], ys) = ([], tl ys)"
| "mu_next lt (x # xs, []) = (xs, [])"
| "mu_next lt (x # xs, y # ys) =
    (if lt (fst x) (fst y) then (xs, y # ys) else if lt (fst y) (fst x) then (x # xs, ys) else (xs, ys))"

function mu_traverse :: "('k \<Rightarrow> 'k \<Rightarrow> bool) \<Rightarrow> 'v \<Rightarrow> ('k, 'v) union_iterator \<Rightarrow> ('k \<times> 'v \<times> 'v) list result" where
  "mu_traverse lt d it =
    (if it = ([], []) then Inr []
     else bindE (mu_deref lt d it) (\<lambda>e. bindE (mu_traverse lt d (mu_next lt it)) (\<lambda>es. Inr (e # es))))"
  by pat_completeness auto

lemma mu_next_shorter:
  "it \<noteq> ([], []) \<Longrightarrow> length (fst (mu_next lt it)) + length (snd (mu_next lt it)) < length (fst it) + length (snd it)"
  by (cases "(lt, it)" rule: mu_next.cases) (auto simp: neq_Nil_conv)

termination mu_traverse
  by (relation "measure (\<lambda>(lt, d, it). length (fst it) + length (snd it))") (use mu_next_shorter in auto)

declare mu_traverse.simps [simp del]

section \<open>Definitions: NthLargest\<close>

type_synonym frequencies = "(real \<times> int) list"

record NthLargest =
  nth_n :: int
  nth_unique :: bool
  valueFrequency :: frequencies

definition freq_add :: "real \<Rightarrow> int \<Rightarrow> frequencies \<Rightarrow> frequencies" where
  "freq_add v k m = al_put v ((case map_of m v of None \<Rightarrow> 0 | Some x \<Rightarrow> x) + k) m"

fun nth_scan :: "int \<Rightarrow> bool \<Rightarrow> int \<Rightarrow> real \<Rightarrow> (real \<times> int \<times> int) list \<Rightarrow> real" where
  "nth_scan n unique index smallestValue [] = smallestValue"
| "nth_scan n unique index smallestValue ((v, baseFrequency, deltaFrequency) # es) =
    (let frequency = baseFrequency + deltaFrequency in
     if frequency = 0 then nth_scan n unique index smallestValue es
     else let index' = index + (if unique then 1 else frequency) in
       if index' > n then v else nth_scan n unique index' v es)"

definition computeNthLargest :: "real \<Rightarrow> frequencies \<Rightarrow> NthLargest \<Rightarrow> real result" where
  "computeNthLargest infty delta s =
    bindE (mu_traverse (\<lambda>x y. x > y) 0 (rev (valueFrequency s), rev delta)) (\<lambda>es.
      Inr (nth_scan (nth_n s) (nth_unique s) 0 infty es))"

definition nth_apply :: "real \<Rightarrow> (ExprId \<Rightarrow> real) \<Rightarrow> ExprId list \<Rightarrow> NthLargest \<Rightarrow> (NthLargest \<times> real) result" where
  "nth_apply infty apply cs s =
    (let s' = s\<lparr>valueFrequency := fold (\<lambda>c m. freq_add (apply c) 1 m) cs []\<rparr>
     in bindE (computeNthLargest infty [] s') (\<lambda>v. Inr (s', v)))"

definition mkNthLargest :: "real \<Rightarrow> (ExprId \<Rightarrow> real) \<Rightarrow> ExprId list \<Rightarrow> int \<Rightarrow> bool \<Rightarrow> NthLargest Expression result" where
  "mkNthLargest infty init exprs n unique =
    (let e = fold add_child exprs (newExpression \<lparr>nth_n = n, nth_unique = unique, valueFrequency = []\<rparr>)
     in if children e = [] then Inl Runtime_error
        else bindE (nth_apply infty init (children e) (kind e)) (\<lambda>(s, v). Inr (setInitialValue v (e\<lparr>kind := s\<rparr>))))"

definition nth_delta :: "(ExprId \<Rightarrow> real) \<Rightarrow> (ExprId \<Rightarrow> real) \<Rightarrow> ExprId \<Rightarrow> frequencies \<Rightarrow> frequencies" where
  "nth_delta cur eval c m = (if cur c \<noteq> eval c then freq_add (eval c) 1 (freq_add (cur c) (- 1) m) else m)"

definition nth_evaluate :: "real \<Rightarrow> (ExprId \<Rightarrow> real) \<Rightarrow> (ExprId \<Rightarrow> real) \<Rightarrow> ExprId list \<Rightarrow> real \<Rightarrow> NthLargest \<Rightarrow> real result" where
  "nth_evaluate infty cur eval changedChildren val s =
    (let delta = fold (nth_delta cur eval) changedChildren []
     in if delta = [] then Inr val else computeNthLargest infty delta s)"

definition nth_bounds :: "real \<Rightarrow> (ExprId \<Rightarrow> Bounds) \<Rightarrow> ExprId list \<Rightarrow> Bounds" where
  "nth_bounds infty b cs =
    \<lparr>lower_bound = fold (\<lambda>c lb. min lb (lower_bound (b c))) cs infty,
     upper_bound = fold (\<lambda>c ub. max ub (upper_bound (b c))) cs (- infty)\<rparr>"

section \<open>The union of two ordered maps\<close>

lemma mu_traverse_step:
  "mu_traverse lt d ([], []) = Inr []"
  "mu_traverse lt d ([], (k2, v2) # ys) = bindE (mu_traverse lt d ([], ys)) (\<lambda>es. Inr ((k2, d, v2) # es))"
  "mu_traverse lt d ((k1, v1) # xs, []) = bindE (mu_traverse lt d (xs, [])) (\<lambda>es. Inr ((k1, v1, d) # es))"
  "lt k1 k2 \<Longrightarrow> mu_traverse lt d ((k1, v1) # xs, (k2, v2) # ys)
     = bindE (mu_traverse lt d (xs, (k2, v2) # ys)) (\<lambda>es. Inr ((k1, v1, d) # es))"
  "\<not> lt k1 k2 \<Longrightarrow> lt k2 k1 \<Longrightarrow> mu_traverse lt d ((k1, v1) # xs, (k2, v2) # ys)
     = bindE (mu_traverse lt d ((k1, v1) # xs, ys)) (\<lambda>es. Inr ((k2, d, v2) # es))"
  "\<not> lt k1 k2 \<Longrightarrow> \<not> lt k2 k1 \<Longrightarrow> mu_traverse lt d ((k1, v1) # xs, (k2, v2) # ys)
     = bindE (mu_traverse lt d (xs, ys)) (\<lambda>es. Inr ((k1, v1, v2) # es))"
  by (subst mu_traverse.simps, simp)+

definition freq :: "('k \<times> int) list \<Rightarrow> 'k \<Rightarrow> int" where
  "freq m v = (case map_of m v of None \<Rightarrow> 0 | Some x \<Rightarrow> x)"

lemma freq_simps [simp]: "freq [] v = 0" "freq ((k, x) # m) v = (if k = v then x else freq m v)"
  by (auto simp: freq_def)

lemma freq_notin: "v \<notin> fst ` set m \<Longrightarrow> freq m v = 0"
  by (simp add: freq_def map_of_eq_None_iff[symmetric])

definition union_of :: "(real \<times> int) list \<Rightarrow> (real \<times> int) list \<Rightarrow> (real \<times> int \<times> int) list \<Rightarrow> bool" where
  "union_of xs ys es \<longleftrightarrow> sorted_wrt (>) (map fst es) \<and> fst ` set es = fst ` set xs \<union> fst ` set ys
     \<and> (\<forall>e \<in> set es. snd e = (freq xs (fst e), freq ys (fst e)))"

lemma union_of_step:
  assumes "union_of xs ys es" "\<forall>k \<in> fst ` set xs \<union> fst ` set ys. k < k1"
    and "fst ` set xs' \<union> fst ` set ys' = insert k1 (fst ` set xs \<union> fst ` set ys)"
    and "\<And>k. k < k1 \<Longrightarrow> freq xs' k = freq xs k" "\<And>k. k < k1 \<Longrightarrow> freq ys' k = freq ys k"
    and "freq xs' k1 = a" "freq ys' k1 = b"
  shows "union_of xs' ys' ((k1, a, b) # es)"
proof -
  have keys: "fst ` set es = fst ` set xs \<union> fst ` set ys" using assms(1) by (simp add: union_of_def)
  then have below: "fst e < k1" if "e \<in> set es" for e using assms(2) that by blast
  have "snd e = (freq xs' (fst e), freq ys' (fst e))" if "e \<in> set es" for e
    using assms(1,4,5) below[OF that] that by (simp add: union_of_def)
  moreover have "sorted_wrt (>) (map fst es)" using assms(1) by (simp add: union_of_def)
  moreover have "fst ` set ((k1, a, b) # es) = fst ` set xs' \<union> fst ` set ys'"
    unfolding assms(3) keys[symmetric] by simp
  ultimately show ?thesis using assms(6,7) below unfolding union_of_def by simp
qed

lemma union_of_left:
  assumes "union_of xs ys es" "\<forall>k \<in> fst ` set xs \<union> fst ` set ys. k < k1"
  shows "union_of ((k1, v1) # xs) ys ((k1, v1, 0) # es)"
  by (rule union_of_step[OF assms]) (use assms(2) freq_notin[of k1 ys] in auto)

lemma union_of_right:
  assumes "union_of xs ys es" "\<forall>k \<in> fst ` set xs \<union> fst ` set ys. k < k2"
  shows "union_of xs ((k2, v2) # ys) ((k2, 0, v2) # es)"
  by (rule union_of_step[OF assms]) (use assms(2) freq_notin[of k2 xs] in auto)

lemma union_of_both:
  assumes "union_of xs ys es" "\<forall>k \<in> fst ` set xs \<union> fst ` set ys. k < k1"
  shows "union_of ((k1, v1) # xs) ((k1, v2) # ys) ((k1, v1, v2) # es)"
  by (rule union_of_step[OF assms]) auto

lemma mu_traverse_union:
  assumes "sorted_wrt (>) (map fst xs)" "sorted_wrt (>) (map fst ys)"
  shows "\<exists>es. mu_traverse (\<lambda>x y. x > y) 0 (xs, ys) = Inr es \<and> union_of xs ys es"
  using assms
proof (induction "length xs + length ys" arbitrary: xs ys rule: less_induct)
  case less
  show ?case
  proof (cases xs; cases ys)
    assume "xs = []" "ys = []"
    then show ?thesis by (simp add: mu_traverse_step union_of_def)
  next
    fix y ys' assume eq: "xs = []" "ys = y # ys'"
    then obtain es where "mu_traverse (\<lambda>x y. x > y) 0 ([], ys') = Inr es" "union_of [] ys' es"
      using less.hyps[of "[]" ys'] less.prems by auto
    then show ?thesis using eq less.prems union_of_right[of "[]" ys' es "fst y" "snd y"]
      by (cases y) (auto simp: mu_traverse_step)
  next
    fix x xs' assume eq: "xs = x # xs'" "ys = []"
    then obtain es where "mu_traverse (\<lambda>x y. x > y) 0 (xs', []) = Inr es" "union_of xs' [] es"
      using less.hyps[of xs' "[]"] less.prems by auto
    then show ?thesis using eq less.prems union_of_left[of xs' "[]" es "fst x" "snd x"]
      by (cases x) (auto simp: mu_traverse_step)
  next
    fix x xs' y ys' assume eq: "xs = x # xs'" "ys = y # ys'"
    consider "fst x > fst y" | "fst x < fst y" | "fst x = fst y" by linarith
    then show ?thesis
    proof cases
      case 1
      obtain es where es: "mu_traverse (\<lambda>x y. x > y) 0 (xs', ys) = Inr es" "union_of xs' ys es"
        using less.hyps[of xs' ys] less.prems eq by auto
      have "\<forall>k \<in> fst ` set xs' \<union> fst ` set ys. k < fst x" using 1 less.prems eq by auto
      then show ?thesis using union_of_left[OF es(2), of "fst x" "snd x"] es(1) 1 eq by (cases x; cases y) (auto simp: mu_traverse_step)
    next
      case 2
      obtain es where es: "mu_traverse (\<lambda>x y. x > y) 0 (xs, ys') = Inr es" "union_of xs ys' es"
        using less.hyps[of xs ys'] less.prems eq by auto
      have "\<forall>k \<in> fst ` set xs \<union> fst ` set ys'. k < fst y" using 2 less.prems eq by auto
      then show ?thesis using union_of_right[OF es(2), of "fst y" "snd y"] es(1) 2 eq by (cases x; cases y) (auto simp: mu_traverse_step)
    next
      case 3
      obtain es where es: "mu_traverse (\<lambda>x y. x > y) 0 (xs', ys') = Inr es" "union_of xs' ys' es"
        using less.hyps[of xs' ys'] less.prems eq by auto
      have "\<forall>k \<in> fst ` set xs' \<union> fst ` set ys'. k < fst x" using 3 less.prems eq by auto
      then show ?thesis using union_of_both[OF es(2), of "fst x" "snd x" "snd y"] es(1) 3 eq by (cases x; cases y) (auto simp: mu_traverse_step)
    qed
  qed
qed

section \<open>The scan finds the n-th largest\<close>

definition expand :: "bool \<Rightarrow> (real \<times> int) list \<Rightarrow> real list" where
  "expand unique fs = concat (map (\<lambda>e. replicate (if unique then 1 else nat (snd e)) (fst e)) fs)"

lemma expand_simps [simp]:
  "expand unique [] = []"
  "expand unique (e # fs) = replicate (if unique then 1 else nat (snd e)) (fst e) @ expand unique fs"
  by (simp_all add: expand_def)

definition totals :: "(real \<times> int \<times> int) list \<Rightarrow> (real \<times> int) list" where
  "totals es = filter (\<lambda>e. snd e \<noteq> 0) (map (\<lambda>e. (fst e, fst (snd e) + snd (snd e))) es)"

definition nth_from :: "int \<Rightarrow> real \<Rightarrow> real list \<Rightarrow> real" where
  "nth_from k start xs = (if xs \<noteq> [] \<and> k < int (length xs) then xs ! nat (max 0 k) else last (start # xs))"

lemma nth_from_skip:
  "xs \<noteq> [] \<Longrightarrow> int (length xs) \<le> k \<Longrightarrow> nth_from k start (xs @ ys) = nth_from (k - int (length xs)) (last xs) ys"
  by (auto simp: nth_from_def nth_append nat_diff_distrib')

lemma nth_scan_expand:
  "\<forall>e \<in> set es. fst (snd e) + snd (snd e) \<ge> 0 \<Longrightarrow>
     nth_scan n unique index start es = nth_from (n - index) start (expand unique (totals es))"
proof (induction es arbitrary: index start)
  case Nil
  then show ?case by (simp add: totals_def nth_from_def)
next
  case (Cons e es)
  obtain v a b where e: "e = (v, a, b)" by (cases e)
  let ?len = "if unique then 1 else nat (a + b)"
  show ?case
  proof (cases "a + b = 0")
    case True
    then show ?thesis using Cons by (simp add: e totals_def)
  next
    case False
    then have pos: "a + b \<ge> 1" "?len \<ge> 1" using Cons.prems by (auto simp: e)
    have tot: "expand unique (totals (e # es)) = replicate ?len v @ expand unique (totals es)"
      using False by (simp add: e totals_def)
    have inc: "index + (if unique then 1 else a + b) = index + int ?len" using pos by auto
    show ?thesis
    proof (cases "index + int ?len > n")
      case True
      then have "nth_from (n - index) start (replicate ?len v @ expand unique (totals es)) = v"
        using pos by (auto simp: nth_from_def nth_append)
      then show ?thesis using True False inc unfolding tot by (simp add: e Let_def)
    next
      case False
      then have "nth_from (n - index) start (replicate ?len v @ expand unique (totals es))
          = nth_from (n - index - int ?len) v (expand unique (totals es))"
        using nth_from_skip[of "replicate ?len v" "n - index" start] pos by auto
      then show ?thesis using False \<open>a + b \<noteq> 0\<close> inc Cons unfolding tot
        by (simp add: e Let_def algebra_simps)
    qed
  qed
qed

lemma expand_count:
  "distinct (map fst fs) \<Longrightarrow> \<forall>e \<in> set fs. snd e > 0 \<Longrightarrow> int (count (mset (expand False fs)) x) = freq fs x"
  by (induction fs) (auto simp: freq_notin image_iff)

lemma expand_unique: "expand True fs = map fst fs"
  by (induction fs) auto

lemma sorted_desc_replicate: "sorted_wrt (\<ge>) (replicate k (x::real))"
  by (induction k) auto

lemma sorted_desc_distinct: "sorted_wrt (>) xs \<Longrightarrow> distinct (xs :: real list)"
  by (induction xs) auto

lemma expand_sorted:
  "sorted_wrt (>) (map fst fs) \<Longrightarrow> sorted_wrt (\<ge>) (expand unique fs)"
  by (induction fs) (auto simp: sorted_wrt_append expand_def less_imp_le sorted_desc_replicate)

lemma freq_totals: "distinct (map fst es) \<Longrightarrow> e \<in> set es \<Longrightarrow> freq (totals es) (fst e) = fst (snd e) + snd (snd e)"
  by (induction es) (auto simp: totals_def freq_notin image_iff)

definition nth_value :: "int \<Rightarrow> bool \<Rightarrow> real list \<Rightarrow> real" where
  "nth_value n unique xs =
    (let ys = rev (if unique then sorted_list_of_set (set xs) else sort xs)
     in ys ! min (nat (max 0 n)) (length ys - 1))"

lemma nth_from_start: "xs \<noteq> [] \<Longrightarrow> nth_from n start xs = xs ! min (nat (max 0 n)) (length xs - 1)"
  by (auto simp: nth_from_def last_conv_nth min_def)

lemma totals_keys: "map fst (totals es) = map fst (filter (\<lambda>e. fst (snd e) + snd (snd e) \<noteq> 0) es)"
  by (induction es) (auto simp: totals_def)

lemma union_totals:
  assumes "union_of xs ys es" "\<And>v. freq xs v + freq ys v = int (count (mset vs) v)"
  shows "sorted_wrt (>) (map fst (totals es))" "freq (totals es) v = int (count (mset vs) v)"
    "fst ` set (totals es) = set vs" "\<forall>e \<in> set (totals es). snd e > 0"
proof -
  note u = assms(1)[unfolded union_of_def]
  have d: "distinct (map fst es)" using u sorted_desc_distinct by blast
  have val: "fst (snd e) + snd (snd e) = int (count (mset vs) (fst e))" if "e \<in> set es" for e
    using u that assms(2)[of "fst e"] by auto
  show "sorted_wrt (>) (map fst (totals es))" using u
    by (simp add: totals_keys sorted_wrt_map sorted_wrt_filter)
  show eq: "freq (totals es) v = int (count (mset vs) v)" for v
  proof (cases "v \<in> fst ` set es")
    case True
    then show ?thesis using freq_totals[OF d] val by auto
  next
    case False
    then have "v \<notin> fst ` set xs" "v \<notin> fst ` set ys" using u by auto
    then have "int (count (mset vs) v) = 0" using assms(2)[of v] by (simp add: freq_notin)
    moreover have "v \<notin> fst ` set (totals es)" using False by (force simp: totals_def)
    ultimately show ?thesis by (simp add: freq_notin)
  qed
  show pos: "\<forall>e \<in> set (totals es). snd e > 0" using val by (force simp: totals_def)
  show "fst ` set (totals es) = set vs"
  proof -
    have "v \<in> fst ` set (totals es)" if "v \<in> set vs" for v
    proof (rule ccontr)
      assume "v \<notin> fst ` set (totals es)"
      then have "count (mset vs) v = 0" using eq[of v] by (simp add: freq_notin)
      then show False using that by (simp add: count_mset_0_iff)
    qed
    moreover have "fst e \<in> set vs" if e: "e \<in> set (totals es)" for e
    proof -
      obtain v a b where "(v, a, b) \<in> set es" "fst e = v" "a + b \<noteq> 0" using e by (auto simp: totals_def)
      moreover from this have "count (mset vs) v \<noteq> 0" using val[of "(v, a, b)"] by auto
      ultimately show ?thesis by (simp add: count_mset_0_iff)
    qed
    ultimately show ?thesis by auto
  qed
qed

lemma sort_empty: "sort vs = [] \<longleftrightarrow> vs = []"
  by (metis length_0_conv length_sort)

lemma scan_union:
  assumes "union_of xs ys es" "\<And>v. freq xs v + freq ys v = int (count (mset vs) v)" "vs \<noteq> []"
  shows "nth_scan n unique 0 infty es = nth_value n unique vs"
proof -
  note t = union_totals[OF assms(1,2)]
  have d: "distinct (map fst (totals es))" using t(1) sorted_desc_distinct by blast
  have "\<forall>e \<in> set es. fst (snd e) + snd (snd e) \<ge> 0"
    using assms(1,2) by (auto simp: union_of_def)
  then have scan: "nth_scan n unique 0 infty es = nth_from n infty (expand unique (totals es))"
    using nth_scan_expand by simp
  have "expand unique (totals es) = rev (if unique then sorted_list_of_set (set vs) else sort vs)"
  proof (cases unique)
    case True
    have "sorted_wrt (<) (rev (map fst (totals es)))" using t(1) by (simp add: sorted_wrt_rev)
    then have "sorted_list_of_set (set vs) = rev (map fst (totals es))"
      using t(3) by (metis list.set_map set_rev strict_sorted_equal strict_sorted_list_of_set set_sorted_list_of_set List.finite_set)
    then show ?thesis using True by (simp add: expand_unique)
  next
    case False
    have "mset (expand False (totals es)) = mset vs"
      by (rule multiset_eqI) (metis expand_count[OF d t(4)] t(2) of_nat_eq_iff)
    moreover have "sorted (rev (expand False (totals es)))" using expand_sorted[OF t(1)] by (simp add: sorted_wrt_rev)
    ultimately have "sort vs = rev (expand False (totals es))" by (intro properties_for_sort) auto
    then show ?thesis using False by simp
  qed
  moreover have "expand unique (totals es) \<noteq> []"
    using calculation assms(3) sort_empty by (auto simp del: length_0_conv)
  ultimately show ?thesis using nth_from_start scan by (simp add: nth_value_def Let_def)
qed

section \<open>The frequencies follow the children\<close>

definition nth_ok :: "NthLargest \<Rightarrow> ExprId list \<Rightarrow> (ExprId \<Rightarrow> real) \<Rightarrow> bool" where
  "nth_ok s cs v \<longleftrightarrow> keys_sorted (valueFrequency s) \<and> (\<forall>x. freq (valueFrequency s) x = int (count (mset (map v cs)) x))"

lemma freq_add_freq: "keys_sorted m \<Longrightarrow> freq (freq_add v k m) x = freq m x + (if x = v then k else 0)"
  by (simp add: freq_add_def freq_def alist_simps)

lemma freq_add_sorted: "keys_sorted m \<Longrightarrow> keys_sorted (freq_add v k m)"
  by (simp add: freq_add_def alist_simps)

lemma freq_fold:
  "keys_sorted m \<Longrightarrow> keys_sorted (fold (\<lambda>c m. freq_add (v c) 1 m) cs m)
     \<and> freq (fold (\<lambda>c m. freq_add (v c) 1 m) cs m) x = freq m x + int (count (mset (map v cs)) x)"
  by (induction cs arbitrary: m) (auto simp: freq_add_freq freq_add_sorted)

lemma keys_sorted_rev: "keys_sorted m \<Longrightarrow> sorted_wrt (>) (map fst (rev m))"
  by (simp add: keys_sorted_def rev_map sorted_wrt_rev sorted_wrt_map)

lemma freq_rev: "keys_sorted m \<Longrightarrow> freq (rev m) v = freq m v" for m :: frequencies
proof -
  assume "keys_sorted m"
  then have "distinct (map fst (rev m))" using keys_sorted_rev sorted_desc_distinct by blast
  then have "map_of (rev m) = map_of m" by (metis distinct_rev map_of_eqI rev_map map_of_inject_set set_rev)
  then show ?thesis by (simp add: freq_def)
qed

lemma computeNthLargest_ok:
  assumes "keys_sorted (valueFrequency s)" "keys_sorted delta"
    and "\<And>x. freq (valueFrequency s) x + freq delta x = int (count (mset vs) x)" "vs \<noteq> []"
  shows "computeNthLargest infty delta s = Inr (nth_value (nth_n s) (nth_unique s) vs)"
proof -
  obtain es where es: "mu_traverse (\<lambda>x y. x > y) 0 (rev (valueFrequency s), rev delta) = Inr es"
      "union_of (rev (valueFrequency s)) (rev delta) es"
    using mu_traverse_union keys_sorted_rev assms(1,2) by blast
  have "nth_scan (nth_n s) (nth_unique s) 0 infty es = nth_value (nth_n s) (nth_unique s) vs"
    by (rule scan_union[OF es(2) _ assms(4)]) (simp add: freq_rev assms)
  then show ?thesis using es(1) by (simp add: computeNthLargest_def)
qed

lemma nth_apply_ok:
  assumes "cs \<noteq> []"
  shows "\<exists>s'. nth_apply infty v cs s = Inr (s', nth_value (nth_n s) (nth_unique s) (map v cs)) \<and> nth_ok s' cs v
    \<and> nth_n s' = nth_n s \<and> nth_unique s' = nth_unique s"
proof -
  let ?s = "s\<lparr>valueFrequency := fold (\<lambda>c m. freq_add (v c) 1 m) cs []\<rparr>"
  have ok: "nth_ok ?s cs v" using freq_fold[of "[]" v cs] by (simp add: nth_ok_def keys_sorted_def)
  then have "computeNthLargest infty [] ?s = Inr (nth_value (nth_n ?s) (nth_unique ?s) (map v cs))"
    using assms by (intro computeNthLargest_ok) (auto simp: nth_ok_def keys_sorted_def)
  then show ?thesis using ok by (simp add: nth_apply_def Let_def)
qed

lemma nth_delta_ok:
  "keys_sorted m \<Longrightarrow> keys_sorted (nth_delta cur eval c m)
     \<and> freq (nth_delta cur eval c m) x = freq m x + (if x = eval c then 1 else 0) - (if x = cur c then 1 else 0)"
  by (simp add: nth_delta_def freq_add_freq freq_add_sorted)

lemma nth_delta_fold:
  "keys_sorted m \<Longrightarrow> keys_sorted (fold (nth_delta cur eval) D m)
     \<and> freq (fold (nth_delta cur eval) D m) x
       = freq m x + int (count (mset (map eval D)) x) - int (count (mset (map cur D)) x)"
  by (induction D arbitrary: m) (auto simp: nth_delta_ok)

lemma freq_add_nonempty: "freq_add v k m \<noteq> []"
  by (cases m) (auto simp: freq_add_def)

lemma nth_delta_empty:
  "fold (nth_delta cur eval) D m = [] \<Longrightarrow> m = [] \<and> (\<forall>c \<in> set D. cur c = eval c)"
proof (induction D arbitrary: m)
  case (Cons c D)
  have "fold (nth_delta cur eval) D (nth_delta cur eval c m) = []" using Cons.prems by simp
  from Cons.IH[OF this] show ?case by (cases "cur c = eval c") (simp_all add: nth_delta_def freq_add_nonempty)
qed simp

lemma count_changed:
  assumes "distinct cs" "distinct D" "set D \<subseteq> set cs" "\<forall>c \<in> set cs - set D. v c = w c"
  shows "int (count (mset (map v cs)) x) + int (count (mset (map w D)) x) - int (count (mset (map v D)) x)
    = int (count (mset (map w cs)) x)"
proof -
  have split: "mset cs = mset D + mset (filter (\<lambda>c. c \<notin> set D) cs)"
    using assms(1-3) by (intro multiset_eqI) (auto simp: distinct_count_atmost_1 count_mset_0_iff)
  have same: "image_mset v (mset (filter (\<lambda>c. c \<notin> set D) cs)) = image_mset w (mset (filter (\<lambda>c. c \<notin> set D) cs))"
    using assms(4) by (intro image_mset_cong) auto
  show ?thesis unfolding mset_map split image_mset_union count_union same by simp
qed

lemma nth_evaluate_ok:
  assumes "nth_ok s cs cur" "cs \<noteq> []" "distinct cs" "distinct D" "set D \<subseteq> set cs"
    and "\<forall>c \<in> set cs - set D. cur c = eval c" "val = nth_value (nth_n s) (nth_unique s) (map cur cs)"
  shows "nth_evaluate infty cur eval D val s = Inr (nth_value (nth_n s) (nth_unique s) (map eval cs))"
proof (cases "fold (nth_delta cur eval) D [] = []")
  case True
  then have "map cur cs = map eval cs" using nth_delta_empty[OF True] assms(6) by auto
  then show ?thesis using True assms(7) by (simp add: nth_evaluate_def del: map_eq_conv)
next
  case False
  have d: "keys_sorted (fold (nth_delta cur eval) D [])"
      "\<And>x. freq (fold (nth_delta cur eval) D []) x = int (count (mset (map eval D)) x) - int (count (mset (map cur D)) x)"
    using nth_delta_fold[of "[]" cur eval D] by (auto simp: keys_sorted_def)
  show ?thesis using False assms(1,2) computeNthLargest_ok[OF _ d(1), of s "map eval cs"]
      count_changed[OF assms(3-6)] by (simp add: nth_evaluate_def nth_ok_def d(2) add_diff_eq)
qed

text \<open>C28: The n-th largest node computes the element its name says, and evaluating a move only
  from the children that changed gives what a full application would: on any children whose
  values differ from the current ones inside the changed set, the difference of frequencies
  scanned over the union of both ordered maps is the entry at position n (counted from zero,
  clamped to the last one) of the new values in descending order, each counted once if the node
  is unique.\<close>
theorem nth_largest_incremental:
  assumes "cs \<noteq> []" "distinct cs" "distinct D" "set D \<subseteq> set cs" "\<forall>c \<in> set cs - set D. cur c = eval c"
  shows "\<exists>s' val. nth_apply infty cur cs s = Inr (s', val)
    \<and> nth_evaluate infty cur eval D val s' = Inr (nth_value (nth_n s) (nth_unique s) (map eval cs))
    \<and> (\<exists>s''. nth_apply infty eval cs s' = Inr (s'', nth_value (nth_n s) (nth_unique s) (map eval cs)))"
proof -
  obtain s' where s': "nth_apply infty cur cs s = Inr (s', nth_value (nth_n s) (nth_unique s) (map cur cs))"
      "nth_ok s' cs cur" "nth_n s' = nth_n s" "nth_unique s' = nth_unique s"
    using nth_apply_ok[OF assms(1)] by blast
  then show ?thesis
    using nth_evaluate_ok[OF s'(2) assms] nth_apply_ok[OF assms(1), of infty eval s'] by auto
qed

definition nth_sample_cur :: "ExprId \<Rightarrow> real" where
  "nth_sample_cur c = (if c = 0 then 5 else if c = 1 then 3 else 3)"

definition nth_sample_new :: "ExprId \<Rightarrow> real" where
  "nth_sample_new c = (if c = 0 then 1 else nth_sample_cur c)"

theorem nth_largest_incremental_witness:
  "\<exists>s' val. nth_apply 99 nth_sample_cur [0, 1, 2] \<lparr>nth_n = 1, nth_unique = True, valueFrequency = []\<rparr> = Inr (s', val)
    \<and> nth_evaluate 99 nth_sample_cur nth_sample_new [0] val s' = Inr 1"
proof -
  have "nth_value 1 True (map nth_sample_new [0, 1, 2]) = 1"
    by (simp add: nth_value_def nth_sample_new_def nth_sample_cur_def insert_commute)
  then show ?thesis
    using nth_largest_incremental[of "[0, 1, 2]" "[0]" nth_sample_cur nth_sample_new 99
        "\<lparr>nth_n = 1, nth_unique = True, valueFrequency = []\<rparr>"]
    by (auto simp: nth_sample_new_def)
qed

end
