(* ===== verification/Value_Transforms.thy ===== *)
theory Value_Transforms
  imports Expression_Base
begin

text \<open>
  The expressions with one child that map its value by a function
  (\<open>solver/expressions/Transform.cpp\<close> with \<open>Ceil.cpp\<close>, \<open>Square.cpp\<close>,
  \<open>Step.cpp\<close>, \<open>Log.cpp\<close> and \<open>Rectangle.cpp\<close>), the piecewise linear function
  (\<open>Piecewise.cpp\<close>) and the override of the bounds (\<open>BoundsOverride.cpp\<close>),
  each with its constructor, its application to the values of the children and
  its bounds. The infinite slope of a jump is a constructor of its own.
\<close>

section \<open>Definitions: transforms\<close>

record ApproximationHint =
  hint_valid :: bool
  hint_upper_bound :: real
  hint_lower_bound :: real
  hint_piece_count :: nat

datatype TransformKind = Ceil | Square | Step | Log | Rectangle real real

record Transform =
  transform_kind :: TransformKind
  soft_bounds :: "(real \<times> real) option"
  piece_count :: nat

definition kDefaultPieceCount :: nat where
  "kDefaultPieceCount = 100"

definition mkTransform :: "TransformKind \<Rightarrow> ExprId \<Rightarrow> ApproximationHint option \<Rightarrow> Transform Expression" where
  "mkTransform k expr hint = add_child expr (newExpression
    (case hint of
       Some h \<Rightarrow> if hint_valid h
         then \<lparr>transform_kind = k, soft_bounds = Some (hint_lower_bound h, hint_upper_bound h), piece_count = hint_piece_count h\<rparr>
         else \<lparr>transform_kind = k, soft_bounds = None, piece_count = kDefaultPieceCount\<rparr>
     | None \<Rightarrow> \<lparr>transform_kind = k, soft_bounds = None, piece_count = kDefaultPieceCount\<rparr>))"

definition ceil_transform :: "PrecisionTolerances \<Rightarrow> real \<Rightarrow> real" where
  "ceil_transform t val =
    (let closestInteger = std_round val
     in if compare t val closestInteger = 0 then closestInteger else of_int \<lceil>val\<rceil>)"

definition square_transform :: "real \<Rightarrow> real" where
  "square_transform val = val * val"

definition step_transform :: "PrecisionTolerances \<Rightarrow> real \<Rightarrow> real" where
  "step_transform t val = (if isStrictlyGtZero t val then 1 else 0)"

definition log_transform :: "real \<Rightarrow> real" where
  "log_transform val = (if val \<le> 0 then - 1 * double_max else ln val)"

definition rectangle_transform :: "real \<Rightarrow> real \<Rightarrow> real \<Rightarrow> real" where
  "rectangle_transform lowerBound upperBound val = (if val \<ge> lowerBound \<and> val \<le> upperBound then 1 else 0)"

fun perform_transform :: "PrecisionTolerances \<Rightarrow> TransformKind \<Rightarrow> real \<Rightarrow> real" where
  "perform_transform t Ceil val = ceil_transform t val"
| "perform_transform t Square val = square_transform val"
| "perform_transform t Step val = step_transform t val"
| "perform_transform t Log val = log_transform val"
| "perform_transform t (Rectangle lo hi) val = rectangle_transform lo hi val"

definition newTransform :: "PrecisionTolerances \<Rightarrow> (ExprId \<Rightarrow> real) \<Rightarrow> TransformKind \<Rightarrow> ExprId \<Rightarrow> ApproximationHint option \<Rightarrow> Transform Expression result" where
  "newTransform t init k expr hint =
    (let e = mkTransform k expr hint
     in bindE (getOnlyChild e) (\<lambda>c. Inr (setInitialValue (perform_transform t k (init c)) e)))"

definition transform_evaluate :: "PrecisionTolerances \<Rightarrow> (ExprId \<Rightarrow> real) \<Rightarrow> Transform Expression \<Rightarrow> real result" where
  "transform_evaluate t eval e = bindE (getOnlyChild e) (\<lambda>c. Inr (perform_transform t (transform_kind (kind e)) (eval c)))"

definition transform_apply :: "PrecisionTolerances \<Rightarrow> (ExprId \<Rightarrow> real) \<Rightarrow> Transform Expression \<Rightarrow> (Transform Expression \<times> real) result" where
  "transform_apply t apply e =
    bindE (getOnlyChild e) (\<lambda>c.
      let v = perform_transform t (transform_kind (kind e)) (apply c) in Inr (e\<lparr>exprValue := v\<rparr>, v))"

definition rectangle_bounds :: Bounds where
  "rectangle_bounds = \<lparr>lower_bound = 0, upper_bound = 1\<rparr>"

definition transform_bounds :: "PrecisionTolerances \<Rightarrow> (ExprId \<Rightarrow> Bounds) \<Rightarrow> Transform Expression \<Rightarrow> Bounds result" where
  "transform_bounds t b e =
    (case transform_kind (kind e) of
       Rectangle lo hi \<Rightarrow> Inr rectangle_bounds
     | k \<Rightarrow> bindE (getOnlyChild e) (\<lambda>c.
         let exprLb = lower_bound (b c);
             exprUb = upper_bound (b c);
             different_children_signs = (exprLb < 0 \<and> exprUb > 0);
             fromLb = perform_transform t k exprLb;
             fromUb = perform_transform t k exprUb
         in Inr \<lparr>lower_bound = (if different_children_signs then min (min fromUb fromLb) (perform_transform t k 0)
                                else min fromUb fromLb),
                 upper_bound = max fromUb fromLb\<rparr>))"

definition transform_is_integer :: "TransformKind \<Rightarrow> bool" where
  "transform_is_integer k = (case k of Ceil \<Rightarrow> True | Square \<Rightarrow> False | Step \<Rightarrow> True | Log \<Rightarrow> False | Rectangle lo hi \<Rightarrow> True)"

section \<open>Definitions: piecewise linear functions\<close>

datatype slope = Slope real | PlusInfSlope | MinusInfSlope

type_synonym points = "(real \<times> real) list"

record Piecewise =
  points :: points
  slopes :: "slope list"

fun isNonDecreasing_from :: "real \<times> real \<Rightarrow> points \<Rightarrow> bool result" where
  "isNonDecreasing_from prev [] = Inr True"
| "isNonDecreasing_from prev (p # ps) =
    (if fst p < fst prev then Inl Runtime_error
     else if snd p < snd prev then Inr False
     else isNonDecreasing_from p ps)"

definition isNonDecreasing :: "points \<Rightarrow> bool result" where
  "isNonDecreasing ps = (case ps of [] \<Rightarrow> Inr True | p # qs \<Rightarrow> isNonDecreasing_from p qs)"

fun piecewise_slopes :: "bool \<Rightarrow> real \<times> real \<Rightarrow> points \<Rightarrow> slope list result" where
  "piecewise_slopes isContinuous prev [] = Inr []"
| "piecewise_slopes isContinuous prev (p # ps) =
    (let x = fst p; y = snd p; prevX = fst prev; prevY = snd prev in
     if x < prevX then Inl Runtime_error
     else if isContinuous \<and> prevX = x then Inl Runtime_error
     else if x = prevX \<and> y = prevY then Inl Runtime_error
     else bindE (piecewise_slopes isContinuous p ps) (\<lambda>ss. Inr
       ((if x = prevX then (if y > prevY then PlusInfSlope else MinusInfSlope)
         else Slope ((y - prevY) / (x - prevX))) # ss)))"

fun piecewise_scan :: "slope list \<Rightarrow> real \<Rightarrow> int \<Rightarrow> points \<Rightarrow> real result" where
  "piecewise_scan ss val slopePos [] = Inl Runtime_error"
| "piecewise_scan ss val slopePos (p # ps) =
    (let x = fst p; y = snd p in
     if val = x then Inr y
     else if val < x then
       (if slopePos < 0 then Inl Out_of_range
        else bindE (vec_at ss (nat slopePos)) (\<lambda>s. case s of Slope a \<Rightarrow> Inr (y - a * (x - val)) | _ \<Rightarrow> Inl Undefined_behaviour))
     else piecewise_scan ss val (slopePos + 1) ps)"

definition performPiecewise :: "Piecewise \<Rightarrow> real \<Rightarrow> real result" where
  "performPiecewise s val =
    (if val < fst (hd (points s)) then Inl Runtime_error
     else if val > fst (last (points s)) then Inl Runtime_error
     else piecewise_scan (slopes s) val (- 1) (points s))"

definition mkPiecewise :: "(ExprId \<Rightarrow> real) \<Rightarrow> points \<Rightarrow> ExprId \<Rightarrow> bool \<Rightarrow> Piecewise Expression result" where
  "mkPiecewise init ps expr isContinuous =
    (if length ps < 2 then Inl Runtime_error
     else bindE (piecewise_slopes isContinuous (hd ps) (tl ps)) (\<lambda>ss.
       let e = add_child expr (newExpression \<lparr>points = ps, slopes = ss\<rparr>)
       in bindE (getOnlyChild e) (\<lambda>c. bindE (performPiecewise (kind e) (init c)) (\<lambda>v. Inr (setInitialValue v e)))))"

definition piecewise_evaluate :: "(ExprId \<Rightarrow> real) \<Rightarrow> Piecewise Expression \<Rightarrow> real result" where
  "piecewise_evaluate eval e = bindE (getOnlyChild e) (\<lambda>c. performPiecewise (kind e) (eval c))"

definition piecewise_apply :: "(ExprId \<Rightarrow> real) \<Rightarrow> Piecewise Expression \<Rightarrow> (Piecewise Expression \<times> real) result" where
  "piecewise_apply apply e =
    bindE (getOnlyChild e) (\<lambda>c. bindE (performPiecewise (kind e) (apply c)) (\<lambda>v. Inr (e\<lparr>exprValue := v\<rparr>, v)))"

definition piecewise_bounds :: "Piecewise \<Rightarrow> Bounds" where
  "piecewise_bounds s = fold (\<lambda>p b. \<lparr>lower_bound = min (lower_bound b) (snd p), upper_bound = max (upper_bound b) (snd p)\<rparr>)
     (points s) \<lparr>lower_bound = double_max, upper_bound = - double_max\<rparr>"

definition sample_real_function :: "(real \<Rightarrow> real) \<Rightarrow> real \<Rightarrow> real \<Rightarrow> nat \<Rightarrow> points" where
  "sample_real_function f lb ub numPoints =
    map (\<lambda>i. let p = real i / real (numPoints - 1); x = lb + (ub - lb) * p in (x, f x)) [0..<numPoints]"

section \<open>Definitions: the override of the bounds\<close>

record BoundsOverride =
  over_lower :: "real option"
  over_upper :: "real option"

definition mkBoundsOverride :: "(ExprId \<Rightarrow> real) \<Rightarrow> ExprId \<Rightarrow> real option \<Rightarrow> real option \<Rightarrow> BoundsOverride Expression result" where
  "mkBoundsOverride init child lo hi =
    (if lo = None \<and> hi = None then Inl Runtime_error
     else Inr (setInitialValue (init child) (add_child child (newExpression \<lparr>over_lower = lo, over_upper = hi\<rparr>))))"

definition override_bounds :: "(ExprId \<Rightarrow> Bounds) \<Rightarrow> BoundsOverride Expression \<Rightarrow> Bounds result" where
  "override_bounds b e =
    bindE (getOnlyChild e) (\<lambda>c.
      case (over_lower (kind e), over_upper (kind e)) of
        (Some lo, Some hi) \<Rightarrow> Inr \<lparr>lower_bound = lo, upper_bound = hi\<rparr>
      | (lo, hi) \<Rightarrow> Inr \<lparr>lower_bound = (case lo of Some x \<Rightarrow> x | None \<Rightarrow> lower_bound (b c)),
                        upper_bound = (case hi of Some x \<Rightarrow> x | None \<Rightarrow> upper_bound (b c))\<rparr>)"

definition override_is_integer :: "PrecisionTolerances \<Rightarrow> (ExprId \<Rightarrow> bool) \<Rightarrow> BoundsOverride Expression \<Rightarrow> bool result" where
  "override_is_integer t child_is_integer e =
    (case (over_lower (kind e), over_upper (kind e)) of
       (Some lo, Some hi) \<Rightarrow>
         if compare t lo hi = 0 \<and> isInteger t lo then Inr True
         else bindE (getOnlyChild e) (\<lambda>c. Inr (child_is_integer c))
     | _ \<Rightarrow> bindE (getOnlyChild e) (\<lambda>c. Inr (child_is_integer c)))"

definition override_evaluate :: "(ExprId \<Rightarrow> real) \<Rightarrow> BoundsOverride Expression \<Rightarrow> real result" where
  "override_evaluate child_evaluate e = bindE (getOnlyChild e) (\<lambda>c. Inr (child_evaluate c))"

definition override_apply :: "(ExprId \<Rightarrow> real) \<Rightarrow> BoundsOverride Expression \<Rightarrow> (BoundsOverride Expression \<times> real) result" where
  "override_apply child_apply e = bindE (getOnlyChild e) (\<lambda>c. Inr (e\<lparr>exprValue := child_apply c\<rparr>, child_apply c))"

section \<open>The bounds of a transform contain its values\<close>

definition in_bounds :: "Bounds \<Rightarrow> real \<Rightarrow> bool" where
  "in_bounds b v \<longleftrightarrow> lower_bound b \<le> v \<and> v \<le> upper_bound b"

text \<open>No positive double is smaller than the least denormal number.\<close>

definition double_denorm_min :: real where
  "double_denorm_min = 1 / 2 ^ 1074"

definition double_range :: "real \<Rightarrow> bool" where
  "double_range v \<longleftrightarrow> v \<le> 0 \<or> double_denorm_min \<le> v"

lemma ln_power2_inverse: "ln (1 / 2 ^ n :: real) = - (real n * ln 2)"
  by (simp add: ln_div ln_realpow)

lemma mono_ln_double: "double_range v \<Longrightarrow> 0 < v \<Longrightarrow> - double_max \<le> ln v"
proof -
  assume "double_range v" "0 < v"
  then have "ln double_denorm_min \<le> ln v" by (auto simp: double_range_def double_denorm_min_def)
  moreover have "ln double_denorm_min = - (1074 * ln 2)" using ln_power2_inverse[of 1074]
    unfolding double_denorm_min_def by (simp only: of_nat_numeral)
  moreover have "ln (2::real) \<le> 1" using ln_le_minus_one[of 2] by simp
  moreover have "1074 \<le> double_max" by (simp add: double_max_def)
  ultimately show ?thesis by linarith
qed

lemma log_transform_mono: "double_range b \<Longrightarrow> a \<le> b \<Longrightarrow> log_transform a \<le> log_transform b"
  using mono_ln_double by (auto simp: log_transform_def)

lemma step_transform_mono:
  assumes "0 < absolute t" "a \<le> b"
  shows "step_transform t a \<le> step_transform t b"
proof -
  have "compare t 0 a = - 1 \<Longrightarrow> compare t 0 b = - 1" using compare_neg_extend_right[OF assms] .
  then show ?thesis using compare_swap[OF assms(1), of 0] by (auto simp: step_transform_def isStrictlyGtZero_def)
qed

lemma std_round_mono: "a \<le> b \<Longrightarrow> std_round a \<le> std_round b"
  by (auto simp: std_round_def floor_mono ceiling_mono) linarith

lemma std_round_is_int: "std_round a \<in> \<int>"
  by (simp add: std_round_def)

lemma std_round_of_int: "r \<in> \<int> \<Longrightarrow> std_round r = r"
  by (elim Ints_cases) (auto simp: std_round_def, linarith+)

lemma std_round_le_ceiling: "std_round a \<le> of_int \<lceil>a\<rceil>"
  using std_round_mono[OF le_of_int_ceiling[of a]] by (simp add: std_round_of_int)

lemma ceil_transform_mono:
  assumes "0 < absolute t" "a \<le> b"
  shows "ceil_transform t a \<le> ceil_transform t b"
proof -
  define r where "r = std_round b"
  have r: "r \<in> \<int>" by (simp add: r_def std_round_is_int)
  have up: "ceil_transform t a \<le> of_int \<lceil>a\<rceil>" by (simp add: ceil_transform_def Let_def std_round_le_ceiling)
  have mono: "(of_int \<lceil>a\<rceil> :: real) \<le> of_int \<lceil>b\<rceil>" using assms(2) by (simp add: ceiling_mono)
  consider "compare t b r \<noteq> 0" | "compare t b r = 0" "a \<le> r" | "compare t b r = 0" "r < a" by linarith
  then show ?thesis
  proof cases
    case 1
    then show ?thesis using up mono by (simp add: ceil_transform_def r_def[symmetric])
  next
    case 2
    then have "of_int \<lceil>a\<rceil> \<le> r" using r by (elim Ints_cases) (simp add: ceiling_le_iff)
    then show ?thesis using 2 up by (simp add: ceil_transform_def r_def[symmetric])
  next
    case 3
    have "std_round a = r" using std_round_mono[OF assms(2)] std_round_mono[of r a] 3 std_round_of_int[OF r] by (simp add: r_def)
    moreover have "compare t r a \<noteq> - 1"
      using compare_neg_extend_right[OF assms(1,2), of r] 3(1) compare_swap[OF assms(1), of b r] by auto
    then have "compare t a r = 0"
      using 3(2) compare_swap[OF assms(1), of a r] compare_range[of t a r] compare_neg_less[OF assms(1), of a r] by auto
    ultimately have "ceil_transform t a = r" by (simp add: ceil_transform_def)
    then show ?thesis using 3 by (simp add: ceil_transform_def r_def[symmetric])
  qed
qed

lemma ceil_transform_zero: "0 < absolute t \<Longrightarrow> ceil_transform t 0 = 0"
  by (simp add: ceil_transform_def std_round_def)

lemma square_within:
  assumes "lo \<le> v" "v \<le> hi"
  shows "v * v \<le> max (hi * hi) (lo * lo)" "\<not> (lo < 0 \<and> hi > 0) \<Longrightarrow> min (hi * hi) (lo * lo) \<le> v * (v::real)"
proof -
  have "\<bar>v\<bar> \<le> \<bar>hi\<bar> \<or> \<bar>v\<bar> \<le> \<bar>lo\<bar>" using assms by linarith
  then show "v * v \<le> max (hi * hi) (lo * lo)" by (auto simp: abs_le_square_iff power2_eq_square le_max_iff_disj)
  assume "\<not> (lo < 0 \<and> hi > 0)"
  then have "\<bar>hi\<bar> \<le> \<bar>v\<bar> \<or> \<bar>lo\<bar> \<le> \<bar>v\<bar>" using assms by linarith
  then show "min (hi * hi) (lo * lo) \<le> v * v" by (auto simp: abs_le_square_iff power2_eq_square min_le_iff_disj)
qed

lemma transform_bounds_sound:
  assumes "0 < absolute t" "children e = [c]" "in_bounds (b c) v" "double_range v" "double_range (upper_bound (b c))"
  shows "\<exists>b'. transform_bounds t b e = Inr b' \<and> in_bounds b' (perform_transform t (transform_kind (kind e)) v)"
proof -
  have v: "lower_bound (b c) \<le> v" "v \<le> upper_bound (b c)" using assms(3) by (simp_all add: in_bounds_def)
  have only: "getOnlyChild e = Inr c" using assms(2) by (simp add: getOnlyChild_def ensureOnlyOneChildExists_def)
  show ?thesis
  proof (cases "transform_kind (kind e)")
    case Ceil
    then show ?thesis using v only ceil_transform_mono[OF assms(1)]
      by (simp add: transform_bounds_def Let_def in_bounds_def min_le_iff_disj le_max_iff_disj)
  next
    case Square
    then show ?thesis using only square_within[OF v]
      by (simp add: transform_bounds_def Let_def in_bounds_def square_transform_def)
  next
    case Step
    then show ?thesis using v only step_transform_mono[OF assms(1)]
      by (simp add: transform_bounds_def Let_def in_bounds_def min_le_iff_disj le_max_iff_disj)
  next
    case Log
    then show ?thesis using v only log_transform_mono assms(4,5)
      by (simp add: transform_bounds_def Let_def in_bounds_def min_le_iff_disj le_max_iff_disj)
  next
    case (Rectangle lo hi)
    then show ?thesis by (simp add: transform_bounds_def rectangle_bounds_def in_bounds_def rectangle_transform_def)
  qed
qed

section \<open>The piecewise function interpolates its points\<close>

definition interpolate :: "real \<times> real \<Rightarrow> real \<times> real \<Rightarrow> real \<Rightarrow> real" where
  "interpolate p q v = snd p + (snd q - snd p) * (v - fst p) / (fst q - fst p)"

lemma interpolate_right: "fst p < fst q \<Longrightarrow> interpolate p q (fst q) = snd q"
  by (simp add: interpolate_def)

lemma interpolate_back:
  assumes "fst p < fst q"
  shows "snd q - (snd q - snd p) / (fst q - fst p) * (fst q - v) = interpolate p q v"
proof -
  define a where "a = (snd q - snd p) / (fst q - fst p)"
  have q: "snd q = snd p + a * (fst q - fst p)" using assms by (simp add: a_def)
  have "interpolate p q v = snd p + a * (v - fst p)" by (simp add: interpolate_def a_def)
  also have "\<dots> = snd q - a * (fst q - v)" unfolding q by (simp add: algebra_simps)
  finally show ?thesis by (simp add: a_def)
qed

lemma piecewise_scan_interpolates:
  "piecewise_slopes isContinuous prev ps = Inr ss \<Longrightarrow> fst prev < v \<Longrightarrow> v \<le> fst (last (prev # ps)) \<Longrightarrow>
     \<exists>i < length ps. fst ((prev # ps) ! i) < v \<and> v \<le> fst (ps ! i)
       \<and> piecewise_scan (pre @ ss) v (int (length pre)) ps = Inr (interpolate ((prev # ps) ! i) (ps ! i) v)"
proof (induction ps arbitrary: prev ss pre)
  case Nil
  then show ?case by simp
next
  case (Cons p ps)
  obtain s ss' where ss: "ss = s # ss'" "piecewise_slopes isContinuous p ps = Inr ss'"
      "fst prev \<noteq> fst p \<longrightarrow> s = Slope ((snd p - snd prev) / (fst p - fst prev))"
    using Cons.prems(1) by (auto simp: Let_def bindE_eq_Inr split: if_splits)
  show ?case
  proof (cases "v \<le> fst p")
    case True
    have "piecewise_scan (pre @ ss) v (int (length pre)) (p # ps) = Inr (interpolate prev p v)"
      using True Cons.prems(2) ss(1,3) interpolate_right[of prev p] interpolate_back[of prev p v]
      by (auto simp: Let_def vec_at_def nth_append)
    then show ?thesis using True Cons.prems(2) by (intro exI[of _ 0]) auto
  next
    case False
    then have "v \<le> fst (last (p # ps))" using Cons.prems(3) by (simp split: if_splits)
    then obtain i where i: "i < length ps" "fst ((p # ps) ! i) < v" "v \<le> fst (ps ! i)"
        "piecewise_scan ((pre @ [s]) @ ss') v (int (length (pre @ [s]))) ps = Inr (interpolate ((p # ps) ! i) (ps ! i) v)"
      using Cons.IH[OF ss(2), of "pre @ [s]"] False by auto
    then show ?thesis using False ss(1) by (intro exI[of _ "Suc i"]) (auto simp: add.commute)
  qed
qed

lemma interpolate_between:
  assumes "fst p < v" "v \<le> fst q" "in_bounds b (snd p)" "in_bounds b (snd q)"
  shows "in_bounds b (interpolate p q v)"
proof -
  define l where "l = (v - fst p) / (fst q - fst p)"
  have l: "0 \<le> l" "l \<le> 1" using assms(1,2) by (auto simp: l_def)
  have eq: "interpolate p q v = snd p + l * (snd q - snd p)" by (simp add: interpolate_def l_def)
  have "\<bar>l * (snd q - snd p)\<bar> \<le> \<bar>snd q - snd p\<bar>" using l by (simp add: abs_mult mult_left_le_one_le)
  moreover have "0 \<le> l * (snd q - snd p) \<longleftrightarrow> l = 0 \<or> 0 \<le> snd q - snd p" using l by (auto simp: zero_le_mult_iff)
  ultimately show ?thesis using assms(3,4) unfolding eq in_bounds_def by (auto simp: abs_if split: if_splits)
qed

lemma piecewise_bounds_fold:
  "p \<in> set ps \<or> in_bounds b (snd p) \<Longrightarrow> in_bounds (fold (\<lambda>p b. \<lparr>lower_bound = min (lower_bound b) (snd p),
     upper_bound = max (upper_bound b) (snd p)\<rparr>) ps b) (snd p)"
proof (induction ps arbitrary: b)
  case (Cons q ps)
  let ?b = "\<lparr>lower_bound = min (lower_bound b) (snd q), upper_bound = max (upper_bound b) (snd q)\<rparr>"
  have "p \<in> set ps \<or> in_bounds ?b (snd p)" using Cons.prems by (auto simp: in_bounds_def)
  from Cons.IH[OF this] show ?case by simp
qed simp

lemma piecewise_bounds_points: "p \<in> set (points s) \<Longrightarrow> in_bounds (piecewise_bounds s) (snd p)"
  unfolding piecewise_bounds_def by (rule piecewise_bounds_fold) simp

lemma performPiecewise_cases:
  assumes "piecewise_slopes isContinuous (hd ps) (tl ps) = Inr ss" "length ps \<ge> 2"
    and "fst (hd ps) < v" "v \<le> fst (last ps)"
  shows "\<exists>i. Suc i < length ps \<and> fst (ps ! i) < v \<and> v \<le> fst (ps ! Suc i)
    \<and> performPiecewise \<lparr>points = ps, slopes = ss\<rparr> v = Inr (interpolate (ps ! i) (ps ! Suc i) v)"
proof -
  obtain p qs where ps: "ps = p # qs" using assms(2) by (cases ps) auto
  obtain i where "i < length qs" "fst ((p # qs) ! i) < v" "v \<le> fst (qs ! i)"
      "piecewise_scan ss v 0 qs = Inr (interpolate ((p # qs) ! i) (qs ! i) v)"
    using piecewise_scan_interpolates[of isContinuous p qs ss v "[]"] assms by (auto simp: ps)
  then show ?thesis using assms(3,4) by (auto simp: ps performPiecewise_def Let_def intro!: exI[of _ i])
qed

lemma mkPiecewise_kind:
  "mkPiecewise init ps expr isContinuous = Inr e \<Longrightarrow>
     length ps \<ge> 2 \<and> (\<exists>ss. piecewise_slopes isContinuous (hd ps) (tl ps) = Inr ss \<and> kind e = \<lparr>points = ps, slopes = ss\<rparr>)
     \<and> children e = [expr]"
  by (auto simp: mkPiecewise_def bindE_eq_Inr Let_def add_child_def split: if_splits)

lemma piecewise_slopes_jump:
  "piecewise_slopes isContinuous prev ps = Inr ss \<Longrightarrow> sorted (map fst (prev # ps)) \<and> (isContinuous \<longrightarrow> distinct (map fst (prev # ps)))"
proof (induction ps arbitrary: prev ss)
  case (Cons p ps)
  then obtain ss' where "piecewise_slopes isContinuous p ps = Inr ss'" "fst prev \<le> fst p" "isContinuous \<longrightarrow> fst prev < fst p"
    by (auto simp: Let_def bindE_eq_Inr split: if_splits)
  moreover from this have "\<forall>q \<in> set (p # ps). fst p \<le> fst q" using Cons.IH by auto
  ultimately show ?case using Cons.IH[of p ss'] by (auto dest: bspec)
qed simp

lemma isNonDecreasing_from_True:
  "isNonDecreasing_from p ps = Inr True \<longleftrightarrow> sorted (map fst (p # ps)) \<and> sorted (map snd (p # ps))"
  by (induction ps arbitrary: p) (auto simp: order.trans)

lemma isNonDecreasing_True: "isNonDecreasing ps = Inr True \<longleftrightarrow> sorted (map fst ps) \<and> sorted (map snd ps)"
  by (cases ps) (simp_all add: isNonDecreasing_def isNonDecreasing_from_True del: list.map(2))

lemma piecewise_slopes_strict:
  "sorted_wrt (<) (map fst (p # ps)) \<Longrightarrow> \<exists>ss. piecewise_slopes True p ps = Inr ss"
proof (induction ps arbitrary: p)
  case (Cons q ps)
  have "sorted_wrt (<) (map fst (q # ps))" using Cons.prems by simp
  from Cons.IH[OF this] obtain ss where "piecewise_slopes True q ps = Inr ss" ..
  then show ?case using Cons.prems by (auto simp: Let_def)
qed simp

lemma sample_strict:
  assumes "lb < ub" "2 \<le> n"
  shows "sorted_wrt (<) (map fst (sample_real_function f lb ub n))"
    "fst (hd (sample_real_function f lb ub n)) = lb" "fst (last (sample_real_function f lb ub n)) = ub"
proof -
  have "(ub - lb) * real i / (real n - 1) < (ub - lb) * real j / (real n - 1)" if "i < j" for i j
    using assms that by (simp add: divide_strict_right_mono)
  then show "sorted_wrt (<) (map fst (sample_real_function f lb ub n))"
    by (auto simp: sample_real_function_def Let_def sorted_wrt_iff_nth_less o_def of_nat_diff)
  show "fst (hd (sample_real_function f lb ub n)) = lb" using assms by (simp add: sample_real_function_def hd_map Let_def)
  show "fst (last (sample_real_function f lb ub n)) = ub"
    using assms by (simp add: sample_real_function_def last_map Let_def)
qed

lemma sample_accepted:
  assumes "lb < ub" "2 \<le> n"
  shows "\<exists>ss. piecewise_slopes True (hd (sample_real_function f lb ub n)) (tl (sample_real_function f lb ub n)) = Inr ss"
proof -
  have "sample_real_function f lb ub n \<noteq> []" using assms by (simp add: sample_real_function_def)
  then have "hd (sample_real_function f lb ub n) # tl (sample_real_function f lb ub n) = sample_real_function f lb ub n" by simp
  then show ?thesis using piecewise_slopes_strict sample_strict(1)[OF assms] by metis
qed

section \<open>Properties\<close>

text \<open>C30: The bounds a transform derives from the bounds of its child contain its value:
  whenever the child's value lies between the child's bounds, the rounded-up value, the square,
  the step, the logarithm or the indicator of a range lies between the two numbers
  the transform returns. The values are doubles, so a positive one is not below the
  least denormal number.\<close>
theorem transform_bounds_contain_value:
  assumes "0 < absolute t" "newTransform t init k c hint = Inr e" "in_bounds (b c) v" "double_range v"
    "double_range (upper_bound (b c))"
  shows "\<exists>b' w. transform_bounds t b e = Inr b' \<and> transform_evaluate t (\<lambda>_. v) e = Inr w \<and> in_bounds b' w"
proof -
  have "children e = [c]"
    using assms(2) by (auto simp: newTransform_def mkTransform_def add_child_def bindE_eq_Inr Let_def)
  then show ?thesis
    using transform_bounds_sound[where t = t and b = b and v = v and e = e and c = c] assms
    by (simp add: transform_evaluate_def getOnlyChild_def ensureOnlyOneChildExists_def)
qed

definition square_sample :: "Transform Expression" where
  "square_sample = \<lparr>children = [7], exprValue = 4, initialValue = 4, properlyInitialized = True, isFixed = False,
     directlyAffectedContainers = None, potentials = [], shouldRefresh = True,
     kind = \<lparr>transform_kind = Square, soft_bounds = None, piece_count = 100\<rparr>\<rparr>"

theorem transform_bounds_contain_value_witness:
  "\<exists>b' w. transform_bounds defaultTolerances (\<lambda>_. \<lparr>lower_bound = - 3, upper_bound = 2\<rparr>) square_sample = Inr b'
     \<and> transform_evaluate defaultTolerances (\<lambda>_. - 1) square_sample = Inr w \<and> in_bounds b' w"
proof -
  have "newTransform defaultTolerances (\<lambda>_. 2) Square 7 None = Inr square_sample"
    by (simp add: newTransform_def mkTransform_def add_child_def newExpression_def getOnlyChild_def square_sample_def
        ensureOnlyOneChildExists_def setInitialValue_def kDefaultPieceCount_def square_transform_def Let_def)
  from transform_bounds_contain_value[OF _ this, of "\<lambda>_. \<lparr>lower_bound = - 3, upper_bound = 2\<rparr>" "- 1"]
  show ?thesis by (simp add: defaultTolerances_def in_bounds_def double_range_def double_denorm_min_def)
qed

text \<open>C31: A piecewise function that its constructor accepts is defined on the whole range of its
  points: at the first point it is the value there, and at every other position up to the last
  point it is the linear interpolation of two consecutive points around it, a value that lies
  between the bounds the node returns; the branch with an infinite slope and the one that reads
  before the first slope are never reached. The points are sorted, and have no jump if the
  function is declared continuous.\<close>
theorem piecewise_interpolates:
  assumes "mkPiecewise init ps c isContinuous = Inr e" "fst (hd ps) \<le> v" "v \<le> fst (last ps)"
  shows "\<exists>y. piecewise_evaluate (\<lambda>_. v) e = Inr y \<and> in_bounds (piecewise_bounds (kind e)) y
    \<and> (if v = fst (hd ps) then y = snd (hd ps)
       else \<exists>i. Suc i < length ps \<and> fst (ps ! i) < v \<and> v \<le> fst (ps ! Suc i) \<and> y = interpolate (ps ! i) (ps ! Suc i) v)
    \<and> sorted (map fst ps) \<and> (isContinuous \<longrightarrow> distinct (map fst ps))"
proof -
  obtain ss where k: "length ps \<ge> 2" "piecewise_slopes isContinuous (hd ps) (tl ps) = Inr ss"
      "kind e = \<lparr>points = ps, slopes = ss\<rparr>" "children e = [c]"
    using mkPiecewise_kind[OF assms(1)] by blast
  have pts: "hd ps # tl ps = ps" using k(1) by (cases ps) auto
  then have srt: "sorted (map fst ps)" "isContinuous \<longrightarrow> distinct (map fst ps)" using piecewise_slopes_jump[OF k(2)] by simp_all
  have ev: "piecewise_evaluate (\<lambda>_. v) e = performPiecewise (kind e) v"
    using k(4) by (simp add: piecewise_evaluate_def getOnlyChild_def ensureOnlyOneChildExists_def)
  have mem: "p \<in> set ps \<Longrightarrow> in_bounds (piecewise_bounds (kind e)) (snd p)" for p
    using piecewise_bounds_points[of p "kind e"] by (simp add: k(3))
  show ?thesis
  proof (cases "v = fst (hd ps)")
    case True
    have "piecewise_evaluate (\<lambda>_. v) e = Inr (snd (hd ps))"
      using True assms(3) k(1) unfolding ev k(3) by (cases ps) (auto simp: performPiecewise_def Let_def)
    then show ?thesis using True srt mem[of "hd ps"] k(1) by (cases ps) auto
  next
    case False
    then obtain i where i: "Suc i < length ps" "fst (ps ! i) < v" "v \<le> fst (ps ! Suc i)"
        "performPiecewise (kind e) v = Inr (interpolate (ps ! i) (ps ! Suc i) v)"
      using performPiecewise_cases[OF k(2,1), of v] assms(2,3) k(3) by auto
    then show ?thesis using False srt ev interpolate_between[OF i(2,3)] mem[of "ps ! i"] mem[of "ps ! Suc i"] by auto
  qed
qed

definition piecewise_sample :: "Piecewise Expression" where
  "piecewise_sample = \<lparr>children = [5], exprValue = 1, initialValue = 1, properlyInitialized = True, isFixed = False,
     directlyAffectedContainers = None, potentials = [], shouldRefresh = True,
     kind = \<lparr>points = [(0, 1), (2, 5), (2, 3)], slopes = [Slope 2, MinusInfSlope]\<rparr>\<rparr>"

theorem piecewise_interpolates_witness:
  "mkPiecewise (\<lambda>_. 0) [(0, 1), (2, 5), (2, 3)] 5 False = Inr piecewise_sample
    \<and> (\<exists>y. piecewise_evaluate (\<lambda>_. 1) piecewise_sample = Inr y \<and> in_bounds (piecewise_bounds (kind piecewise_sample)) y)"
proof -
  have mk: "mkPiecewise (\<lambda>_. 0) [(0, 1), (2, 5), (2, 3)] 5 False = Inr piecewise_sample"
    by (simp add: mkPiecewise_def add_child_def newExpression_def getOnlyChild_def piecewise_sample_def
        ensureOnlyOneChildExists_def setInitialValue_def performPiecewise_def Let_def)
  show ?thesis using mk piecewise_interpolates[OF mk, of 1] by auto
qed

end
