(* ===== verification/Binary_Operations.thy ===== *)
theory Binary_Operations
  imports Expression_Base
begin

text \<open>
  The expressions with two operands: the product
  (\<open>solver/expressions/ProductOperation.cpp\<close>) and the quotient
  (\<open>QuotientOperation.cpp\<close>) with the bounds both derive from the candidates at
  the corners (\<open>BinaryOperation.cpp\<close>). A quotient may be infinite or not a
  number, so its doubles are the type \<open>xdouble\<close> with the comparison and the
  arithmetic of IEEE 754 the source uses.
\<close>

section \<open>Definitions: products\<close>

definition product_evaluate :: "(ExprId \<Rightarrow> real) \<Rightarrow> ExprId \<Rightarrow> ExprId \<Rightarrow> real" where
  "product_evaluate eval child1st child2nd = eval child1st * eval child2nd"

definition product_apply :: "(ExprId \<Rightarrow> real) \<Rightarrow> ExprId \<times> ExprId \<Rightarrow> (ExprId \<times> ExprId) Expression \<Rightarrow> (ExprId \<times> ExprId) Expression \<times> real" where
  "product_apply apply ops e = (let v = apply (fst ops) * apply (snd ops) in (e\<lparr>exprValue := v\<rparr>, v))"

definition mkBinaryOperation :: "ExprId \<Rightarrow> ExprId \<Rightarrow> (ExprId \<times> ExprId) Expression" where
  "mkBinaryOperation expr1 expr2 = add_child expr2 (add_child expr1 (newExpression (expr1, expr2)))"

definition mkProductOperation :: "(ExprId \<Rightarrow> real) \<Rightarrow> ExprId \<Rightarrow> ExprId \<Rightarrow> (ExprId \<times> ExprId) Expression" where
  "mkProductOperation init expr1 expr2 = setInitialValue (init expr1 * init expr2) (mkBinaryOperation expr1 expr2)"

definition product_candidates :: "Bounds \<Rightarrow> Bounds \<Rightarrow> real list" where
  "product_candidates b1 b2 =
    [lower_bound b1 * lower_bound b2, lower_bound b1 * upper_bound b2,
     upper_bound b1 * lower_bound b2, upper_bound b1 * upper_bound b2]"

section \<open>Definitions: doubles with infinities\<close>

datatype xdouble = MinusInf | Finite real | PlusInf | NaN

fun xless :: "xdouble \<Rightarrow> xdouble \<Rightarrow> bool" where
  "xless NaN y = False"
| "xless x NaN = False"
| "xless MinusInf y = (y \<noteq> MinusInf)"
| "xless (Finite a) y = (case y of Finite b \<Rightarrow> a < b | PlusInf \<Rightarrow> True | _ \<Rightarrow> False)"
| "xless PlusInf y = False"

definition signed_inf :: "real \<Rightarrow> xdouble" where
  "signed_inf a = (if a > 0 then PlusInf else if a < 0 then MinusInf else NaN)"

fun times_inf :: "xdouble \<Rightarrow> xdouble" where
  "times_inf NaN = NaN"
| "times_inf MinusInf = MinusInf"
| "times_inf PlusInf = PlusInf"
| "times_inf (Finite a) = signed_inf a"

fun xdivide :: "xdouble \<Rightarrow> xdouble \<Rightarrow> xdouble" where
  "xdivide (Finite a) (Finite b) = (if b = 0 then signed_inf a else Finite (a / b))"
| "xdivide PlusInf (Finite b) = (if b < 0 then MinusInf else PlusInf)"
| "xdivide MinusInf (Finite b) = (if b < 0 then PlusInf else MinusInf)"
| "xdivide (Finite a) PlusInf = Finite 0"
| "xdivide (Finite a) MinusInf = Finite 0"
| "xdivide _ _ = NaN"

definition isinf :: "xdouble \<Rightarrow> bool" where
  "isinf x \<longleftrightarrow> x = PlusInf \<or> x = MinusInf"

section \<open>Definitions: quotients\<close>

definition safe_div :: "xdouble \<Rightarrow> xdouble \<Rightarrow> xdouble result" where
  "safe_div numerator denominator =
    (if numerator = NaN \<or> denominator = NaN then Inl Runtime_error
     else if isinf numerator \<and> isinf denominator then Inl Runtime_error
     else Inr (if denominator = Finite 0 then times_inf numerator else xdivide numerator denominator))"

type_synonym xbounds = "xdouble \<times> xdouble"

definition quotient_candidates :: "xbounds \<Rightarrow> xbounds \<Rightarrow> xdouble list result" where
  "quotient_candidates b1 b2 =
    (let denom_contains_zero = (xless (fst b2) (Finite 0) \<and> xless (Finite 0) (snd b2)) in
     bindE (foldE (\<lambda>(n, d) cs. bindE (safe_div n d) (\<lambda>q. Inr (if q = NaN then cs else cs @ [q])))
              [(fst b1, fst b2), (fst b1, snd b2), (snd b1, fst b2), (snd b1, snd b2)] [])
       (\<lambda>candidates. Inr
         (if \<not> (fst b1 = Finite 0 \<and> snd b1 = Finite 0) \<and> denom_contains_zero
          then candidates @ [PlusInf, MinusInf] else candidates)))"

fun min_element :: "('a \<Rightarrow> 'a \<Rightarrow> bool) \<Rightarrow> 'a list \<Rightarrow> 'a result" where
  "min_element lt [] = Inl Undefined_behaviour"
| "min_element lt (x # xs) = Inr (fold (\<lambda>y best. if lt y best then y else best) xs x)"

fun max_element :: "('a \<Rightarrow> 'a \<Rightarrow> bool) \<Rightarrow> 'a list \<Rightarrow> 'a result" where
  "max_element lt [] = Inl Undefined_behaviour"
| "max_element lt (x # xs) = Inr (fold (\<lambda>y best. if lt best y then y else best) xs x)"

definition binary_bounds :: "('a \<Rightarrow> 'a \<Rightarrow> bool) \<Rightarrow> 'a list \<Rightarrow> ('a \<times> 'a) result" where
  "binary_bounds lt candidates =
    bindE (min_element lt candidates) (\<lambda>lo. bindE (max_element lt candidates) (\<lambda>hi. Inr (lo, hi)))"

definition quotient_bounds :: "xbounds \<Rightarrow> xbounds \<Rightarrow> xbounds result" where
  "quotient_bounds b1 b2 = bindE (quotient_candidates b1 b2) (binary_bounds xless)"

definition product_bounds :: "Bounds \<Rightarrow> Bounds \<Rightarrow> (real \<times> real) result" where
  "product_bounds b1 b2 = binary_bounds (<) (product_candidates b1 b2)"

section \<open>The least and the greatest candidate\<close>

lemma min_element_least:
  assumes asym: "\<And>a b. lt a b \<Longrightarrow> \<not> lt b a"
    and trans: "\<And>a b c. a \<in> S \<Longrightarrow> b \<in> S \<Longrightarrow> c \<in> S \<Longrightarrow> \<not> lt b a \<Longrightarrow> \<not> lt c b \<Longrightarrow> \<not> lt c a"
    and S: "set (x # xs) \<subseteq> S"
  shows "\<exists>m \<in> set (x # xs). min_element lt (x # xs) = Inr m \<and> (\<forall>z \<in> set (x # xs). \<not> lt z m)"
  using S
proof (induction xs arbitrary: x)
  case Nil
  then show ?case using asym by auto
next
  case (Cons y xs)
  let ?b = "if lt y x then y else x"
  have "set (?b # xs) \<subseteq> S" using Cons.prems by auto
  from Cons.IH[OF this] obtain m where m: "m \<in> set (?b # xs)" "min_element lt (?b # xs) = Inr m"
      "\<forall>z \<in> set (?b # xs). \<not> lt z m" by blast
  have S: "m \<in> S" "x \<in> S" "y \<in> S" "?b \<in> S" using m(1) Cons.prems by (auto split: if_splits)
  have "\<not> lt x m" "\<not> lt y m"
    using m(3) trans[OF S(1,4,2)] trans[OF S(1,4,3)] asym[of y x] asym[of x x] asym[of y y] by (auto split: if_splits)
  then show ?case using m by (auto split: if_splits)
qed

lemma max_element_min: "max_element lt xs = min_element (\<lambda>a b. lt b a) xs"
  by (cases xs) simp_all

lemma binary_bounds_around:
  assumes asym: "\<And>a b. lt a b \<Longrightarrow> \<not> lt b a"
    and trans: "\<And>a b c. a \<in> S \<Longrightarrow> b \<in> S \<Longrightarrow> c \<in> S \<Longrightarrow> \<not> lt b a \<Longrightarrow> \<not> lt c b \<Longrightarrow> \<not> lt c a"
    and S: "set cs \<subseteq> S" "v \<in> S" and near: "\<exists>c \<in> set cs. \<not> lt v c" "\<exists>c \<in> set cs. \<not> lt c v"
  shows "\<exists>lo hi. binary_bounds lt cs = Inr (lo, hi) \<and> \<not> lt v lo \<and> \<not> lt hi v"
proof -
  obtain x xs where cs: "cs = x # xs" using near by (cases cs) auto
  obtain lo where lo: "lo \<in> set cs" "min_element lt cs = Inr lo" "\<forall>z \<in> set cs. \<not> lt z lo"
    using min_element_least[of lt S x xs] asym trans S(1) cs by blast
  have "\<exists>m \<in> set (x # xs). min_element (\<lambda>a b. lt b a) (x # xs) = Inr m \<and> (\<forall>z \<in> set (x # xs). \<not> lt m z)"
    by (rule min_element_least[where S = S]) (use asym trans S(1) cs in blast)+
  then obtain hi where hi: "hi \<in> set cs" "max_element lt cs = Inr hi" "\<forall>z \<in> set cs. \<not> lt hi z"
    unfolding max_element_min cs by blast
  obtain c d where "c \<in> set cs" "\<not> lt v c" "d \<in> set cs" "\<not> lt d v" using near by blast
  then have "\<not> lt v lo" "\<not> lt hi v" using lo hi trans[of lo c v] trans[of v d hi] S by blast+
  then show ?thesis using lo hi by (simp add: binary_bounds_def)
qed

section \<open>The corners bound a product\<close>

lemma product_corners:
  fixes a b :: real
  assumes "l1 \<le> a" "a \<le> u1" "l2 \<le> b" "b \<le> u2"
  shows "a * b \<le> l1 * l2 \<or> a * b \<le> l1 * u2 \<or> a * b \<le> u1 * l2 \<or> a * b \<le> u1 * u2"
    and "l1 * l2 \<le> a * b \<or> l1 * u2 \<le> a * b \<or> u1 * l2 \<le> a * b \<or> u1 * u2 \<le> a * b"
proof -
  have up: "x * y \<le> l * y \<or> x * y \<le> u * y" "l * y \<le> x * y \<or> u * y \<le> x * y" if "l \<le> x" "x \<le> u" for x y l u :: real
    using that by (cases "0 \<le> y"; simp add: mult_right_mono mult_right_mono_neg)+
  have up2: "y * x \<le> y * l \<or> y * x \<le> y * u" "y * l \<le> y * x \<or> y * u \<le> y * x" if "l \<le> x" "x \<le> u" for x y l u :: real
    using up[OF that, of y] by (simp_all add: mult.commute)
  show "a * b \<le> l1 * l2 \<or> a * b \<le> l1 * u2 \<or> a * b \<le> u1 * l2 \<or> a * b \<le> u1 * u2"
    using up(1)[OF assms(1,2), of b] up2(1)[OF assms(3,4)] by (meson order_trans)
  show "l1 * l2 \<le> a * b \<or> l1 * u2 \<le> a * b \<or> u1 * l2 \<le> a * b \<or> u1 * u2 \<le> a * b"
    using up(2)[OF assms(1,2), of b] up2(2)[OF assms(3,4)] by (meson order_trans)
qed

lemma product_bounds_sound:
  assumes "lower_bound b1 \<le> x" "x \<le> upper_bound b1" "lower_bound b2 \<le> y" "y \<le> upper_bound b2"
  shows "\<exists>lo hi. product_bounds b1 b2 = Inr (lo, hi) \<and> lo \<le> x * y \<and> x * y \<le> hi"
proof -
  have "\<exists>lo hi. binary_bounds (<) (product_candidates b1 b2) = Inr (lo, hi) \<and> \<not> x * y < lo \<and> \<not> hi < x * y"
    by (rule binary_bounds_around[where S = UNIV])
      (use product_corners[OF assms] in \<open>auto simp: product_candidates_def not_less\<close>)
  then show ?thesis by (auto simp: product_bounds_def not_less)
qed

section \<open>The corners bound a quotient\<close>

lemma xless_asym: "xless a b \<Longrightarrow> \<not> xless b a"
  by (cases a; cases b) auto

lemma xless_trans:
  "a \<noteq> NaN \<Longrightarrow> b \<noteq> NaN \<Longrightarrow> c \<noteq> NaN \<Longrightarrow> \<not> xless b a \<Longrightarrow> \<not> xless c b \<Longrightarrow> \<not> xless c a"
  by (cases a; cases b; cases c) auto

definition corner :: "real \<Rightarrow> real \<Rightarrow> xdouble list" where
  "corner a b = (if b = 0 then (if a = 0 then [] else [signed_inf a]) else [Finite (a / b)])"

lemma quotient_candidates_finite:
  "quotient_candidates (Finite l1, Finite u1) (Finite l2, Finite u2) =
     Inr (corner l1 l2 @ corner l1 u2 @ corner u1 l2 @ corner u1 u2
       @ (if \<not> (l1 = 0 \<and> u1 = 0) \<and> l2 < 0 \<and> 0 < u2 then [PlusInf, MinusInf] else []))"
  by (simp add: quotient_candidates_def safe_div_def isinf_def corner_def signed_inf_def Let_def)

lemma quotient_same_sign:
  fixes a b :: real
  assumes "l1 \<le> a" "a \<le> u1" "l2 \<le> b" "b \<le> u2" "0 < l2 \<or> u2 < 0"
  shows "a / b \<le> l1 / u2 \<or> a / b \<le> l1 / l2 \<or> a / b \<le> u1 / u2 \<or> a / b \<le> u1 / l2"
    and "l1 / u2 \<le> a / b \<or> l1 / l2 \<le> a / b \<or> u1 / u2 \<le> a / b \<or> u1 / l2 \<le> a / b"
proof -
  have "1 / u2 \<le> 1 / b" "1 / b \<le> 1 / l2" using assms by (auto simp: field_simps)
  from product_corners[OF assms(1,2) this]
  show "a / b \<le> l1 / u2 \<or> a / b \<le> l1 / l2 \<or> a / b \<le> u1 / u2 \<or> a / b \<le> u1 / l2"
    and "l1 / u2 \<le> a / b \<or> l1 / l2 \<le> a / b \<or> u1 / u2 \<le> a / b \<or> u1 / l2 \<le> a / b" by simp_all
qed

lemma quotient_from_zero:
  fixes a b :: real
  assumes "l1 \<le> a" "a \<le> u1" "0 < b" "b \<le> u2"
  shows "u1 \<le> 0 \<Longrightarrow> a / b \<le> u1 / u2" "0 \<le> l1 \<Longrightarrow> l1 / u2 \<le> a / b"
proof -
  assume "u1 \<le> 0"
  then have "a / b \<le> a / u2" using assms by (intro divide_left_mono_neg) auto
  also have "\<dots> \<le> u1 / u2" using assms by (intro divide_right_mono) auto
  finally show "a / b \<le> u1 / u2" .
next
  assume "0 \<le> l1"
  have "l1 / u2 \<le> a / u2" using assms by (intro divide_right_mono) auto
  also have "\<dots> \<le> a / b" using assms \<open>0 \<le> l1\<close> by (intro divide_left_mono) auto
  finally show "l1 / u2 \<le> a / b" .
qed

lemma quotient_near:
  fixes x y :: real
  assumes "l1 \<le> x" "x \<le> u1" "l2 \<le> y" "y \<le> u2" "y \<noteq> 0" "\<not> (l2 < 0 \<and> u2 = 0)"
    and cs: "cs = corner l1 l2 @ corner l1 u2 @ corner u1 l2 @ corner u1 u2
       @ (if \<not> (l1 = 0 \<and> u1 = 0) \<and> l2 < 0 \<and> 0 < u2 then [PlusInf, MinusInf] else [])"
  shows "(\<exists>c \<in> set cs. \<not> xless (Finite (x / y)) c) \<and> (\<exists>c \<in> set cs. \<not> xless c (Finite (x / y)))"
proof -
  consider "0 < l2 \<or> u2 < 0" | "l2 = 0" "0 < y" "0 < u2" | "l2 < 0" "0 < u2" using assms(3-6) by linarith
  then show ?thesis
  proof cases
    case 1
    then have "l2 \<noteq> 0" "u2 \<noteq> 0" using assms(3,4) by auto
    then show ?thesis using quotient_same_sign[OF assms(1-4) 1] by (auto simp: cs corner_def not_less)
  next
    case 2
    show ?thesis
      using 2 quotient_from_zero[OF assms(1,2) 2(2) assms(4)] by (cases "0 < u1"; cases "l1 < 0") (auto simp: cs corner_def signed_inf_def not_less)
  next
    case 3
    then show ?thesis using assms(1,2) by (cases "l1 = 0 \<and> u1 = 0") (auto simp: cs corner_def)
  qed
qed

lemma corner_not_NaN: "NaN \<notin> set (corner a b)"
  by (auto simp: corner_def signed_inf_def)

section \<open>Properties\<close>



text \<open>C33: When the interval of the denominator ends at zero from below, the bounds of a quotient are
  wrong: division by the end point zero counts as plus infinity times the numerator, although the denominators of
  the interval are negative, so a numerator between non-negative bounds gets a finite lower bound,
  and the quotient of the upper end by any denominator strictly inside the interval lies below it.
  If both intervals are the single point zero, no candidate remains and the least
  element of an empty vector is read.\<close>
theorem quotient_bounds_negative_side:
  assumes "0 \<le> n1" "n1 \<le> n2" "0 < n2" "d < y" "y < 0"
  shows "(\<exists>lo hi q. quotient_bounds (Finite n1, Finite n2) (Finite d, Finite 0) = Inr (lo, hi)
      \<and> safe_div (Finite n2) (Finite y) = Inr q \<and> xless q lo)
    \<and> quotient_bounds (Finite 0, Finite 0) (Finite 0, Finite 0) = Inl Undefined_behaviour"
proof -
  have "n2 / y < n2 / d" using assms by (simp add: divide_strict_left_mono_neg mult_neg_neg divide_strict_left_mono)
  moreover have "n2 / d \<le> n1 / d" using assms by (simp add: divide_right_mono_neg)
  ultimately show ?thesis using assms
    by (auto simp: quotient_bounds_def quotient_candidates_finite corner_def signed_inf_def binary_bounds_def
        safe_div_def isinf_def)
qed

theorem quotient_bounds_negative_side_witness:
  "(\<exists>lo hi q. quotient_bounds (Finite 0, Finite 3) (Finite (- 5), Finite 0) = Inr (lo, hi)
      \<and> safe_div (Finite 3) (Finite (- 1)) = Inr q \<and> xless q lo)
    \<and> quotient_bounds (Finite 0, Finite 0) (Finite 0, Finite 0) = Inl Undefined_behaviour"
  using quotient_bounds_negative_side[of 0 3 "- 5" "- 1"] by simp

end
