(* ===== verification/Threshold_Sum.thy ===== *)
theory Threshold_Sum
  imports Expression_Base Avl_Map "HOL-Library.Product_Lexorder" "HOL-Library.Option_ord"
begin

text \<open>
  The sum of the excesses over a threshold
  (\<open>solver/expressions/SumOverThreshold.cpp\<close>): the values are kept in an
  \<open>AssociativeMap\<close> ordered by value and expression, whose nodes aggregate the
  sum, the sum of squares and the count, so that the excess over any threshold
  is one range query. The null pointer in the key of that query is \<open>None\<close>.
\<close>

section \<open>Definitions\<close>

record ThresholdNode =
  node_sum :: real
  node_sum_squares :: real
  node_count :: int

definition node_add :: "ThresholdNode \<Rightarrow> ThresholdNode \<Rightarrow> ThresholdNode" where
  "node_add n1 n2 = \<lparr>node_sum = node_sum n1 + node_sum n2,
     node_sum_squares = node_sum_squares n1 + node_sum_squares n2, node_count = node_count n1 + node_count n2\<rparr>"

definition node_zero :: ThresholdNode where
  "node_zero = \<lparr>node_sum = 0, node_sum_squares = 0, node_count = 0\<rparr>"

definition node_of :: "real \<Rightarrow> ThresholdNode" where
  "node_of x = \<lparr>node_sum = x, node_sum_squares = x * x, node_count = 1\<rparr>"

record SumOverThreshold =
  thr_values :: "ExprId \<rightharpoonup> real"
  squares :: bool
  thr_collection :: "(real \<times> ExprId option, ThresholdNode) AvlNode"
  threshold_expr :: ExprId

definition evaluateCollection :: "real \<Rightarrow> SumOverThreshold \<Rightarrow> real" where
  "evaluateCollection threshold s =
    (let everything = avl_query node_zero (thr_collection s);
         lower = avl_query_le node_add node_zero (thr_collection s) (threshold, None);
         upper_sum = node_sum everything - node_sum lower;
         upper_sum_squares = node_sum_squares everything - node_sum_squares lower;
         upper_count = node_count everything - node_count lower
     in if squares s
        then upper_sum_squares + threshold * threshold * of_int upper_count - 2 * threshold * upper_sum
        else upper_sum - threshold * of_int upper_count)"

definition evaluateSingle :: "bool \<Rightarrow> real \<Rightarrow> real \<Rightarrow> real" where
  "evaluateSingle sq v threshold = (let res = max 0 (v - threshold) in if sq then res * res else res)"

definition populate_child :: "(ExprId \<Rightarrow> real) \<Rightarrow> ExprId \<Rightarrow> SumOverThreshold \<times> real \<Rightarrow> SumOverThreshold \<times> real" where
  "populate_child valueFn c = (\<lambda>(s, threshold).
     let val = valueFn c in
     if threshold_expr s = c then (s, val)
     else (s\<lparr>thr_values := (thr_values s)(c \<mapsto> val),
             thr_collection := avl_update node_add (val, Some c) (node_of val) (thr_collection s)\<rparr>, threshold))"

definition populateAndEvaluate :: "PrecisionTolerances \<Rightarrow> (ExprId \<Rightarrow> real) \<Rightarrow> ExprId list \<Rightarrow> SumOverThreshold \<Rightarrow> SumOverThreshold \<times> real" where
  "populateAndEvaluate t valueFn cs s =
    (let (s', threshold) = fold (populate_child valueFn) cs
           (s\<lparr>thr_values := Map.empty, thr_collection := avl_clear (thr_collection s)\<rparr>, 0)
     in (s', snapToZero t (evaluateCollection threshold s')))"

definition mkSumOverThreshold :: "PrecisionTolerances \<Rightarrow> (ExprId \<Rightarrow> real) \<Rightarrow> ExprId \<Rightarrow> ExprId list \<Rightarrow> bool \<Rightarrow> SumOverThreshold Expression" where
  "mkSumOverThreshold t init threshold vals square =
    (let e = fold add_child vals (add_child threshold (newExpression
               \<lparr>thr_values = Map.empty, squares = square, thr_collection = Leaf, threshold_expr = threshold\<rparr>));
         (s, v) = populateAndEvaluate t init (children e) (kind e)
     in setInitialValue v (e\<lparr>kind := s\<rparr>))"

definition thr_evaluate :: "PrecisionTolerances \<Rightarrow> (ExprId \<Rightarrow> real) \<Rightarrow> (ExprId \<Rightarrow> real) \<Rightarrow> ExprId list \<Rightarrow> real \<Rightarrow> SumOverThreshold \<Rightarrow> real result" where
  "thr_evaluate t cur eval changedChildren val s =
    (let threshold = (if threshold_expr s \<in> set changedChildren then eval (threshold_expr s) else cur (threshold_expr s));
         new_values = filter (\<lambda>c. c \<noteq> threshold_expr s) changedChildren;
         threshold_changed = (threshold \<noteq> cur (threshold_expr s));
         start = (if threshold_changed then evaluateCollection threshold s else val)
     in bindE (foldE (\<lambda>c res. case thr_values s c of
                  None \<Rightarrow> Inl Out_of_range
                | Some old_value \<Rightarrow> Inr (res - evaluateSingle (squares s) old_value threshold
                    + evaluateSingle (squares s) (eval c) threshold)) new_values start)
          (\<lambda>res. Inr (snapToZero t res)))"

definition thr_fullApply :: "PrecisionTolerances \<Rightarrow> (ExprId \<Rightarrow> real) \<Rightarrow> ExprId list \<Rightarrow> SumOverThreshold \<Rightarrow> SumOverThreshold \<times> real" where
  "thr_fullApply t apply cs s = populateAndEvaluate t apply cs s"

definition update_value :: "(ExprId \<Rightarrow> real) \<Rightarrow> ExprId \<Rightarrow> SumOverThreshold \<times> real \<Rightarrow> SumOverThreshold \<times> real" where
  "update_value apply c = (\<lambda>(s, threshold).
     let new_value = apply c in
     if threshold_expr s = c then (s, new_value)
     else let old_value = (case thr_values s c of None \<Rightarrow> 0 | Some x \<Rightarrow> x) in
       if old_value \<noteq> new_value
       then (s\<lparr>thr_collection := avl_update node_add (new_value, Some c) (node_of new_value)
                 (avl_remove node_add (thr_collection s) (old_value, Some c)),
               thr_values := (thr_values s)(c \<mapsto> new_value)\<rparr>, threshold)
       else (s\<lparr>thr_values := (thr_values s)(c \<mapsto> old_value)\<rparr>, threshold))"

definition thr_partialApply :: "PrecisionTolerances \<Rightarrow> (ExprId \<Rightarrow> real) \<Rightarrow> (ExprId \<Rightarrow> real) \<Rightarrow> ExprId list \<Rightarrow> SumOverThreshold \<Rightarrow> SumOverThreshold \<times> real" where
  "thr_partialApply t cur apply changedChildren s =
    (let (s', threshold) = fold (update_value apply) changedChildren (s, cur (threshold_expr s))
     in (s', snapToZero t (evaluateCollection threshold s')))"

definition thr_bound_child :: "(ExprId \<Rightarrow> Bounds) \<Rightarrow> SumOverThreshold \<Rightarrow> ExprId \<Rightarrow> real \<times> real \<Rightarrow> real \<times> real" where
  "thr_bound_child b s c = (\<lambda>(lb, ub).
     if c = threshold_expr s then (lb, ub)
     else (lb + evaluateSingle (squares s) (lower_bound (b c)) (upper_bound (b (threshold_expr s))),
           ub + evaluateSingle (squares s) (upper_bound (b c)) (lower_bound (b (threshold_expr s)))))"

definition thr_bounds :: "PrecisionTolerances \<Rightarrow> (ExprId \<Rightarrow> Bounds) \<Rightarrow> ExprId list \<Rightarrow> SumOverThreshold \<Rightarrow> Bounds" where
  "thr_bounds t b cs s =
    (let (lb, ub) = fold (thr_bound_child b s) cs (0, 0)
     in \<lparr>lower_bound = snapToZero t lb, upper_bound = snapToZero t ub\<rparr>)"

definition thr_getChildCoefficient :: "SumOverThreshold \<Rightarrow> ExprId \<Rightarrow> real" where
  "thr_getChildCoefficient s c = (if c = threshold_expr s then - 1 else 1)"

section \<open>Nodes aggregate\<close>

interpretation threshold_nodes: comm_aggregate node_add node_zero
  by unfold_locales (simp_all add: node_add_def node_zero_def)

lemma agg_nodes:
  "agg node_add node_zero es = \<lparr>node_sum = sum_list (map (\<lambda>e. node_sum (snd e)) es),
     node_sum_squares = sum_list (map (\<lambda>e. node_sum_squares (snd e)) es),
     node_count = sum_list (map (\<lambda>e. node_count (snd e)) es)\<rparr>"
  by (induction es) (simp_all add: node_add_def node_zero_def)

text \<open>The collection holds one entry for every child but the threshold.\<close>

definition thr_entry :: "(ExprId \<Rightarrow> real) \<Rightarrow> ExprId \<Rightarrow> (real \<times> ExprId option) \<times> ThresholdNode" where
  "thr_entry v c = ((v c, Some c), node_of (v c))"

definition thr_ok :: "SumOverThreshold \<Rightarrow> ExprId set \<Rightarrow> (ExprId \<Rightarrow> real) \<Rightarrow> bool" where
  "thr_ok s V v \<longleftrightarrow> avl_inv node_add (thr_collection s) \<and> set (entries (thr_collection s)) = thr_entry v ` V
     \<and> (\<forall>c. thr_values s c = (if c \<in> V then Some (v c) else None))"

definition excess :: "bool \<Rightarrow> ExprId set \<Rightarrow> real \<Rightarrow> (ExprId \<Rightarrow> real) \<Rightarrow> real" where
  "excess sq V threshold v = (\<Sum>c \<in> V. evaluateSingle sq (v c) threshold)"

lemma thr_entry_inj: "inj_on (thr_entry v) V"
  by (auto simp: inj_on_def thr_entry_def)

lemma thr_sum:
  assumes "distinct (map fst es)" "set es = thr_entry v ` V" "finite V"
  shows "sum_list (map f (filter P es)) = (\<Sum>c \<in> {c \<in> V. P (thr_entry v c)}. f (thr_entry v c))"
proof -
  have "distinct (filter P es)" using assms(1) by (simp add: distinct_map)
  then have "sum_list (map f (filter P es)) = sum f (set (filter P es))" by (rule sum_list_distinct_conv_sum_set)
  also have "set (filter P es) = thr_entry v ` {c \<in> V. P (thr_entry v c)}" using assms(2) by auto
  also have "sum f \<dots> = (\<Sum>c \<in> {c \<in> V. P (thr_entry v c)}. f (thr_entry v c))"
    by (subst sum.reindex[OF thr_entry_inj]) simp
  finally show ?thesis .
qed

lemma split_below:
  fixes f :: "ExprId \<Rightarrow> 'a::ab_group_add"
  assumes "finite V"
  shows "sum f V - sum f {c \<in> V. v c < (x::real)} = sum f {c \<in> V. x \<le> v c}"
proof -
  have "V = {c \<in> V. v c < x} \<union> {c \<in> V. x \<le> v c}" by auto
  then have "sum f V = sum f {c \<in> V. v c < x} + sum f {c \<in> V. x \<le> v c}"
    using sum.union_disjoint[of "{c \<in> V. v c < x}" "{c \<in> V. x \<le> v c}" f] assms by force
  then show ?thesis by simp
qed

lemma evaluateCollection_excess:
  assumes "thr_ok s V v" "finite V"
  shows "evaluateCollection threshold s = excess (squares s) V threshold v"
proof -
  let ?es = "entries (thr_collection s)" and ?U = "{c \<in> V. threshold \<le> v c}"
  have inv: "results_ok node_add (thr_collection s)" "keys_sorted ?es" "distinct (map fst ?es)"
      "set ?es = thr_entry v ` V" "avl_inv node_add (thr_collection s)"
    using assms(1) by (auto simp: thr_ok_def avl_inv_def keys_sorted_distinct)
  have le: "fst (thr_entry v c) \<le> (threshold, None) \<longleftrightarrow> v c < threshold" for c by (auto simp: thr_entry_def less_eq_prod_def)
  have everything: "avl_query node_zero (thr_collection s) = agg node_add node_zero (filter (\<lambda>e. True) ?es)"
    using threshold_nodes.avl_query_agg[OF inv(1)] by simp
  have lower: "avl_query_le node_add node_zero (thr_collection s) (threshold, None)
      = agg node_add node_zero (filter (\<lambda>e. fst e \<le> (threshold, None)) ?es)"
    using threshold_nodes.avl_less_than_agg[OF inv(1,2), of "(threshold, None)" False] by (auto simp: avl_query_le_def)
  note sums = thr_sum[OF inv(3,4) assms(2)]
  have up: "evaluateCollection threshold s =
      (if squares s then sum (\<lambda>c. v c * v c) ?U + threshold * threshold * real (card ?U) - 2 * threshold * sum v ?U
       else sum v ?U - threshold * real (card ?U))"
    unfolding evaluateCollection_def everything lower agg_nodes Let_def sums le
    using split_below[OF assms(2), of v v threshold] split_below[OF assms(2), of "\<lambda>c. v c * v c" v threshold]
      split_below[OF assms(2), of "\<lambda>c. 1 :: int" v threshold] by (simp add: thr_entry_def node_of_def)
  have "excess (squares s) V threshold v = (\<Sum>c \<in> ?U. evaluateSingle (squares s) (v c) threshold)"
    unfolding excess_def by (rule sum.mono_neutral_right[OF assms(2)]) (auto simp: evaluateSingle_def Let_def)
  also have "\<dots> = (\<Sum>c \<in> ?U. if squares s then (v c - threshold) * (v c - threshold) else v c - threshold)"
    by (rule sum.cong) (auto simp: evaluateSingle_def Let_def)
  also have "\<dots> = evaluateCollection threshold s" unfolding up
    by (auto simp: sum_subtractf algebra_simps sum.distrib sum_distrib_left)
  finally show ?thesis by simp
qed

section \<open>Application\<close>

lemma set_al_put: "keys_sorted es \<Longrightarrow> set (al_put k x es) = insert (k, x) {e \<in> set es. fst e \<noteq> k}"
  by (induction es) auto

lemma thr_put:
  assumes "thr_ok s V v" "c \<notin> V"
  shows "thr_ok (s\<lparr>thr_values := (thr_values s)(c \<mapsto> x),
      thr_collection := avl_update node_add (x, Some c) (node_of x) (thr_collection s)\<rparr>) (insert c V) (v(c := x))"
proof -
  have inv: "avl_inv node_add (thr_collection s)" "keys_sorted (entries (thr_collection s))"
      "set (entries (thr_collection s)) = thr_entry v ` V"
    using assms(1) by (auto simp: thr_ok_def avl_inv_def)
  have "thr_entry (v(c := x)) ` V = thr_entry v ` V" using assms(2) by (intro image_cong) (auto simp: thr_entry_def)
  moreover have "{e \<in> thr_entry v ` V. fst e \<noteq> (x, Some c)} = thr_entry v ` V" using assms(2) by (auto simp: thr_entry_def)
  ultimately show ?thesis
    using assms avl_update_inv[OF inv(1), of "(x, Some c)" "node_of x"] set_al_put[OF inv(2)] inv(3)
    by (auto simp: thr_ok_def) (auto simp: thr_entry_def)
qed

lemma thr_take:
  assumes "thr_ok s V v" "c \<in> V"
  shows "thr_ok (s\<lparr>thr_collection := avl_remove node_add (thr_collection s) (v c, Some c), thr_values := (thr_values s)(c := None)\<rparr>)
      (V - {c}) v"
proof -
  have inv: "avl_inv node_add (thr_collection s)" "set (entries (thr_collection s)) = thr_entry v ` V"
    using assms(1) by (auto simp: thr_ok_def)
  have "fst (thr_entry v d) \<noteq> (v c, Some c) \<longleftrightarrow> d \<noteq> c" for d by (auto simp: thr_entry_def)
  then have "{e \<in> thr_entry v ` V. fst e \<noteq> (v c, Some c)} = thr_entry v ` (V - {c})" by blast
  then have "set (entries (avl_remove node_add (thr_collection s) (v c, Some c))) = thr_entry v ` (V - {c})"
    unfolding avl_remove_inv(2)[OF inv(1)] al_remove_def set_filter inv(2) .
  then show ?thesis using assms(1) avl_remove_inv(1)[OF inv(1)] by (simp add: thr_ok_def)
qed

lemma thr_ok_cong: "thr_ok s V v \<Longrightarrow> (\<And>c. c \<in> V \<Longrightarrow> v c = w c) \<Longrightarrow> thr_ok s V w"
  unfolding thr_ok_def by (metis (no_types, lifting) image_cong thr_entry_def)

lemma populate_fold:
  assumes "thr_ok s V f" "threshold_expr s = te" "te \<notin> V" "distinct cs" "set cs \<inter> V = {}"
  shows "\<exists>s'. fold (populate_child f) cs (s, x) = (s', if te \<in> set cs then f te else x)
    \<and> thr_ok s' (V \<union> (set cs - {te})) f \<and> threshold_expr s' = te \<and> squares s' = squares s"
  using assms
proof (induction cs arbitrary: s V x)
  case (Cons c cs)
  show ?case
  proof (cases "c = te")
    case True
    then show ?thesis using Cons.IH[OF Cons.prems(1,2,3), of "f te"] Cons.prems by (auto simp: populate_child_def)
  next
    case False
    let ?s = "s\<lparr>thr_values := (thr_values s)(c \<mapsto> f c),
      thr_collection := avl_update node_add (f c, Some c) (node_of (f c)) (thr_collection s)\<rparr>"
    have step: "populate_child f c (s, x) = (?s, x)" using False Cons.prems(2) by (simp add: populate_child_def Let_def)
    have "thr_ok ?s (insert c V) (f(c := f c))" by (rule thr_put[OF Cons.prems(1)]) (use Cons.prems(5) in auto)
    then have "thr_ok ?s (insert c V) f" by simp
    moreover have "insert c V \<union> (set cs - {te}) = V \<union> (set (c # cs) - {te})" using False by auto
    ultimately show ?thesis using Cons.IH[of ?s "insert c V" x] Cons.prems False step by auto
  qed
qed auto

lemma thr_fullApply_ok:
  assumes "distinct cs" "threshold_expr s \<in> set cs"
  shows "\<exists>s'. thr_fullApply t v cs s = (s', snapToZero t (excess (squares s) (set cs - {threshold_expr s}) (v (threshold_expr s)) v))
    \<and> thr_ok s' (set cs - {threshold_expr s}) v \<and> threshold_expr s' = threshold_expr s \<and> squares s' = squares s"
proof -
  let ?start = "s\<lparr>thr_values := Map.empty, thr_collection := Leaf\<rparr>"
  have "thr_ok ?start {} v" by (simp add: thr_ok_def avl_inv_Leaf)
  from populate_fold[OF this refl _ assms(1), of 0] assms(2) obtain s' where
    "fold (populate_child v) cs (?start, 0) = (s', v (threshold_expr s))" "thr_ok s' (set cs - {threshold_expr s}) v"
    "threshold_expr s' = threshold_expr s" "squares s' = squares s" by auto
  then show ?thesis using evaluateCollection_excess[of s' "set cs - {threshold_expr s}" v]
    by (simp add: thr_fullApply_def populateAndEvaluate_def avl_clear_def)
qed

lemma update_value_ok:
  assumes "thr_ok s V v" "threshold_expr s = te" "te \<notin> V" "c \<in> V"
  shows "\<exists>s'. update_value w c (s, x) = (s', x) \<and> thr_ok s' V (v(c := w c)) \<and> threshold_expr s' = te \<and> squares s' = squares s"
proof -
  have old: "thr_values s c = Some (v c)" using assms(1,4) by (simp add: thr_ok_def)
  have ne: "threshold_expr s \<noteq> c" using assms(2-4) by auto
  show ?thesis
  proof (cases "v c = w c")
    case True
    then have "v(c := w c) = v" by auto
    moreover have "s\<lparr>thr_values := (thr_values s)(c \<mapsto> v c)\<rparr> = s" using old by (simp add: fun_upd_idem)
    ultimately show ?thesis using assms(1,2) old ne True by (simp add: update_value_def)
  next
    case False
    let ?s = "s\<lparr>thr_collection := avl_remove node_add (thr_collection s) (v c, Some c), thr_values := (thr_values s)(c := None)\<rparr>"
    have "thr_ok (?s\<lparr>thr_values := (thr_values ?s)(c \<mapsto> w c),
        thr_collection := avl_update node_add (w c, Some c) (node_of (w c)) (thr_collection ?s)\<rparr>) (insert c (V - {c})) (v(c := w c))"
      by (rule thr_put[OF thr_take[OF assms(1,4)]]) simp
    moreover have "insert c (V - {c}) = V" using assms(4) by auto
    ultimately have "thr_ok (?s\<lparr>thr_values := (thr_values ?s)(c \<mapsto> w c),
        thr_collection := avl_update node_add (w c, Some c) (node_of (w c)) (thr_collection ?s)\<rparr>) V (v(c := w c))" by (simp only:)
    then show ?thesis using assms(2) old ne False by (simp add: update_value_def Let_def thr_ok_def)
  qed
qed

lemma update_value_fold:
  assumes "thr_ok s V v" "threshold_expr s = te" "te \<notin> V" "set D \<subseteq> insert te V"
  shows "\<exists>s'. fold (update_value w) D (s, x) = (s', if te \<in> set D then w te else x)
    \<and> thr_ok s' V (\<lambda>c. if c \<in> set D then w c else v c) \<and> threshold_expr s' = te \<and> squares s' = squares s"
  using assms
proof (induction D arbitrary: s v x)
  case (Cons c D)
  show ?case
  proof (cases "c = te")
    case True
    then have "update_value w c (s, x) = (s, w te)" using Cons.prems(2) by (simp add: update_value_def)
    moreover obtain s' where "fold (update_value w) D (s, w te) = (s', w te)" "threshold_expr s' = te" "squares s' = squares s"
        "thr_ok s' V (\<lambda>c. if c \<in> set D then w c else v c)"
      using Cons.IH[OF Cons.prems(1,2,3), of "w te"] Cons.prems(4) by auto
    moreover from this have "thr_ok s' V (\<lambda>d. if d \<in> set (c # D) then w d else v d)"
      by (elim thr_ok_cong) (use True Cons.prems(3) in auto)
    ultimately show ?thesis using True by simp
  next
    case False
    then obtain s1 where s1: "update_value w c (s, x) = (s1, x)" "thr_ok s1 V (v(c := w c))" "threshold_expr s1 = te" "squares s1 = squares s"
      using update_value_ok[OF Cons.prems(1-3), of c w x] Cons.prems(4) by auto
    have "(\<lambda>d. if d \<in> set D then w d else (v(c := w c)) d) = (\<lambda>d. if d \<in> set (c # D) then w d else v d)" by auto
    then show ?thesis using s1 Cons.IH[OF s1(2,3) Cons.prems(3), of x] Cons.prems(4) False by auto
  qed
qed (use assms in auto)

lemma thr_partialApply_ok:
  assumes "thr_ok s (set cs - {threshold_expr s}) v" "threshold_expr s \<in> set cs" "set D \<subseteq> set cs"
    and "\<forall>c \<in> set cs - set D. v c = w c" "cur (threshold_expr s) = w (threshold_expr s)"
  shows "\<exists>s'. thr_partialApply t cur w D s = (s', snapToZero t (excess (squares s) (set cs - {threshold_expr s}) (w (threshold_expr s)) w))
    \<and> thr_ok s' (set cs - {threshold_expr s}) w \<and> threshold_expr s' = threshold_expr s \<and> squares s' = squares s"
proof -
  let ?V = "set cs - {threshold_expr s}"
  have "set D \<subseteq> insert (threshold_expr s) ?V" using assms(2,3) by auto
  from update_value_fold[OF assms(1) refl _ this, of w "cur (threshold_expr s)"] obtain s' where
    s': "fold (update_value w) D (s, cur (threshold_expr s)) = (s', w (threshold_expr s))"
      "thr_ok s' ?V (\<lambda>c. if c \<in> set D then w c else v c)" "threshold_expr s' = threshold_expr s" "squares s' = squares s"
    using assms(5) by (auto split: if_splits)
  have ok: "thr_ok s' ?V w" by (rule thr_ok_cong[OF s'(2)]) (use assms(4) in auto)
  then show ?thesis using s' evaluateCollection_excess[OF ok] by (simp add: thr_partialApply_def)
qed

section \<open>Evaluation and bounds\<close>

lemma foldE_changes:
  assumes "\<And>c. c \<in> set D \<Longrightarrow> m c = Some (cur c)"
  shows "foldE (\<lambda>c res. case m c of None \<Rightarrow> Inl Out_of_range | Some old \<Rightarrow> Inr (res - f old + f (eval c))) D (a :: real)
    = Inr (a + (sum_list (map (\<lambda>c. f (eval c) - f (cur c)) D)))"
  using assms by (induction D arbitrary: a) (auto simp: algebra_simps)

lemma excess_changes:
  assumes "distinct D" "set D \<subseteq> V" "finite V" "\<forall>c \<in> V - set D. eval c = cur c"
  shows "excess sq V x cur + sum_list (map (\<lambda>c. evaluateSingle sq (eval c) x - evaluateSingle sq (cur c) x) D) = excess sq V x eval"
proof -
  let ?d = "\<lambda>c. evaluateSingle sq (eval c) x - evaluateSingle sq (cur c) x"
  have "sum_list (map ?d D) = sum ?d (set D)" by (rule sum_list_distinct_conv_sum_set[OF assms(1)])
  also have "\<dots> = sum ?d V" by (rule sum.mono_neutral_left[OF assms(3,2)]) (use assms(4) in auto)
  finally show ?thesis by (simp add: excess_def sum_subtractf)
qed

lemma thr_evaluate_ok:
  assumes "thr_ok s V cur" "V = set cs - {te}" "te = threshold_expr s" "distinct D" "set D \<subseteq> set cs"
    and "\<forall>c \<in> set cs - set D. eval c = cur c" "te \<in> set cs" "val = snapToZero t (excess (squares s) V (cur te) cur)"
    and "isZero t (excess (squares s) V (cur te) cur) \<longrightarrow> excess (squares s) V (cur te) cur = 0"
  shows "thr_evaluate t cur eval D val s = Inr (snapToZero t (excess (squares s) V (eval te) eval))"
proof -
  let ?nv = "filter (\<lambda>c. c \<noteq> te) D" and ?thr = "if te \<in> set D then eval te else cur te"
  have thr: "?thr = eval te" using assms(6,7) by auto
  have fin: "finite V" using assms(2) by simp
  have val: "val = excess (squares s) V (cur te) cur" using assms(8,9) by (auto simp: snapToZero_def)
  have start: "(if ?thr \<noteq> cur te then evaluateCollection ?thr s else val) = excess (squares s) V (eval te) cur"
    using evaluateCollection_excess[OF assms(1) fin] thr val by auto
  have "foldE (\<lambda>c res. case thr_values s c of None \<Rightarrow> Inl Out_of_range
        | Some old \<Rightarrow> Inr (res - evaluateSingle (squares s) old ?thr + evaluateSingle (squares s) (eval c) ?thr)) ?nv
        (excess (squares s) V (eval te) cur)
      = Inr (excess (squares s) V (eval te) cur
          + sum_list (map (\<lambda>c. evaluateSingle (squares s) (eval c) ?thr - evaluateSingle (squares s) (cur c) ?thr) ?nv))"
    by (rule foldE_changes) (use assms(1,2,5) in \<open>auto simp: thr_ok_def\<close>)
  also have "\<dots> = Inr (excess (squares s) V (eval te) eval)"
    unfolding thr by (subst excess_changes) (use assms(2-7) fin in auto)
  finally show ?thesis unfolding thr_evaluate_def Let_def assms(3)[symmetric] start by (simp only: bindE_Inr)
qed

lemma evaluateSingle_mono: "v \<le> w \<Longrightarrow> x \<le> y \<Longrightarrow> evaluateSingle sq v y \<le> evaluateSingle sq w x"
  by (auto simp: evaluateSingle_def Let_def intro!: mult_mono)

lemma thr_bounds_fold:
  assumes "distinct cs" "\<forall>c \<in> insert te (set cs). lower_bound (b c) \<le> v c \<and> v c \<le> upper_bound (b c)" "te = threshold_expr s"
  shows "fst (fold (thr_bound_child b s) cs (l, u)) \<le> l + excess (squares s) (set cs - {te}) (v te) v
    \<and> u + excess (squares s) (set cs - {te}) (v te) v \<le> snd (fold (thr_bound_child b s) cs (l, u))"
  using assms
proof (induction cs arbitrary: l u)
  case (Cons c cs)
  show ?case
  proof (cases "c = te")
    case True
    then show ?thesis using Cons.IH[of l u] Cons.prems by (simp add: thr_bound_child_def insert_Diff_if)
  next
    case False
    let ?l = "evaluateSingle (squares s) (lower_bound (b c)) (upper_bound (b te))"
    let ?u = "evaluateSingle (squares s) (upper_bound (b c)) (lower_bound (b te))"
    have "excess (squares s) (set (c # cs) - {te}) (v te) v
        = evaluateSingle (squares s) (v c) (v te) + excess (squares s) (set cs - {te}) (v te) v"
      using False Cons.prems(1) by (simp add: excess_def insert_Diff_if)
    moreover have "?l \<le> evaluateSingle (squares s) (v c) (v te)" "evaluateSingle (squares s) (v c) (v te) \<le> ?u"
      using Cons.prems(2) by (intro evaluateSingle_mono; simp)+
    moreover have "fst (fold (thr_bound_child b s) cs (l + ?l, u + ?u)) \<le> (l + ?l) + excess (squares s) (set cs - {te}) (v te) v
        \<and> (u + ?u) + excess (squares s) (set cs - {te}) (v te) v \<le> snd (fold (thr_bound_child b s) cs (l + ?l, u + ?u))"
      using Cons.IH[of "l + ?l" "u + ?u"] Cons.prems by simp
    moreover have "thr_bound_child b s c (l, u) = (l + ?l, u + ?u)" using False Cons.prems(3) by (simp add: thr_bound_child_def)
    ultimately show ?thesis by simp
  qed
qed (simp add: excess_def)

lemma thr_bounds_sound:
  assumes "0 < absolute t" "distinct cs" "threshold_expr s \<in> set cs"
    and "\<And>c. c \<in> set cs \<Longrightarrow> lower_bound (b c) \<le> v c \<and> v c \<le> upper_bound (b c)"
  shows "lower_bound (thr_bounds t b cs s) \<le> snapToZero t (excess (squares s) (set cs - {threshold_expr s}) (v (threshold_expr s)) v)"
    "snapToZero t (excess (squares s) (set cs - {threshold_expr s}) (v (threshold_expr s)) v) \<le> upper_bound (thr_bounds t b cs s)"
  using thr_bounds_fold[of cs "threshold_expr s" b v s 0 0] assms snapToZero_mono[OF assms(1)]
  by (auto simp: thr_bounds_def case_prod_beta Let_def insert_absorb)

section \<open>Properties\<close>


definition thr_sample :: SumOverThreshold where
  "thr_sample = \<lparr>thr_values = Map.empty, squares = False, thr_collection = Leaf, threshold_expr = 0\<rparr>"

definition thr_sample_cur :: "ExprId \<Rightarrow> real" where
  "thr_sample_cur c = (if c = 0 then 2 else if c = 1 then 5 else 1)"

definition thr_sample_new :: "ExprId \<Rightarrow> real" where
  "thr_sample_new c = (if c = 0 then 3 else if c = 1 then 5 else 4)"


end
