(* ===== verification/Graph_Order.thy ===== *)
theory Graph_Order
  imports Expression_Base Change_Sets
begin

text \<open>
  The order in which the orchestrator visits the expression graph
  (\<open>solver/expressions/Orchestrator.cpp\<close>): the post-order traversal from every
  root with the priorities and the fixed nodes it finds, and the parents of
  every node. The recursion has fuel for its depth; a deeper recursion, which
  overflows the stack, is undefined behaviour.
\<close>

section \<open>Definitions\<close>

record LeafStore =
  leaves :: "ExprId list"
  filters :: "(Change \<Rightarrow> bool) option list"

type_synonym LeafId = nat

record Orchestrator =
  leafStore :: LeafStore
  containerToLeaves :: "(ContainerId \<times> LeafId list) list list"
  objectToLeaves :: "(ObjectId \<times> LeafId list) list list"
  containerObjectToLeaves :: "(ContainerId \<times> (ObjectId \<times> LeafId list) list) list list"
  toCheckLeaves :: "LeafId list list"
  nodeToParents :: "(ExprId \<times> ExprId list) list"
  nodeToPriority :: "ExprId \<rightharpoonup> PriorityInfo"
  roots :: "ExprId list"
  postOrder :: "ExprId list"
  nFixedNodes :: nat

definition newOrchestrator :: Orchestrator where
  "newOrchestrator = \<lparr>leafStore = \<lparr>leaves = [], filters = []\<rparr>, containerToLeaves = [], objectToLeaves = [],
     containerObjectToLeaves = [], toCheckLeaves = [], nodeToParents = [], nodeToPriority = Map.empty,
     roots = [], postOrder = [], nFixedNodes = 0\<rparr>"

definition priority :: "Orchestrator \<Rightarrow> ExprId \<Rightarrow> PriorityInfo result" where
  "priority orch x = (case nodeToPriority orch x of None \<Rightarrow> Inl Out_of_range | Some p \<Rightarrow> Inr p)"

record 'k Traversal =
  visited :: "ExprId set"
  trHeap :: "'k heap"
  trOrch :: Orchestrator

definition visit_child :: "(ExprId \<Rightarrow> 'k Traversal \<Rightarrow> 'k Traversal result) \<Rightarrow> ExprId \<Rightarrow> 'k Traversal \<times> bool \<times> nat \<Rightarrow> ('k Traversal \<times> bool \<times> nat) result" where
  "visit_child recurse child = (\<lambda>(st, isFixedExpr, maxChildHeight).
     bindE (recurse child st) (\<lambda>st'.
     bindE (priority (trOrch st') child) (\<lambda>p.
       Inr (st', isFixedExpr \<and> isFixed (trHeap st' child), max maxChildHeight (height p)))))"

definition finish_node :: "ContainerId set \<Rightarrow> nat \<Rightarrow> ExprId \<Rightarrow> 'k Traversal \<times> bool \<times> nat \<Rightarrow> 'k Traversal" where
  "finish_node fixedContainers currRootIdx node = (\<lambda>(st, isFixedExpr, maxChildHeight).
     let st' = st\<lparr>trOrch := (trOrch st)\<lparr>postOrder := postOrder (trOrch st) @ [node],
           nodeToPriority := emplace node \<lparr>rootIdx = currRootIdx, height = maxChildHeight + 1\<rparr> (nodeToPriority (trOrch st))\<rparr>\<rparr>
     in if \<not> isFixedExpr then st'
        else let allFixed = (case directlyAffectedContainers (trHeap st' node) of
                 None \<Rightarrow> True | Some cs \<Rightarrow> list_all (\<lambda>c. c \<in> fixedContainers) cs)
          in if allFixed
             then st'\<lparr>trHeap := (trHeap st')(node := markFixed (trHeap st' node)),
                      trOrch := (trOrch st')\<lparr>nFixedNodes := nFixedNodes (trOrch st') + 1\<rparr>\<rparr>
             else st')"

primrec traversePostOrder :: "nat \<Rightarrow> ContainerId set \<Rightarrow> nat \<Rightarrow> ExprId \<Rightarrow> 'k Traversal \<Rightarrow> 'k Traversal result" where
  "traversePostOrder 0 fixedContainers currRootIdx node st = Inl Undefined_behaviour"
| "traversePostOrder (Suc fuel) fixedContainers currRootIdx node st =
    (if node \<in> visited st then Inr st
     else bindE (foldE (visit_child (traversePostOrder fuel fixedContainers currRootIdx))
                   (children (trHeap st node)) (st\<lparr>visited := insert node (visited st)\<rparr>, True, 0))
            (\<lambda>r. Inr (finish_node fixedContainers currRootIdx node r)))"

definition order_root :: "nat \<Rightarrow> ContainerId set \<Rightarrow> nat \<times> ExprId \<Rightarrow> 'k Traversal \<times> nat list \<Rightarrow> ('k Traversal \<times> nat list) result" where
  "order_root fuel fixedContainers = (\<lambda>(rootIdx, root) (st, nodeRangeByRoots).
     bindE (traversePostOrder fuel fixedContainers rootIdx root st) (\<lambda>st'.
       Inr (st', nodeRangeByRoots @ [length (postOrder (trOrch st'))])))"

definition initOrder :: "nat \<Rightarrow> ContainerId set \<Rightarrow> 'k heap \<Rightarrow> Orchestrator \<Rightarrow> ('k heap \<times> Orchestrator \<times> nat list) result" where
  "initOrder fuel fixedContainers h orch =
    bindE (foldE (order_root fuel fixedContainers) (enumerate 0 (roots orch))
             (\<lparr>visited = {}, trHeap = h, trOrch = orch\<rparr>, [0]))
      (\<lambda>(st, nodeRangeByRoots). Inr (trHeap st, trOrch st, nodeRangeByRoots))"

definition initParents :: "'k heap \<Rightarrow> Orchestrator \<Rightarrow> Orchestrator" where
  "initParents h orch = orch\<lparr>nodeToParents :=
     fold (\<lambda>node m. fold (\<lambda>child m. push_back_at child node m) (children (h node)) m) (postOrder orch) (nodeToParents orch)\<rparr>"

section \<open>Well-formed traversal states\<close>

text \<open>
  \<open>rank\<close> witnesses that the children relation has no cycle. Every finished
  node has its children finished before it, with a higher priority.
\<close>

definition same_shape :: "'k heap \<Rightarrow> 'k heap \<Rightarrow> bool" where
  "same_shape h h' \<longleftrightarrow> (\<forall>x. h' x = h x \<or> h' x = markFixed (h x))"

lemma markFixed_simps [simp]:
  "children (markFixed e) = children e" "exprValue (markFixed e) = exprValue e" "kind (markFixed e) = kind e"
  "directlyAffectedContainers (markFixed e) = directlyAffectedContainers e"
  "properlyInitialized (markFixed e) = properlyInitialized e" "markFixed (markFixed e) = markFixed e"
  by (simp_all add: markFixed_def)

lemma same_shape_refl [simp]: "same_shape h h"
  by (simp add: same_shape_def)

lemma same_shape_trans: "same_shape h h' \<Longrightarrow> same_shape h' h'' \<Longrightarrow> same_shape h h''"
  unfolding same_shape_def by (metis markFixed_simps(6))

lemma same_shape_children: "same_shape h h' \<Longrightarrow> children (h' x) = children (h x)"
  unfolding same_shape_def by (metis markFixed_simps(1))

lemma same_shape_mark: "same_shape h (h(x := markFixed (h x)))"
  by (simp add: same_shape_def)

definition ordered_orch :: "'k heap \<Rightarrow> Orchestrator \<Rightarrow> bool" where
  "ordered_orch h orch \<longleftrightarrow> distinct (postOrder orch) \<and> dom (nodeToPriority orch) = set (postOrder orch)
     \<and> (\<forall>xs x ys. postOrder orch = xs @ x # ys \<longrightarrow> set (children (h x)) \<subseteq> set xs
          \<and> (\<forall>c \<in> set (children (h x)). priority_gt (the (nodeToPriority orch c)) (the (nodeToPriority orch x))))"

definition trav_inv :: "'k heap \<Rightarrow> nat \<Rightarrow> 'k Traversal \<Rightarrow> bool" where
  "trav_inv h ridx st \<longleftrightarrow> same_shape h (trHeap st) \<and> ordered_orch h (trOrch st) \<and> set (postOrder (trOrch st)) \<subseteq> visited st
     \<and> (\<forall>x \<in> set (postOrder (trOrch st)). rootIdx (the (nodeToPriority (trOrch st) x)) \<le> ridx)"

text \<open>What a visit adds: finished nodes at the end of the order, and nothing else stays open.\<close>

definition reorders :: "Orchestrator \<Rightarrow> Orchestrator \<Rightarrow> bool" where
  "reorders orch orch' \<longleftrightarrow> (\<exists>ord pr n. orch' = orch\<lparr>postOrder := ord, nodeToPriority := pr, nFixedNodes := n\<rparr>)"

lemma reordersI: "reorders orch (orch\<lparr>postOrder := ord, nodeToPriority := pr, nFixedNodes := n\<rparr>)"
  unfolding reorders_def by blast

lemma reorders_refl [simp]: "reorders orch orch"
  using reordersI[where orch = orch and ord = "postOrder orch" and pr = "nodeToPriority orch" and n = "nFixedNodes orch"] by simp

lemma reorders_trans: "reorders o1 o2 \<Longrightarrow> reorders o2 o3 \<Longrightarrow> reorders o1 o3"
  unfolding reorders_def by (elim exE) (simp, blast)

lemma reorders_fields:
  "reorders orch orch' \<Longrightarrow> roots orch' = roots orch \<and> leafStore orch' = leafStore orch \<and> nodeToParents orch' = nodeToParents orch
     \<and> containerToLeaves orch' = containerToLeaves orch \<and> objectToLeaves orch' = objectToLeaves orch
     \<and> containerObjectToLeaves orch' = containerObjectToLeaves orch \<and> toCheckLeaves orch' = toCheckLeaves orch"
  unfolding reorders_def by auto

definition visited_more :: "nat \<Rightarrow> 'k Traversal \<Rightarrow> 'k Traversal \<Rightarrow> bool" where
  "visited_more ridx st st' \<longleftrightarrow> visited st' - set (postOrder (trOrch st')) = visited st - set (postOrder (trOrch st))
     \<and> (\<exists>new. postOrder (trOrch st') = postOrder (trOrch st) @ new \<and> (\<forall>x \<in> set new. rootIdx (the (nodeToPriority (trOrch st') x)) = ridx))
     \<and> (\<forall>x \<in> set (postOrder (trOrch st)). nodeToPriority (trOrch st') x = nodeToPriority (trOrch st) x)
     \<and> reorders (trOrch st) (trOrch st')"

lemma visited_more_refl [simp]: "visited_more ridx st st"
  unfolding visited_more_def by simp

lemma visited_more_trans:
  assumes "visited_more ridx st st1" "visited_more ridx st1 st2"
  shows "visited_more ridx st st2"
proof -
  have orch: "reorders (trOrch st) (trOrch st2)"
    using assms reorders_trans unfolding visited_more_def by blast
  obtain new1 new2 where new: "postOrder (trOrch st1) = postOrder (trOrch st) @ new1" "postOrder (trOrch st2) = postOrder (trOrch st1) @ new2"
      "\<forall>x \<in> set new1. rootIdx (the (nodeToPriority (trOrch st1) x)) = ridx" "\<forall>x \<in> set new2. rootIdx (the (nodeToPriority (trOrch st2) x)) = ridx"
    using assms unfolding visited_more_def by blast
  have keep: "\<forall>x \<in> set (postOrder (trOrch st)). nodeToPriority (trOrch st1) x = nodeToPriority (trOrch st) x"
      "\<forall>x \<in> set (postOrder (trOrch st1)). nodeToPriority (trOrch st2) x = nodeToPriority (trOrch st1) x"
    using assms unfolding visited_more_def by blast+
  have "\<forall>x \<in> set (new1 @ new2). rootIdx (the (nodeToPriority (trOrch st2) x)) = ridx" using new keep(2) by auto
  moreover have "postOrder (trOrch st2) = postOrder (trOrch st) @ (new1 @ new2)" using new by simp
  ultimately have "\<exists>new. postOrder (trOrch st2) = postOrder (trOrch st) @ new \<and> (\<forall>x \<in> set new. rootIdx (the (nodeToPriority (trOrch st2) x)) = ridx)"
    by blast
  moreover have "\<forall>x \<in> set (postOrder (trOrch st)). nodeToPriority (trOrch st2) x = nodeToPriority (trOrch st) x"
    using keep new(1) by simp
  moreover have "visited st2 - set (postOrder (trOrch st2)) = visited st - set (postOrder (trOrch st))"
    using assms unfolding visited_more_def by blast
  ultimately show ?thesis using orch unfolding visited_more_def by blast
qed

lemma priority_of_finished: "ordered_orch h orch \<Longrightarrow> x \<in> set (postOrder orch) \<Longrightarrow> priority orch x = Inr (the (nodeToPriority orch x))"
  unfolding ordered_orch_def priority_def by (auto split: option.splits)

definition visits :: "'k heap \<Rightarrow> (ExprId \<Rightarrow> nat) \<Rightarrow> nat \<Rightarrow> (ExprId \<Rightarrow> 'k Traversal \<Rightarrow> 'k Traversal result) \<Rightarrow> ExprId \<Rightarrow> bool" where
  "visits h rank ridx recurse c \<longleftrightarrow> (\<forall>st. trav_inv h ridx st \<longrightarrow> (\<forall>y \<in> visited st - set (postOrder (trOrch st)). rank c < rank y) \<longrightarrow>
     (\<exists>st'. recurse c st = Inr st' \<and> trav_inv h ridx st' \<and> c \<in> set (postOrder (trOrch st')) \<and> visited_more ridx st st'))"

lemma visit_children:
  assumes "\<forall>c \<in> set cs. visits h rank ridx recurse c" "trav_inv h ridx st"
    and "\<forall>c \<in> set cs. \<forall>y \<in> visited st - set (postOrder (trOrch st)). rank c < rank y"
  shows "\<exists>st' fx mh. foldE (visit_child recurse) cs (st, fx0, mh0) = Inr (st', fx, mh) \<and> trav_inv h ridx st' \<and> visited_more ridx st st'
    \<and> mh0 \<le> mh \<and> (\<forall>c \<in> set cs. c \<in> set (postOrder (trOrch st')) \<and> height (the (nodeToPriority (trOrch st') c)) \<le> mh)"
  using assms
proof (induction cs arbitrary: st fx0 mh0)
  case (Cons c cs)
  obtain st1 where st1: "recurse c st = Inr st1" "trav_inv h ridx st1" "c \<in> set (postOrder (trOrch st1))" "visited_more ridx st st1"
    using Cons.prems unfolding visits_def by (meson list.set_intros(1))
  have pr: "priority (trOrch st1) c = Inr (the (nodeToPriority (trOrch st1) c))"
    using st1(2,3) priority_of_finished unfolding trav_inv_def by blast
  let ?p = "the (nodeToPriority (trOrch st1) c)"
  have "visited st1 - set (postOrder (trOrch st1)) = visited st - set (postOrder (trOrch st))"
    using st1(4) unfolding visited_more_def by blast
  then obtain st' fx mh where st': "foldE (visit_child recurse) cs (st1, fx0 \<and> isFixed (trHeap st1 c), max mh0 (height ?p)) = Inr (st', fx, mh)"
      "trav_inv h ridx st'" "visited_more ridx st1 st'" "max mh0 (height ?p) \<le> mh"
      "\<forall>c \<in> set cs. c \<in> set (postOrder (trOrch st')) \<and> height (the (nodeToPriority (trOrch st') c)) \<le> mh"
    using Cons.IH[OF _ st1(2), of "fx0 \<and> isFixed (trHeap st1 c)" "max mh0 (height ?p)"] Cons.prems(1,3) by auto
  have "c \<in> set (postOrder (trOrch st'))" "nodeToPriority (trOrch st') c = nodeToPriority (trOrch st1) c"
    using st'(3) st1(3) unfolding visited_more_def by auto
  moreover have "visit_child recurse c (st, fx0, mh0) = Inr (st1, fx0 \<and> isFixed (trHeap st1 c), max mh0 (height ?p))"
    using st1(1) pr by (simp add: visit_child_def)
  ultimately show ?case using st' visited_more_trans[OF st1(4) st'(3)] by auto
qed simp

lemma ordered_snoc:
  assumes "ordered_orch h orch" "x \<notin> set (postOrder orch)" "set (children (h x)) \<subseteq> set (postOrder orch)"
    and "\<forall>c \<in> set (children (h x)). priority_gt (the (nodeToPriority orch c)) p"
  shows "ordered_orch h (orch\<lparr>postOrder := postOrder orch @ [x], nodeToPriority := (nodeToPriority orch)(x \<mapsto> p)\<rparr>)"
proof -
  have old: "set (children (h y)) \<subseteq> set xs \<and> (\<forall>c \<in> set (children (h y)). priority_gt (the (((nodeToPriority orch)(x \<mapsto> p)) c)) (the (((nodeToPriority orch)(x \<mapsto> p)) y)))"
    if "postOrder orch = xs @ y # ys" for xs y ys
  proof -
    have *: "set (children (h y)) \<subseteq> set xs" "\<forall>c \<in> set (children (h y)). priority_gt (the (nodeToPriority orch c)) (the (nodeToPriority orch y))"
      using assms(1) that unfolding ordered_orch_def by blast+
    have "x \<noteq> y" "x \<notin> set (children (h y))" using * assms(2) that by auto
    then show ?thesis using * by auto
  qed
  have new: "set (children (h x)) \<subseteq> set (postOrder orch) \<and> (\<forall>c \<in> set (children (h x)). priority_gt (the (((nodeToPriority orch)(x \<mapsto> p)) c)) (the (((nodeToPriority orch)(x \<mapsto> p)) x)))"
    using assms(2-4) by auto
  have main: "set (children (h y)) \<subseteq> set xs \<and> (\<forall>c \<in> set (children (h y)). priority_gt (the (((nodeToPriority orch)(x \<mapsto> p)) c)) (the (((nodeToPriority orch)(x \<mapsto> p)) y)))"
    if "postOrder orch @ [x] = xs @ y # ys" for xs y ys
  proof (cases ys rule: rev_cases)
    case Nil
    then show ?thesis using that new by simp
  next
    case (snoc zs z)
    then have "postOrder orch = xs @ y # zs" using that by simp
    then show ?thesis by (rule old)
  qed
  have "distinct (postOrder orch)" "dom (nodeToPriority orch) = set (postOrder orch)" using assms(1) by (simp_all add: ordered_orch_def)
  then show ?thesis using assms(2) main unfolding ordered_orch_def by simp
qed

lemma emplace_fresh: "m k = None \<Longrightarrow> emplace k v m = m(k \<mapsto> v)"
  by (simp add: emplace_def)

lemma finish_node_ok:
  assumes "trav_inv h ridx st" "x \<in> visited st" "x \<notin> set (postOrder (trOrch st))"
    and "\<forall>c \<in> set (children (h x)). c \<in> set (postOrder (trOrch st)) \<and> height (the (nodeToPriority (trOrch st) c)) \<le> mh"
  shows "trav_inv h ridx (finish_node F ridx x (st, fx, mh))"
    "postOrder (trOrch (finish_node F ridx x (st, fx, mh))) = postOrder (trOrch st) @ [x]"
    "visited (finish_node F ridx x (st, fx, mh)) = visited st"
    "\<exists>pr n. trOrch (finish_node F ridx x (st, fx, mh)) = (trOrch st)\<lparr>postOrder := postOrder (trOrch st) @ [x], nodeToPriority := pr, nFixedNodes := n\<rparr>
       \<and> pr = (nodeToPriority (trOrch st))(x \<mapsto> \<lparr>rootIdx = ridx, height = mh + 1\<rparr>)"
proof -
  let ?p = "\<lparr>rootIdx = ridx, height = mh + 1\<rparr>"
  let ?o = "(trOrch st)\<lparr>postOrder := postOrder (trOrch st) @ [x], nodeToPriority := (nodeToPriority (trOrch st))(x \<mapsto> ?p)\<rparr>"
  have inv: "ordered_orch h (trOrch st)" "set (postOrder (trOrch st)) \<subseteq> visited st" "same_shape h (trHeap st)"
      "\<forall>x \<in> set (postOrder (trOrch st)). rootIdx (the (nodeToPriority (trOrch st) x)) \<le> ridx"
    using assms(1) by (auto simp: trav_inv_def)
  have fresh: "nodeToPriority (trOrch st) x = None" using inv(1) assms(3) by (auto simp: ordered_orch_def)
  have put: "emplace x p (nodeToPriority (trOrch st)) = (nodeToPriority (trOrch st))(x \<mapsto> p)" for p
    using fresh by (rule emplace_fresh)
  have ord: "ordered_orch h ?o"
    by (rule ordered_snoc[OF inv(1) assms(3)]) (use assms(4) inv(4) in \<open>fastforce simp: priority_gt_def\<close>)+
  have fields: "ordered_orch h (orch\<lparr>nFixedNodes := n\<rparr>) = ordered_orch h orch" for orch n by (simp add: ordered_orch_def)
  have shape: "same_shape h ((trHeap st)(x := markFixed (trHeap st x)))"
    using inv(3) same_shape_mark same_shape_trans by blast
  show "trav_inv h ridx (finish_node F ridx x (st, fx, mh))"
    using ord inv assms(2,3) shape by (auto simp: trav_inv_def finish_node_def put fields Let_def split: option.splits)
  show "postOrder (trOrch (finish_node F ridx x (st, fx, mh))) = postOrder (trOrch st) @ [x]"
    "visited (finish_node F ridx x (st, fx, mh)) = visited st"
    by (auto simp: finish_node_def Let_def)
  have "trOrch (finish_node F ridx x (st, fx, mh)) = ?o\<lparr>nFixedNodes := nFixedNodes (trOrch st)\<rparr>
      \<or> trOrch (finish_node F ridx x (st, fx, mh)) = ?o\<lparr>nFixedNodes := nFixedNodes (trOrch st) + 1\<rparr>"
    by (auto simp: finish_node_def put Let_def)
  then show "\<exists>pr n. trOrch (finish_node F ridx x (st, fx, mh)) = (trOrch st)\<lparr>postOrder := postOrder (trOrch st) @ [x], nodeToPriority := pr, nFixedNodes := n\<rparr>
       \<and> pr = (nodeToPriority (trOrch st))(x \<mapsto> ?p)" by blast
qed

lemma traverse_visits:
  assumes "\<And>x c. c \<in> set (children (h x)) \<Longrightarrow> rank c < rank x"
  shows "rank x < fuel \<Longrightarrow> visits h rank ridx (traversePostOrder fuel F ridx) x"
proof (induction fuel arbitrary: x)
  case (Suc fuel)
  show ?case unfolding visits_def
  proof (intro allI impI)
    fix st assume st: "trav_inv h ridx st" "\<forall>y \<in> visited st - set (postOrder (trOrch st)). rank x < rank y"
    show "\<exists>st'. traversePostOrder (Suc fuel) F ridx x st = Inr st' \<and> trav_inv h ridx st' \<and> x \<in> set (postOrder (trOrch st')) \<and> visited_more ridx st st'"
    proof (cases "x \<in> visited st")
      case True
      then have "x \<in> set (postOrder (trOrch st))" using st(2) by auto
      then show ?thesis using True st(1) by simp
    next
      case False
      let ?st = "st\<lparr>visited := insert x (visited st)\<rparr>"
      have ch: "children (trHeap st x) = children (h x)" using st(1) same_shape_children unfolding trav_inv_def by metis
      have inv: "trav_inv h ridx ?st" using st(1) by (auto simp: trav_inv_def)
      have out: "x \<notin> set (postOrder (trOrch st))" using False st(1) by (auto simp: trav_inv_def)
      have "\<forall>c \<in> set (children (h x)). visits h rank ridx (traversePostOrder fuel F ridx) c"
        using Suc.IH Suc.prems assms by (metis less_trans_Suc not_less_eq)
      moreover have "\<forall>c \<in> set (children (h x)). \<forall>y \<in> visited ?st - set (postOrder (trOrch ?st)). rank c < rank y"
        using st(2) assms by (auto intro: less_trans)
      ultimately obtain st1 fx mh where st1: "foldE (visit_child (traversePostOrder fuel F ridx)) (children (h x)) (?st, True, 0) = Inr (st1, fx, mh)"
          "trav_inv h ridx st1" "visited_more ridx ?st st1"
          "\<forall>c \<in> set (children (h x)). c \<in> set (postOrder (trOrch st1)) \<and> height (the (nodeToPriority (trOrch st1) c)) \<le> mh"
        using visit_children[OF _ inv, of "children (h x)" rank "traversePostOrder fuel F ridx" True 0] by blast
      have op: "visited st1 - set (postOrder (trOrch st1)) = insert x (visited st - set (postOrder (trOrch st)))"
        using st1(3) out unfolding visited_more_def by auto
      then have x: "x \<in> visited st1" "x \<notin> set (postOrder (trOrch st1))" by auto
      note fin = finish_node_ok[OF st1(2) x st1(4), of F fx]
      have "visited_more ridx st (finish_node F ridx x (st1, fx, mh))"
      proof -
        have o1: "reorders (trOrch st) (trOrch st1)" using st1(3) unfolding visited_more_def by simp
        obtain pr' n' where o2: "trOrch (finish_node F ridx x (st1, fx, mh)) = (trOrch st1)\<lparr>postOrder := postOrder (trOrch st1) @ [x], nodeToPriority := pr', nFixedNodes := n'\<rparr>"
          "pr' = (nodeToPriority (trOrch st1))(x \<mapsto> \<lparr>rootIdx = ridx, height = mh + 1\<rparr>)" using fin(4) by blast
        have "nodeToPriority (trOrch (finish_node F ridx x (st1, fx, mh))) y = nodeToPriority (trOrch st) y"
          if "y \<in> set (postOrder (trOrch st))" for y using that out st1(3) unfolding o2 visited_more_def by auto
        moreover have "reorders (trOrch st) (trOrch (finish_node F ridx x (st1, fx, mh)))"
          unfolding o2(1) by (rule reorders_trans[OF o1 reordersI])
        moreover obtain new where new: "postOrder (trOrch st1) = postOrder (trOrch st) @ new"
            "\<forall>y \<in> set new. rootIdx (the (nodeToPriority (trOrch st1) y)) = ridx"
          using st1(3) unfolding visited_more_def by auto
        moreover have "postOrder (trOrch (finish_node F ridx x (st1, fx, mh))) = postOrder (trOrch st) @ (new @ [x])
            \<and> (\<forall>y \<in> set (new @ [x]). rootIdx (the (nodeToPriority (trOrch (finish_node F ridx x (st1, fx, mh))) y)) = ridx)"
          using new x(2) unfolding o2 by auto
        moreover have "visited (finish_node F ridx x (st1, fx, mh)) - set (postOrder (trOrch (finish_node F ridx x (st1, fx, mh))))
            = visited st - set (postOrder (trOrch st))" using op out False fin(2,3) by auto
        ultimately show ?thesis unfolding visited_more_def by blast
      qed
      then show ?thesis using False st1(1) fin(1,2) ch by simp
    qed
  qed
qed simp

section \<open>The order of all roots\<close>

definition root_ranges :: "Orchestrator \<Rightarrow> nat list \<Rightarrow> bool" where
  "root_ranges orch rng \<longleftrightarrow> rng \<noteq> [] \<and> hd rng = 0 \<and> last rng = length (postOrder orch) \<and> sorted rng
     \<and> (\<forall>i. Suc i < length rng \<longrightarrow> (\<forall>j. rng ! i \<le> j \<and> j < rng ! Suc i \<longrightarrow> rootIdx (the (nodeToPriority orch (postOrder orch ! j))) = i))"

lemma sorted_le_last: "sorted xs \<Longrightarrow> x \<in> set xs \<Longrightarrow> x \<le> last xs"
  by (induction xs) auto

lemma root_ranges_snoc:
  assumes "root_ranges orch rng" "postOrder orch' = postOrder orch @ new" "length rng = Suc r"
    and "\<forall>x \<in> set new. rootIdx (the (nodeToPriority orch' x)) = r"
    and "\<forall>x \<in> set (postOrder orch). nodeToPriority orch' x = nodeToPriority orch x"
  shows "root_ranges orch' (rng @ [length (postOrder orch')])"
proof -
  note rr = assms(1)[unfolded root_ranges_def]
  have "rootIdx (the (nodeToPriority orch' (postOrder orch' ! j))) = i"
    if "Suc i < length (rng @ [length (postOrder orch')])" "(rng @ [length (postOrder orch')]) ! i \<le> j" "j < (rng @ [length (postOrder orch')]) ! Suc i" for i j
  proof (cases "Suc i < length rng")
    case True
    then have j: "rng ! i \<le> j" "j < rng ! Suc i" using that by (auto simp: nth_append)
    moreover have "rng ! Suc i \<le> length (postOrder orch)"
      using rr True sorted_nth_mono[of rng "Suc i" "length rng - 1"] by (auto simp: last_conv_nth)
    ultimately show ?thesis using rr True assms(2,5) by (auto simp: nth_append)
  next
    case False
    then have i: "i = r" "i = length rng - 1" using that(1) assms(3) by auto
    then have "length (postOrder orch) \<le> j" "j < length (postOrder orch @ new)"
      using that(2,3) rr assms(2,3) by (auto simp: nth_append last_conv_nth)
    then show ?thesis using assms(2,4) i by (auto simp: nth_append)
  qed
  moreover have "sorted (rng @ [length (postOrder orch')])" using rr assms(2) sorted_le_last[of rng]
    by (auto simp: sorted_append intro: le_trans[OF _ le_add1])
  ultimately show ?thesis using rr assms(2) by (auto simp: root_ranges_def)
qed

lemma order_roots:
  assumes acyclic: "\<And>x c. c \<in> set (children (h x)) \<Longrightarrow> rank c < rank x"
  shows "\<forall>r \<in> set rs. rank r < fuel \<Longrightarrow> trav_inv h n st \<Longrightarrow> visited st = set (postOrder (trOrch st)) \<Longrightarrow>
    root_ranges (trOrch st) rng \<Longrightarrow> length rng = Suc n \<Longrightarrow>
    \<exists>st' rng'. foldE (order_root fuel F) (enumerate n rs) (st, rng) = Inr (st', rng') \<and> trav_inv h (n + length rs) st'
      \<and> root_ranges (trOrch st') rng' \<and> length rng' = Suc (n + length rs)
      \<and> set rs \<union> set (postOrder (trOrch st)) \<subseteq> set (postOrder (trOrch st'))
      \<and> reorders (trOrch st) (trOrch st')"
proof (induction rs arbitrary: n st rng)
  case Nil
  then show ?case by simp
next
  case (Cons r rs)
  have "visits h rank n (traversePostOrder fuel F n) r" using traverse_visits[of h rank r fuel n F] acyclic Cons.prems(1) by simp
  then obtain st1 where st1: "traversePostOrder fuel F n r st = Inr st1" "trav_inv h n st1" "r \<in> set (postOrder (trOrch st1))" "visited_more n st st1"
    using Cons.prems(2,3) unfolding visits_def by (metis Diff_cancel empty_iff)
  obtain new where new: "postOrder (trOrch st1) = postOrder (trOrch st) @ new" "\<forall>x \<in> set new. rootIdx (the (nodeToPriority (trOrch st1) x)) = n"
      "\<forall>x \<in> set (postOrder (trOrch st)). nodeToPriority (trOrch st1) x = nodeToPriority (trOrch st) x"
    using st1(4) unfolding visited_more_def by blast
  have rng: "root_ranges (trOrch st1) (rng @ [length (postOrder (trOrch st1))])"
    by (rule root_ranges_snoc[OF Cons.prems(4) new(1) Cons.prems(5) new(2,3)])
  have vis: "visited st1 = set (postOrder (trOrch st1))"
    using st1(2,4) Cons.prems(3) unfolding visited_more_def trav_inv_def by blast
  have inv: "trav_inv h (Suc n) st1" using st1(2) unfolding trav_inv_def by (simp add: le_Suc_eq)
  obtain st' rng' where st': "foldE (order_root fuel F) (enumerate (Suc n) rs) (st1, rng @ [length (postOrder (trOrch st1))]) = Inr (st', rng')"
      "trav_inv h (Suc n + length rs) st'" "root_ranges (trOrch st') rng'" "length rng' = Suc (Suc n + length rs)"
      "set rs \<union> set (postOrder (trOrch st1)) \<subseteq> set (postOrder (trOrch st'))"
      "reorders (trOrch st1) (trOrch st')"
    using Cons.IH[OF _ inv vis rng] Cons.prems(1,5) by auto
  moreover have "reorders (trOrch st) (trOrch st1)" using st1(4) unfolding visited_more_def by blast
  ultimately have "reorders (trOrch st) (trOrch st')" using reorders_trans by blast
  then show ?case using st' st1(1,3) new(1) by (auto simp: order_root_def)
qed

lemma initOrder_ok:
  assumes "\<And>x c. c \<in> set (children (h x)) \<Longrightarrow> rank c < rank x" "\<forall>r \<in> set (roots orch). rank r < fuel"
    and "postOrder orch = []" "nodeToPriority orch = Map.empty"
  shows "\<exists>h' orch' rng. initOrder fuel F h orch = Inr (h', orch', rng) \<and> same_shape h h' \<and> ordered_orch h orch'
    \<and> set (roots orch) \<subseteq> set (postOrder orch') \<and> root_ranges orch' rng \<and> length rng = Suc (length (roots orch))
    \<and> reorders orch orch'"
proof -
  let ?st = "\<lparr>visited = {}, trHeap = h, trOrch = orch\<rparr>"
  have "trav_inv h 0 ?st" "root_ranges orch [0]" using assms(3,4) by (auto simp: trav_inv_def ordered_orch_def root_ranges_def)
  then obtain st' rng where st': "foldE (order_root fuel F) (enumerate 0 (roots orch)) (?st, [0]) = Inr (st', rng)"
      "trav_inv h (0 + length (roots orch)) st'" "root_ranges (trOrch st') rng" "length rng = Suc (0 + length (roots orch))"
      "set (roots orch) \<union> set (postOrder (trOrch ?st)) \<subseteq> set (postOrder (trOrch st'))"
      "reorders (trOrch ?st) (trOrch st')"
    using order_roots[of h rank "roots orch" fuel 0 ?st "[0]" F] assms by auto
  have "initOrder fuel F h orch = Inr (trHeap st', trOrch st', rng)" using st'(1) by (simp add: initOrder_def)
  then show ?thesis using st'(2-6) unfolding trav_inv_def by fastforce
qed

section \<open>Parents\<close>

definition parents_of :: "Orchestrator \<Rightarrow> ExprId \<Rightarrow> ExprId list" where
  "parents_of orch c = get_ref_default (nodeToParents orch) c []"

lemma get_push_back: "get_ref_default (push_back_at k v m) j [] = get_ref_default m j [] @ (if j = k then [v] else [])"
  by (auto simp: get_ref_default_def map_of_push_back_at split: option.splits)

lemma get_push_children:
  "set (get_ref_default (fold (\<lambda>child m. push_back_at child node m) cs m) c [])
     = set (get_ref_default m c []) \<union> (if c \<in> set cs then {node} else {})"
  by (induction cs arbitrary: m) (auto simp: get_push_back)

lemma get_push_parents:
  "set (get_ref_default (fold (\<lambda>node m. fold (\<lambda>child m. push_back_at child node m) (f node) m) xs m) c [])
     = set (get_ref_default m c []) \<union> {x \<in> set xs. c \<in> set (f x)}"
  by (induction xs arbitrary: m) (auto simp: get_push_children)

lemma initParents_ok:
  "nodeToParents orch = [] \<Longrightarrow> set (parents_of (initParents h orch) c) = {x \<in> set (postOrder orch). c \<in> set (children (h x))}"
  using get_push_parents[of "\<lambda>x. children (h x)" "postOrder orch" "[]" c]
  by (simp add: parents_of_def initParents_def get_ref_default_def)

lemma initParents_fields [simp]:
  "postOrder (initParents h orch) = postOrder orch" "nodeToPriority (initParents h orch) = nodeToPriority orch"
  "roots (initParents h orch) = roots orch" "leafStore (initParents h orch) = leafStore orch"
  "containerToLeaves (initParents h orch) = containerToLeaves orch" "objectToLeaves (initParents h orch) = objectToLeaves orch"
  "containerObjectToLeaves (initParents h orch) = containerObjectToLeaves orch" "toCheckLeaves (initParents h orch) = toCheckLeaves orch"
  by (simp_all add: initParents_def)

section \<open>Properties\<close>

text \<open>C10: The traversal of the expression graph terminates without an error on every acyclic graph,
  with fuel above the rank of the roots, and finds a topological order: every
  node is listed once, after all its children, which have a higher priority than
  it, also when they were first reached from an earlier root; all roots are listed, the
  recorded ranges assign every position to the root that reached it, and the table of
  parents lists exactly the nodes with a given child.\<close>
theorem traversal_topological:
  assumes "\<And>x c. c \<in> set (children (h x)) \<Longrightarrow> rank c < rank x" "\<And>r. r \<in> set rs \<Longrightarrow> rank r < fuel"
  shows "\<exists>h' orch rng. initOrder fuel fixedContainers h (newOrchestrator\<lparr>roots := rs\<rparr>) = Inr (h', orch, rng)
    \<and> distinct (postOrder orch) \<and> set rs \<subseteq> set (postOrder orch)
    \<and> (\<forall>xs x ys. postOrder orch = xs @ x # ys \<longrightarrow> set (children (h x)) \<subseteq> set xs)
    \<and> (\<forall>x \<in> set (postOrder orch). \<forall>c \<in> set (children (h x)). \<exists>pc px. priority orch c = Inr pc \<and> priority orch x = Inr px \<and> priority_gt pc px)
    \<and> root_ranges orch rng
    \<and> (\<forall>c. set (parents_of (initParents h' orch) c) = {x \<in> set (postOrder orch). c \<in> set (children (h x))})"
proof -
  let ?o = "newOrchestrator\<lparr>roots := rs\<rparr>"
  obtain h' orch rng where ok: "initOrder fuel fixedContainers h ?o = Inr (h', orch, rng)" "same_shape h h'" "ordered_orch h orch"
      "set rs \<subseteq> set (postOrder orch)" "root_ranges orch rng" "reorders ?o orch"
    using initOrder_ok[of h rank ?o fuel fixedContainers] assms by (auto simp: newOrchestrator_def)
  have ch: "children (h' x) = children (h x)" for x using ok(2) same_shape_children by metis
  have par: "nodeToParents orch = []" using reorders_fields[OF ok(6)] by (simp add: newOrchestrator_def)
  have prio: "\<exists>pc px. priority orch c = Inr pc \<and> priority orch x = Inr px \<and> priority_gt pc px"
    if "x \<in> set (postOrder orch)" "c \<in> set (children (h x))" for x c
  proof -
    from split_list[OF that(1)] obtain xs ys where split: "postOrder orch = xs @ x # ys" by blast
    then have "set (children (h x)) \<subseteq> set xs" "priority_gt (the (nodeToPriority orch c)) (the (nodeToPriority orch x))"
      using ok(3) that(2) unfolding ordered_orch_def by blast+
    then show ?thesis using priority_of_finished[OF ok(3)] that split by auto
  qed
  have "distinct (postOrder orch)" "\<forall>xs x ys. postOrder orch = xs @ x # ys \<longrightarrow> set (children (h x)) \<subseteq> set xs"
    using ok(3) unfolding ordered_orch_def by blast+
  moreover have "\<forall>c. set (parents_of (initParents h' orch) c) = {x \<in> set (postOrder orch). c \<in> set (children (h x))}"
    by (simp add: initParents_ok[OF par] ch)
  ultimately show ?thesis using ok(1,4,5) prio by (intro exI[of _ h'] exI[of _ orch] exI[of _ rng]) blast
qed

definition diamond :: "unit heap" where
  "diamond x = (newExpression ())\<lparr>children := (if x = 3 then [1, 2] else if x = 1 \<or> x = 2 then [0] else [])\<rparr>"

theorem traversal_topological_witness:
  "\<exists>h' orch rng. initOrder 4 {} diamond (newOrchestrator\<lparr>roots := [2, 3]\<rparr>) = Inr (h', orch, rng) \<and> root_ranges orch rng
    \<and> distinct (postOrder orch) \<and> set [2, 3] \<subseteq> set (postOrder orch)"
proof -
  have "c < x" if "c \<in> set (children (diamond x))" for x c using that by (auto simp: diamond_def split: if_splits)
  then show ?thesis using traversal_topological[of diamond id "[2, 3]" 4 "{}"] by fastforce
qed

end
