(* ===== verification/Change_Index.thy ===== *)
theory Change_Index
  imports Graph_Order
begin

text \<open>
  Which expressions a change of the assignment affects directly: the
  description an expression gives of itself
  (\<open>solver/utils/AffectedByChangeInfo.{h,cpp}\<close>), the tables the orchestrator
  builds from it and the lookup of the affected expressions of a change set
  (\<open>Orchestrator::initIndex\<close> and \<open>computeChangedLeaves\<close> in
  \<open>solver/expressions/Orchestrator.cpp\<close>). The virtual function
  \<open>isAffectedByChange\<close> is an argument.
\<close>

section \<open>Definitions: AffectedByChange\<close>

datatype AffectedByChangeType = ALL_CHANGES | CONTAINERS_ONLY | OBJECTS_ONLY | ALL_GIVEN_CONTAINER_OBJECT_PAIRS

record AffectedByChangeDecisionData =
  numTotalObjects :: int
  numTotalContainers :: int

record AffectedByChange =
  abcContainers :: "ContainerId list option"
  abcObjects :: "ObjectId list option"
  abcFilter :: "(Change \<Rightarrow> bool) option"
  affectedByAllChanges :: bool

definition mkAffectedByAll :: "bool \<Rightarrow> AffectedByChange" where
  "mkAffectedByAll b = \<lparr>abcContainers = None, abcObjects = None, abcFilter = None, affectedByAllChanges = b\<rparr>"

definition mkAffectedByContainers :: "ContainerId list option \<Rightarrow> (Change \<Rightarrow> bool) option \<Rightarrow> AffectedByChange result" where
  "mkAffectedByContainers containers changeFilter =
    (if containers = None then Inl Runtime_error
     else Inr \<lparr>abcContainers = containers, abcObjects = None, abcFilter = changeFilter, affectedByAllChanges = False\<rparr>)"

definition mkAffectedByObjects :: "ObjectId list option \<Rightarrow> (Change \<Rightarrow> bool) option \<Rightarrow> AffectedByChange result" where
  "mkAffectedByObjects objects changeFilter =
    (if objects = None then Inl Runtime_error
     else Inr \<lparr>abcContainers = None, abcObjects = objects, abcFilter = changeFilter, affectedByAllChanges = False\<rparr>)"

definition mkAffectedByPairs :: "ContainerId list option \<Rightarrow> ObjectId list option \<Rightarrow> AffectedByChange result" where
  "mkAffectedByPairs containers objects =
    (if containers = None \<or> objects = None then Inl Runtime_error
     else Inr \<lparr>abcContainers = containers, abcObjects = objects, abcFilter = None, affectedByAllChanges = False\<rparr>)"

definition mkAffectedByPairsIn :: "ContainerId list option \<Rightarrow> ObjectId list option \<Rightarrow> AffectedByChangeDecisionData \<Rightarrow> AffectedByChange result" where
  "mkAffectedByPairsIn containers objects data =
    (case (containers, objects) of
       (Some cs, Some obs) \<Rightarrow>
         let allContainersAffected = (int (length cs) = numTotalContainers data);
             allObjectsAffected = (int (length obs) = numTotalObjects data);
             none = mkAffectedByAll False
         in Inr (if allContainersAffected \<and> allObjectsAffected then none\<lparr>affectedByAllChanges := True\<rparr>
                 else if allContainersAffected then none\<lparr>abcObjects := objects\<rparr>
                 else if allObjectsAffected then none\<lparr>abcContainers := containers\<rparr>
                 else none\<lparr>abcContainers := containers, abcObjects := objects\<rparr>)
     | _ \<Rightarrow> Inl Runtime_error)"

definition abc_getContainers :: "AffectedByChange \<Rightarrow> ContainerId list result" where
  "abc_getContainers a = (case abcContainers a of None \<Rightarrow> Inl Runtime_error | Some cs \<Rightarrow> Inr cs)"

definition abc_getObjects :: "AffectedByChange \<Rightarrow> ObjectId list result" where
  "abc_getObjects a = (case abcObjects a of None \<Rightarrow> Inl Runtime_error | Some obs \<Rightarrow> Inr obs)"

definition abc_getType :: "AffectedByChange \<Rightarrow> AffectedByChangeType result" where
  "abc_getType a =
    (if affectedByAllChanges a then Inr ALL_CHANGES
     else if abcContainers a \<noteq> None \<and> abcObjects a \<noteq> None then Inr ALL_GIVEN_CONTAINER_OBJECT_PAIRS
     else if abcContainers a \<noteq> None then Inr CONTAINERS_ONLY
     else if abcObjects a \<noteq> None then Inr OBJECTS_ONLY
     else Inl Runtime_error)"

section \<open>Definitions: the index of the orchestrator\<close>

definition leaf_add :: "ExprId \<Rightarrow> (Change \<Rightarrow> bool) option \<Rightarrow> LeafStore \<Rightarrow> LeafId \<times> LeafStore" where
  "leaf_add node f s = (length (leaves s), \<lparr>leaves = leaves s @ [node], filters = filters s @ [f]\<rparr>)"

definition leaf_at :: "LeafStore \<Rightarrow> LeafId \<Rightarrow> ExprId result" where
  "leaf_at s i = (if i < length (leaves s) then Inr (leaves s ! i) else Inl Undefined_behaviour)"

definition leaf_filter :: "LeafStore \<Rightarrow> LeafId \<Rightarrow> (Change \<Rightarrow> bool) option result" where
  "leaf_filter s i = (if i < length (filters s) then Inr (filters s ! i) else Inl Undefined_behaviour)"

definition push_at_root :: "nat \<Rightarrow> ('m \<Rightarrow> 'm) \<Rightarrow> 'm list \<Rightarrow> 'm list" where
  "push_at_root rootId f ms = ms[rootId := f (ms ! rootId)]"

definition push_pair :: "ContainerId \<Rightarrow> ObjectId \<Rightarrow> LeafId \<Rightarrow> (ContainerId \<times> (ObjectId \<times> LeafId list) list) list \<Rightarrow> (ContainerId \<times> (ObjectId \<times> LeafId list) list) list" where
  "push_pair c obj leafId m = AList.map_default c [(obj, [leafId])] (push_back_at obj leafId) m"

definition initChangeInfo :: "AffectedByChange option \<Rightarrow> nat \<Rightarrow> ExprId \<Rightarrow> Orchestrator \<Rightarrow> Orchestrator result" where
  "initChangeInfo info rootId node orch =
    (case info of None \<Rightarrow> Inr orch
     | Some a \<Rightarrow>
       bindE (abc_getType a) (\<lambda>changeType.
       let (leafId, store) = leaf_add node (abcFilter a) (leafStore orch);
           orch' = orch\<lparr>leafStore := store\<rparr>
       in case changeType of
         CONTAINERS_ONLY \<Rightarrow> bindE (abc_getContainers a) (\<lambda>cs.
           Inr (orch'\<lparr>containerToLeaves := push_at_root rootId (fold (\<lambda>c. push_back_at c leafId) cs) (containerToLeaves orch')\<rparr>))
       | OBJECTS_ONLY \<Rightarrow> bindE (abc_getObjects a) (\<lambda>obs.
           Inr (orch'\<lparr>objectToLeaves := push_at_root rootId (fold (\<lambda>ob. push_back_at ob leafId) obs) (objectToLeaves orch')\<rparr>))
       | ALL_GIVEN_CONTAINER_OBJECT_PAIRS \<Rightarrow> bindE (abc_getContainers a) (\<lambda>cs. bindE (abc_getObjects a) (\<lambda>obs.
           Inr (orch'\<lparr>containerObjectToLeaves := push_at_root rootId
             (fold (\<lambda>c. fold (\<lambda>ob. push_pair c ob leafId) obs) cs) (containerObjectToLeaves orch')\<rparr>)))
       | ALL_CHANGES \<Rightarrow>
           Inr (orch'\<lparr>toCheckLeaves := push_at_root rootId (\<lambda>l. l @ [leafId]) (toCheckLeaves orch')\<rparr>)))"

definition index_root :: "(ExprId \<Rightarrow> AffectedByChange option result) \<Rightarrow> nat list \<Rightarrow> nat \<Rightarrow> Orchestrator \<Rightarrow> Orchestrator result" where
  "index_root isAffectedByChange nodeRangeByRoots i orch =
    (let orch' = orch\<lparr>toCheckLeaves := toCheckLeaves orch @ [[]], containerToLeaves := containerToLeaves orch @ [[]],
           objectToLeaves := objectToLeaves orch @ [[]], containerObjectToLeaves := containerObjectToLeaves orch @ [[]]\<rparr>
     in foldE (\<lambda>j orch. bindE (vec_at (postOrder orch) j) (\<lambda>node.
                 bindE (isAffectedByChange node) (\<lambda>info. initChangeInfo info i node orch)))
          [nodeRangeByRoots ! i ..< nodeRangeByRoots ! Suc i] orch')"

definition initIndex :: "(ExprId \<Rightarrow> AffectedByChange option result) \<Rightarrow> nat list \<Rightarrow> Orchestrator \<Rightarrow> Orchestrator result" where
  "initIndex isAffectedByChange nodeRangeByRoots orch =
    foldE (index_root isAffectedByChange nodeRangeByRoots) [0 ..< length (roots orch)] orch"

definition orch_init :: "nat \<Rightarrow> ('k Expression \<Rightarrow> AffectedByChange option result) \<Rightarrow> ExprId list \<Rightarrow> ContainerId set \<Rightarrow> 'k heap \<Rightarrow> ('k heap \<times> Orchestrator) result" where
  "orch_init fuel isAffectedByChange rs fixedContainers h =
    bindE (initOrder fuel fixedContainers h (newOrchestrator\<lparr>roots := rs\<rparr>)) (\<lambda>(h', orch, nodeRangeByRoots).
      let orch' = initParents h' orch
      in bindE (initIndex (\<lambda>x. isAffectedByChange (h' x)) nodeRangeByRoots orch') (\<lambda>orch''. Inr (h', orch'')))"

section \<open>The leaves a change set hits\<close>

definition passes :: "(Change \<Rightarrow> bool) option \<Rightarrow> Change \<Rightarrow> bool" where
  "passes f ch = (case f of None \<Rightarrow> True | Some g \<Rightarrow> g ch)"

definition hits :: "AffectedByChange \<Rightarrow> Change list \<Rightarrow> bool" where
  "hits a chs \<longleftrightarrow> affectedByAllChanges a \<or>
     (\<exists>ch \<in> set chs. (case abcContainers a of None \<Rightarrow> True | Some cs \<Rightarrow> chContainer ch \<in> set cs)
        \<and> (case abcObjects a of None \<Rightarrow> True | Some obs \<Rightarrow> chObject ch \<in> set obs)
        \<and> (abcContainers a \<noteq> None \<and> abcObjects a \<noteq> None \<or> passes (abcFilter a) ch))"

definition pair_leaves :: "(ContainerId \<times> (ObjectId \<times> LeafId list) list) list \<Rightarrow> Change \<Rightarrow> LeafId list" where
  "pair_leaves m ch = get_ref_default (get_ref_default m (chContainer ch) []) (chObject ch) []"

definition hit_ids :: "Orchestrator \<Rightarrow> nat \<Rightarrow> Change list \<Rightarrow> LeafId set" where
  "hit_ids orch i chs = set (toCheckLeaves orch ! i) \<union>
     (\<Union>ch \<in> set chs. set (pair_leaves (containerObjectToLeaves orch ! i) ch)
        \<union> {l \<in> set (get_ref_default (containerToLeaves orch ! i) (chContainer ch) []). passes (filters (leafStore orch) ! l) ch}
        \<union> {l \<in> set (get_ref_default (objectToLeaves orch ! i) (chObject ch) []). passes (filters (leafStore orch) ! l) ch})"

lemma fold_push_get:
  "set (get_ref_default (fold (\<lambda>k. push_back_at k l) ks m) j []) = set (get_ref_default m j []) \<union> (if j \<in> set ks then {l} else {})"
  by (induction ks arbitrary: m) (auto simp: get_push_back)

lemma push_pair_get:
  "set (pair_leaves (push_pair c ob l m) ch) = set (pair_leaves m ch) \<union> (if chContainer ch = c \<and> chObject ch = ob then {l} else {})"
  by (auto simp: pair_leaves_def push_pair_def get_ref_default_def map_of_map_default map_of_push_back_at split: option.splits)

lemma fold_push_pair_inner:
  "set (pair_leaves (fold (\<lambda>ob. push_pair c ob l) obs m) ch)
     = set (pair_leaves m ch) \<union> (if chContainer ch = c \<and> chObject ch \<in> set obs then {l} else {})"
  by (induction obs arbitrary: m) (auto simp: push_pair_get)

lemma fold_push_pair:
  "set (pair_leaves (fold (\<lambda>c. fold (\<lambda>ob. push_pair c ob l) obs) cs m) ch)
     = set (pair_leaves m ch) \<union> (if chContainer ch \<in> set cs \<and> chObject ch \<in> set obs then {l} else {})"
  by (induction cs arbitrary: m) (auto simp: fold_push_pair_inner)

text \<open>Every table has an entry per root and refers to stored leaves only.\<close>

definition idx_wf :: "nat \<Rightarrow> Orchestrator \<Rightarrow> bool" where
  "idx_wf n orch \<longleftrightarrow> length (toCheckLeaves orch) = n \<and> length (containerToLeaves orch) = n \<and> length (objectToLeaves orch) = n
     \<and> length (containerObjectToLeaves orch) = n \<and> length (filters (leafStore orch)) = length (leaves (leafStore orch))
     \<and> (\<forall>i < n. set (toCheckLeaves orch ! i) \<subseteq> {..< length (leaves (leafStore orch))}
        \<and> (\<forall>k. set (get_ref_default (containerToLeaves orch ! i) k []) \<subseteq> {..< length (leaves (leafStore orch))})
        \<and> (\<forall>k. set (get_ref_default (objectToLeaves orch ! i) k []) \<subseteq> {..< length (leaves (leafStore orch))})
        \<and> (\<forall>ch. set (pair_leaves (containerObjectToLeaves orch ! i) ch) \<subseteq> {..< length (leaves (leafStore orch))}))"

definition well_described :: "AffectedByChange \<Rightarrow> bool" where
  "well_described a \<longleftrightarrow> affectedByAllChanges a \<or> abcContainers a \<noteq> None \<or> abcObjects a \<noteq> None"

definition keeps_graph :: "Orchestrator \<Rightarrow> Orchestrator \<Rightarrow> bool" where
  "keeps_graph orch orch' \<longleftrightarrow> postOrder orch' = postOrder orch \<and> nodeToPriority orch' = nodeToPriority orch
     \<and> nodeToParents orch' = nodeToParents orch \<and> roots orch' = roots orch"

definition node_hits :: "Orchestrator \<Rightarrow> nat \<Rightarrow> Change list \<Rightarrow> ExprId set" where
  "node_hits orch i chs = (\<lambda>l. leaves (leafStore orch) ! l) ` hit_ids orch i chs"

lemma hit_ids_bound: "idx_wf n orch \<Longrightarrow> i < n \<Longrightarrow> hit_ids orch i chs \<subseteq> {..< length (leaves (leafStore orch))}"
  unfolding idx_wf_def hit_ids_def by blast

text \<open>A new leaf enters the tables of one root, under the keys a condition selects.\<close>

definition adds_leaf :: "nat \<Rightarrow> bool \<Rightarrow> (ContainerId \<Rightarrow> bool) \<Rightarrow> (ObjectId \<Rightarrow> bool) \<Rightarrow> (Change \<Rightarrow> bool) \<Rightarrow> Orchestrator \<Rightarrow> Orchestrator \<Rightarrow> bool" where
  "adds_leaf r A C B P orch orch' \<longleftrightarrow> (let l = length (leaves (leafStore orch)) in
     \<forall>i. set (toCheckLeaves orch' ! i) = set (toCheckLeaves orch ! i) \<union> (if i = r \<and> A then {l} else {})
      \<and> (\<forall>k. set (get_ref_default (containerToLeaves orch' ! i) k []) = set (get_ref_default (containerToLeaves orch ! i) k []) \<union> (if i = r \<and> C k then {l} else {}))
      \<and> (\<forall>k. set (get_ref_default (objectToLeaves orch' ! i) k []) = set (get_ref_default (objectToLeaves orch ! i) k []) \<union> (if i = r \<and> B k then {l} else {}))
      \<and> (\<forall>ch. set (pair_leaves (containerObjectToLeaves orch' ! i) ch) = set (pair_leaves (containerObjectToLeaves orch ! i) ch) \<union> (if i = r \<and> P ch then {l} else {})))"

lemma adds_leaf_wf:
  assumes "adds_leaf r A C B P orch orch'" "idx_wf n orch" "snd (leaf_add x f (leafStore orch)) = leafStore orch'"
    and "length (toCheckLeaves orch') = n" "length (containerToLeaves orch') = n" "length (objectToLeaves orch') = n" "length (containerObjectToLeaves orch') = n"
  shows "idx_wf n orch'"
proof -
  let ?L = "length (leaves (leafStore orch))"
  have store: "leaves (leafStore orch') = leaves (leafStore orch) @ [x]" "filters (leafStore orch') = filters (leafStore orch) @ [f]"
    using assms(3) by (simp_all add: leaf_add_def flip: assms(3))
  note add = assms(1)[unfolded adds_leaf_def Let_def]
  show ?thesis using assms(2,4-7) add unfolding idx_wf_def store by (auto simp: subset_eq less_Suc_eq)
qed

lemma filtered_grow:
  assumes "S' = S \<union> (if b then {n :: nat} else {})" "\<And>l. l \<in> S \<Longrightarrow> l < n" "\<And>l. l < n \<Longrightarrow> F' l = F l" "F' n = f"
  shows "{l \<in> S'. passes (F' l) ch} = {l \<in> S. passes (F l) ch} \<union> (if b \<and> passes f ch then {n} else {})"
proof -
  have "{l \<in> S. passes (F' l) ch} = {l \<in> S. passes (F l) ch}" using assms(2,3) by auto
  then show ?thesis using assms(1,4) by (cases b) (auto split: if_splits)
qed

lemma union_grow:
  "(T \<union> (if A then {n} else {})) \<union> (\<Union>ch \<in> S. (p ch \<union> (if P ch then {n} else {})) \<union> (c ch \<union> (if C ch then {n} else {})) \<union> (b ch \<union> (if B ch then {n} else {})))
    = (T \<union> (\<Union>ch \<in> S. p ch \<union> c ch \<union> b ch)) \<union> (if A \<or> (\<exists>ch \<in> S. P ch \<or> C ch \<or> B ch) then {n} else {})"
  by (auto split: if_splits)

lemma adds_leaf_hits:
  assumes add: "adds_leaf r A C B P orch orch'" and "idx_wf n orch" "snd (leaf_add x f (leafStore orch)) = leafStore orch'" "i < n"
  shows "hit_ids orch' i chs = hit_ids orch i chs \<union>
    (if (i = r \<and> A) \<or> (\<exists>ch \<in> set chs. (i = r \<and> P ch) \<or> (i = r \<and> C (chContainer ch)) \<and> passes f ch \<or> (i = r \<and> B (chObject ch)) \<and> passes f ch)
     then {length (leaves (leafStore orch))} else {})"
proof -
  let ?L = "length (leaves (leafStore orch))" let ?F = "\<lambda>l. filters (leafStore orch) ! l" let ?F' = "\<lambda>l. filters (leafStore orch') ! l"
  have fl: "filters (leafStore orch') = filters (leafStore orch) @ [f]" using assms(3) by (simp add: leaf_add_def flip: assms(3))
  have len: "length (filters (leafStore orch)) = ?L" using assms(2) by (simp add: idx_wf_def)
  have old: "?F' l = ?F l" if "l < ?L" for l using that len by (simp add: fl nth_append)
  have new: "?F' ?L = f" using len by (simp add: fl nth_append)
  have bnd: "l \<in> set (get_ref_default (containerToLeaves orch ! i) k []) \<Longrightarrow> l < ?L"
      "l \<in> set (get_ref_default (objectToLeaves orch ! i) k []) \<Longrightarrow> l < ?L" for l k
    using assms(2,4) unfolding idx_wf_def by blast+
  have t: "set (toCheckLeaves orch' ! i) = set (toCheckLeaves orch ! i) \<union> (if i = r \<and> A then {?L} else {})"
      "set (get_ref_default (containerToLeaves orch' ! i) k []) = set (get_ref_default (containerToLeaves orch ! i) k []) \<union> (if i = r \<and> C k then {?L} else {})"
      "set (get_ref_default (objectToLeaves orch' ! i) k []) = set (get_ref_default (objectToLeaves orch ! i) k []) \<union> (if i = r \<and> B k then {?L} else {})"
      "set (pair_leaves (containerObjectToLeaves orch' ! i) ch) = set (pair_leaves (containerObjectToLeaves orch ! i) ch) \<union> (if i = r \<and> P ch then {?L} else {})" for k ch
    using add unfolding adds_leaf_def Let_def by blast+
  have c: "{l \<in> set (get_ref_default (containerToLeaves orch' ! i) k []). passes (?F' l) ch}
      = {l \<in> set (get_ref_default (containerToLeaves orch ! i) k []). passes (?F l) ch} \<union> (if (i = r \<and> C k) \<and> passes f ch then {?L} else {})" for k ch
    by (rule filtered_grow[OF t(2)]) (auto intro: bnd old new)
  have b: "{l \<in> set (get_ref_default (objectToLeaves orch' ! i) k []). passes (?F' l) ch}
      = {l \<in> set (get_ref_default (objectToLeaves orch ! i) k []). passes (?F l) ch} \<union> (if (i = r \<and> B k) \<and> passes f ch then {?L} else {})" for k ch
    by (rule filtered_grow[OF t(3)]) (auto intro: bnd old new)
  show ?thesis unfolding hit_ids_def c b t(1,4) by (rule union_grow)
qed

lemma push_at_root_nth: "r < length ms \<Longrightarrow> push_at_root r f ms ! i = (if i = r then f (ms ! i) else ms ! i)"
  by (auto simp: push_at_root_def)

lemma push_at_root_length [simp]: "length (push_at_root r f ms) = length ms"
  by (simp add: push_at_root_def)

lemma initChangeInfo_step:
  assumes wf: "idx_wf n orch" and r: "r < n" and a: "well_described a"
  shows "\<exists>orch'. initChangeInfo (Some a) r x orch = Inr orch' \<and> idx_wf n orch' \<and> keeps_graph orch orch'
    \<and> leaves (leafStore orch') = leaves (leafStore orch) @ [x]
    \<and> (\<forall>i < n. \<forall>chs. hit_ids orch' i chs = hit_ids orch i chs \<union> (if i = r \<and> hits a chs then {length (leaves (leafStore orch))} else {}))"
proof -
  have len: "length (toCheckLeaves orch) = n" "length (containerToLeaves orch) = n" "length (objectToLeaves orch) = n"
      "length (containerObjectToLeaves orch) = n" using wf by (simp_all add: idx_wf_def)
  let ?l = "length (leaves (leafStore orch))"
  let ?o = "orch\<lparr>leafStore := snd (leaf_add x (abcFilter a) (leafStore orch))\<rparr>"
  have fin: ?thesis if res: "initChangeInfo (Some a) r x orch = Inr orch'" and add: "adds_leaf r A C B P orch orch'"
      and st: "snd (leaf_add x (abcFilter a) (leafStore orch)) = leafStore orch'"
      and ls: "length (toCheckLeaves orch') = n" "length (containerToLeaves orch') = n" "length (objectToLeaves orch') = n" "length (containerObjectToLeaves orch') = n"
      and kg: "keeps_graph orch orch'"
      and hit: "\<And>chs. (A \<or> (\<exists>ch \<in> set chs. P ch \<or> (C (chContainer ch) \<or> B (chObject ch)) \<and> passes (abcFilter a) ch)) = hits a chs" for orch' A C B P
  proof -
    have "leaves (leafStore orch') = leaves (leafStore orch) @ [x]" by (simp add: leaf_add_def flip: st)
    moreover have "((i = r \<and> A) \<or> (\<exists>ch \<in> set chs. (i = r \<and> P ch) \<or> (i = r \<and> C (chContainer ch)) \<and> passes (abcFilter a) ch \<or> (i = r \<and> B (chObject ch)) \<and> passes (abcFilter a) ch))
        = (i = r \<and> hits a chs)" for i chs using hit[of chs] by auto
    ultimately show ?thesis using res adds_leaf_wf[OF add wf st ls] kg adds_leaf_hits[OF add wf st] by simp
  qed
  consider "affectedByAllChanges a" | cs obs where "\<not> affectedByAllChanges a" "abcContainers a = Some cs" "abcObjects a = Some obs"
    | cs where "\<not> affectedByAllChanges a" "abcContainers a = Some cs" "abcObjects a = None"
    | obs where "\<not> affectedByAllChanges a" "abcContainers a = None" "abcObjects a = Some obs"
    using a unfolding well_described_def by (cases "abcContainers a"; cases "abcObjects a") auto
  then show ?thesis
  proof cases
    case 1
    show ?thesis
      by (rule fin[where orch' = "?o\<lparr>toCheckLeaves := push_at_root r (\<lambda>l. l @ [?l]) (toCheckLeaves ?o)\<rparr>" and A = True and C = "\<lambda>_. False" and B = "\<lambda>_. False" and P = "\<lambda>_. False"])
        (use 1 len r in \<open>auto simp: initChangeInfo_def abc_getType_def leaf_add_def adds_leaf_def push_at_root_nth keeps_graph_def hits_def Let_def\<close>)
  next
    case (2 cs obs)
    show ?thesis
      by (rule fin[where orch' = "?o\<lparr>containerObjectToLeaves := push_at_root r (fold (\<lambda>c. fold (\<lambda>ob. push_pair c ob ?l) obs) cs) (containerObjectToLeaves ?o)\<rparr>"
            and A = False and C = "\<lambda>_. False" and B = "\<lambda>_. False" and P = "\<lambda>ch. chContainer ch \<in> set cs \<and> chObject ch \<in> set obs"])
        (use 2 len r in \<open>auto simp: initChangeInfo_def abc_getType_def abc_getContainers_def abc_getObjects_def leaf_add_def adds_leaf_def push_at_root_nth
            fold_push_pair keeps_graph_def hits_def Let_def split: if_splits\<close>)
  next
    case (3 cs)
    show ?thesis
      by (rule fin[where orch' = "?o\<lparr>containerToLeaves := push_at_root r (fold (\<lambda>c. push_back_at c ?l) cs) (containerToLeaves ?o)\<rparr>"
            and A = False and C = "\<lambda>k. k \<in> set cs" and B = "\<lambda>_. False" and P = "\<lambda>_. False"])
        (use 3 len r in \<open>auto simp: initChangeInfo_def abc_getType_def abc_getContainers_def leaf_add_def adds_leaf_def push_at_root_nth
            fold_push_get keeps_graph_def hits_def Let_def split: if_splits\<close>)
  next
    case (4 obs)
    show ?thesis
      by (rule fin[where orch' = "?o\<lparr>objectToLeaves := push_at_root r (fold (\<lambda>ob. push_back_at ob ?l) obs) (objectToLeaves ?o)\<rparr>"
            and A = False and C = "\<lambda>_. False" and B = "\<lambda>k. k \<in> set obs" and P = "\<lambda>_. False"])
        (use 4 len r in \<open>auto simp: initChangeInfo_def abc_getType_def abc_getObjects_def leaf_add_def adds_leaf_def push_at_root_nth
            fold_push_get keeps_graph_def hits_def Let_def split: if_splits\<close>)
  qed
qed

text \<open>Every node is described by a well-formed description or by none.\<close>

definition described :: "(ExprId \<Rightarrow> AffectedByChange option result) \<Rightarrow> ExprId set \<Rightarrow> bool" where
  "described isAffectedByChange X \<longleftrightarrow> (\<forall>x \<in> X. isAffectedByChange x = Inr None \<or> (\<exists>a. isAffectedByChange x = Inr (Some a) \<and> well_described a))"

definition affected_in :: "(ExprId \<Rightarrow> AffectedByChange option result) \<Rightarrow> Change list \<Rightarrow> ExprId set \<Rightarrow> ExprId set" where
  "affected_in isAffectedByChange chs X = {x \<in> X. \<exists>a. isAffectedByChange x = Inr (Some a) \<and> hits a chs}"

lemma affected_in_simps [simp]:
  "affected_in f chs {} = {}" "affected_in f chs (A \<union> B) = affected_in f chs A \<union> affected_in f chs B"
  "affected_in f chs (\<Union>i \<in> I. G i) = (\<Union>i \<in> I. affected_in f chs (G i))"
  by (auto simp: affected_in_def)

lemma keeps_graph_trans: "keeps_graph o1 o2 \<Longrightarrow> keeps_graph o2 o3 \<Longrightarrow> keeps_graph o1 o3"
  unfolding keeps_graph_def by simp

lemma node_hits_snoc:
  assumes "idx_wf n orch" "i < n" "leaves (leafStore orch') = leaves (leafStore orch) @ [x]"
    and "hit_ids orch' i chs = hit_ids orch i chs \<union> (if b then {length (leaves (leafStore orch))} else {})"
  shows "node_hits orch' i chs = node_hits orch i chs \<union> (if b then {x} else {})"
proof -
  have "(\<lambda>l. leaves (leafStore orch') ! l) ` hit_ids orch i chs = (\<lambda>l. leaves (leafStore orch) ! l) ` hit_ids orch i chs"
    using hit_ids_bound[OF assms(1,2), of chs] by (intro image_cong) (auto simp: assms(3) nth_append)
  then show ?thesis using assms(4) by (auto simp: node_hits_def image_Un assms(3))
qed

lemma index_node:
  assumes "idx_wf n orch" "r < n" "described isA {x}" "set (leaves (leafStore orch)) \<subseteq> X" "x \<in> X"
  shows "\<exists>orch'. bindE (isA x) (\<lambda>info. initChangeInfo info r x orch) = Inr orch' \<and> idx_wf n orch' \<and> keeps_graph orch orch'
    \<and> set (leaves (leafStore orch')) \<subseteq> X
    \<and> (\<forall>i < n. \<forall>chs. node_hits orch' i chs = node_hits orch i chs \<union> (if i = r then affected_in isA chs {x} else {}))"
proof (cases "isA x = Inr None")
  case True
  then have "affected_in isA chs {x} = {}" for chs by (auto simp: affected_in_def)
  then show ?thesis using True assms by (simp add: initChangeInfo_def keeps_graph_def)
next
  case False
  then obtain a where a: "isA x = Inr (Some a)" "well_described a" using assms(3) by (auto simp: described_def)
  obtain orch' where o: "initChangeInfo (Some a) r x orch = Inr orch'" "idx_wf n orch'" "keeps_graph orch orch'"
      "leaves (leafStore orch') = leaves (leafStore orch) @ [x]"
      "\<forall>i < n. \<forall>chs. hit_ids orch' i chs = hit_ids orch i chs \<union> (if i = r \<and> hits a chs then {length (leaves (leafStore orch))} else {})"
    using initChangeInfo_step[OF assms(1,2) a(2), of x] by blast
  have "node_hits orch' i chs = node_hits orch i chs \<union> (if i = r \<and> hits a chs then {x} else {})" if "i < n" for i chs
    using o(5) that by (intro node_hits_snoc[OF assms(1) that o(4)]) blast
  moreover have "affected_in isA chs {x} = (if hits a chs then {x} else {})" for chs using a(1) by (auto simp: affected_in_def)
  ultimately show ?thesis using o(1-4) a(1) assms(4,5) by auto
qed

lemma index_nodes:
  "idx_wf n orch \<Longrightarrow> r < n \<Longrightarrow> described isA (set (postOrder orch)) \<Longrightarrow> set (leaves (leafStore orch)) \<subseteq> set (postOrder orch) \<Longrightarrow> \<forall>j \<in> set js. j < length (postOrder orch) \<Longrightarrow>
   \<exists>orch'. foldE (\<lambda>j orch. bindE (vec_at (postOrder orch) j) (\<lambda>node. bindE (isA node) (\<lambda>info. initChangeInfo info r node orch))) js orch = Inr orch'
     \<and> idx_wf n orch' \<and> keeps_graph orch orch' \<and> set (leaves (leafStore orch')) \<subseteq> set (postOrder orch)
     \<and> (\<forall>i < n. \<forall>chs. node_hits orch' i chs = node_hits orch i chs \<union> (if i = r then affected_in isA chs ((\<lambda>j. postOrder orch ! j) ` set js) else {}))"
proof (induction js arbitrary: orch)
  case Nil
  then show ?case by (simp add: keeps_graph_def)
next
  case (Cons j js)
  let ?x = "postOrder orch ! j"
  have x: "?x \<in> set (postOrder orch)" using Cons.prems(5) by simp
  then have d: "described isA {?x}" using Cons.prems(3) by (simp add: described_def)
  obtain o1 where o1: "bindE (isA ?x) (\<lambda>info. initChangeInfo info r ?x orch) = Inr o1" "idx_wf n o1" "keeps_graph orch o1"
      "set (leaves (leafStore o1)) \<subseteq> set (postOrder orch)"
      "\<forall>i < n. \<forall>chs. node_hits o1 i chs = node_hits orch i chs \<union> (if i = r then affected_in isA chs {?x} else {})"
    using index_node[OF Cons.prems(1,2) d Cons.prems(4) x] by blast
  have po: "postOrder o1 = postOrder orch" using o1(3) by (simp add: keeps_graph_def)
  obtain o2 where o2: "foldE (\<lambda>j orch. bindE (vec_at (postOrder orch) j) (\<lambda>node. bindE (isA node) (\<lambda>info. initChangeInfo info r node orch))) js o1 = Inr o2"
      "idx_wf n o2" "keeps_graph o1 o2" "set (leaves (leafStore o2)) \<subseteq> set (postOrder orch)"
      "\<forall>i < n. \<forall>chs. node_hits o2 i chs = node_hits o1 i chs \<union> (if i = r then affected_in isA chs ((\<lambda>j. postOrder orch ! j) ` set js) else {})"
    using Cons.IH[of o1] o1 Cons.prems by (auto simp: po)
  have "affected_in isA chs ((\<lambda>j. postOrder orch ! j) ` set (j # js)) = affected_in isA chs {?x} \<union> affected_in isA chs ((\<lambda>j. postOrder orch ! j) ` set js)" for chs
    by (simp flip: affected_in_simps(2))
  moreover have "vec_at (postOrder orch) j = Inr ?x" using Cons.prems(5) by (simp add: vec_at_def)
  ultimately show ?case using o1 o2 keeps_graph_trans[OF o1(3) o2(3)] by auto
qed

lemma idx_extend:
  assumes "idx_wf n orch"
    and "orch' = orch\<lparr>toCheckLeaves := toCheckLeaves orch @ [[]], containerToLeaves := containerToLeaves orch @ [[]],
           objectToLeaves := objectToLeaves orch @ [[]], containerObjectToLeaves := containerObjectToLeaves orch @ [[]]\<rparr>"
  shows "idx_wf (Suc n) orch'" "keeps_graph orch orch'" "leafStore orch' = leafStore orch"
    "node_hits orch' i chs = (if i < n then node_hits orch i chs else if i = n then {} else node_hits orch' i chs)"
proof -
  have len: "length (toCheckLeaves orch) = n" "length (containerToLeaves orch) = n" "length (objectToLeaves orch) = n"
      "length (containerObjectToLeaves orch) = n" using assms(1) by (simp_all add: idx_wf_def)
  show "idx_wf (Suc n) orch'" using assms by (auto simp: idx_wf_def nth_append less_Suc_eq get_ref_default_def pair_leaves_def)
  show "keeps_graph orch orch'" "leafStore orch' = leafStore orch" by (simp_all add: assms(2) keeps_graph_def)
  have "hit_ids orch' i chs = hit_ids orch i chs" if "i < n" using that len by (simp add: hit_ids_def assms(2) nth_append)
  moreover have "hit_ids orch' n chs = {}" using len by (simp add: hit_ids_def assms(2) nth_append pair_leaves_def get_ref_default_def)
  ultimately show "node_hits orch' i chs = (if i < n then node_hits orch i chs else if i = n then {} else node_hits orch' i chs)"
    by (simp add: node_hits_def assms(2))
qed

lemma initIndex_loop:
  assumes "described isA (set (postOrder orch))" "idx_wf 0 orch" "leafStore orch = \<lparr>leaves = [], filters = []\<rparr>"
    and "root_ranges orch rng"
  shows "m < length rng \<Longrightarrow> \<exists>orch'. foldE (index_root isA rng) [0 ..< m] orch = Inr orch' \<and> idx_wf m orch' \<and> keeps_graph orch orch'
    \<and> set (leaves (leafStore orch')) \<subseteq> set (postOrder orch)
    \<and> (\<forall>i < m. \<forall>chs. node_hits orch' i chs = affected_in isA chs ((\<lambda>j. postOrder orch ! j) ` {rng ! i ..< rng ! Suc i}))"
proof (induction m)
  case 0
  then show ?case using assms by (simp add: keeps_graph_def)
next
  case (Suc m)
  then obtain o1 where o1: "foldE (index_root isA rng) [0 ..< m] orch = Inr o1" "idx_wf m o1" "keeps_graph orch o1"
      "set (leaves (leafStore o1)) \<subseteq> set (postOrder orch)"
      "\<forall>i < m. \<forall>chs. node_hits o1 i chs = affected_in isA chs ((\<lambda>j. postOrder orch ! j) ` {rng ! i ..< rng ! Suc i})" by auto
  define o2 where "o2 = o1\<lparr>toCheckLeaves := toCheckLeaves o1 @ [[]], containerToLeaves := containerToLeaves o1 @ [[]],
           objectToLeaves := objectToLeaves o1 @ [[]], containerObjectToLeaves := containerObjectToLeaves o1 @ [[]]\<rparr>"
  note ext = idx_extend[OF o1(2) o2_def]
  have po: "postOrder o2 = postOrder orch" using o1(3) ext(2) by (simp add: keeps_graph_def)
  have "rng ! Suc m \<le> length (postOrder orch)"
    using assms(4) Suc.prems sorted_le_last[of rng "rng ! Suc m"] by (simp add: root_ranges_def)
  then have js: "\<forall>j \<in> set [rng ! m ..< rng ! Suc m]. j < length (postOrder o2)" by (simp add: po)
  obtain o3 where o3: "foldE (\<lambda>j orch. bindE (vec_at (postOrder orch) j) (\<lambda>node. bindE (isA node) (\<lambda>info. initChangeInfo info m node orch))) [rng ! m ..< rng ! Suc m] o2 = Inr o3"
      "idx_wf (Suc m) o3" "keeps_graph o2 o3" "set (leaves (leafStore o3)) \<subseteq> set (postOrder orch)"
      "\<forall>i < Suc m. \<forall>chs. node_hits o3 i chs = node_hits o2 i chs \<union> (if i = m then affected_in isA chs ((\<lambda>j. postOrder orch ! j) ` set [rng ! m ..< rng ! Suc m]) else {})"
    using index_nodes[OF ext(1) _ _ _ js, of m isA] assms(1) o1(4) by (auto simp: po ext(3))
  have "index_root isA rng m o1 = Inr o3" using o3(1) by (simp add: index_root_def o2_def)
  moreover have "node_hits o3 i chs = affected_in isA chs ((\<lambda>j. postOrder orch ! j) ` {rng ! i ..< rng ! Suc i})" if "i < Suc m" for i chs
    using o3(5) o1(5) that ext(4)[of i chs] by (cases "i = m") auto
  ultimately show ?case using o1(1,3) o3(2-4) keeps_graph_trans[OF _ keeps_graph_trans[OF ext(2) o3(3)]]
    by (auto simp: foldE_append)
qed

lemma ranges_cover:
  assumes "rng \<noteq> []" "hd rng \<le> (j :: nat)" "j < last rng"
  shows "\<exists>i. Suc i < length rng \<and> rng ! i \<le> j \<and> j < rng ! Suc i"
  using assms
proof (induction rng)
  case (Cons a rng)
  then show ?case
  proof (cases "rng \<noteq> [] \<and> hd rng \<le> j")
    case True
    then obtain i where "Suc i < length rng" "rng ! i \<le> j" "j < rng ! Suc i" using Cons by auto
    then show ?thesis by (intro exI[of _ "Suc i"]) simp
  next
    case False
    then show ?thesis using Cons.prems by (intro exI[of _ 0]) (auto simp: hd_conv_nth split: if_splits)
  qed
qed simp

lemma root_ranges_cover:
  assumes "root_ranges orch rng" "length rng = Suc n"
  shows "(\<Union>i \<in> {..< n}. (\<lambda>j. postOrder orch ! j) ` {rng ! i ..< rng ! Suc i}) = set (postOrder orch)"
proof
  have "rng ! Suc i \<le> length (postOrder orch)" if "i < n" for i
    using assms that sorted_le_last[of rng "rng ! Suc i"] by (simp add: root_ranges_def)
  then show "(\<Union>i \<in> {..< n}. (\<lambda>j. postOrder orch ! j) ` {rng ! i ..< rng ! Suc i}) \<subseteq> set (postOrder orch)" by fastforce
  show "set (postOrder orch) \<subseteq> (\<Union>i \<in> {..< n}. (\<lambda>j. postOrder orch ! j) ` {rng ! i ..< rng ! Suc i})"
  proof
    fix x assume "x \<in> set (postOrder orch)"
    then obtain j where j: "j < length (postOrder orch)" "x = postOrder orch ! j" by (auto simp: in_set_conv_nth)
    then obtain i where "Suc i < length rng" "rng ! i \<le> j" "j < rng ! Suc i"
      using ranges_cover[of rng j] assms by (auto simp: root_ranges_def)
    then show "x \<in> (\<Union>i \<in> {..< n}. (\<lambda>j. postOrder orch ! j) ` {rng ! i ..< rng ! Suc i})"
      using j(2) assms(2) by (intro UN_I[of i]) auto
  qed
qed

lemma initIndex_ok:
  assumes "described isA (set (postOrder orch))" "idx_wf 0 orch" "leafStore orch = \<lparr>leaves = [], filters = []\<rparr>"
    and "root_ranges orch rng" "length rng = Suc (length (roots orch))"
  shows "\<exists>orch'. initIndex isA rng orch = Inr orch' \<and> idx_wf (length (roots orch)) orch' \<and> keeps_graph orch orch'
    \<and> set (leaves (leafStore orch')) \<subseteq> set (postOrder orch)
    \<and> (\<forall>chs. (\<Union>i \<in> {..< length (roots orch)}. node_hits orch' i chs) = affected_in isA chs (set (postOrder orch)))"
proof -
  obtain orch' where o: "foldE (index_root isA rng) [0 ..< length (roots orch)] orch = Inr orch'" "idx_wf (length (roots orch)) orch'"
      "keeps_graph orch orch'" "set (leaves (leafStore orch')) \<subseteq> set (postOrder orch)"
      "\<forall>i < length (roots orch). \<forall>chs. node_hits orch' i chs = affected_in isA chs ((\<lambda>j. postOrder orch ! j) ` {rng ! i ..< rng ! Suc i})"
    using initIndex_loop[OF assms(1-4), of "length (roots orch)"] assms(5) by auto
  have "(\<Union>i \<in> {..< length (roots orch)}. node_hits orch' i chs) = affected_in isA chs (set (postOrder orch))" for chs
    using o(5) by (simp flip: root_ranges_cover[OF assms(4,5)])
  then show ?thesis using o(1-4) by (simp add: initIndex_def)
qed

end
