(* ===== verification/Changed_Leaves.thy ===== *)
theory Changed_Leaves
  imports Change_Index
begin

text \<open>
  The query side of the leaf index (\<open>solver/expressions/Orchestrator.cpp\<close>:
  \<open>computeChangedLeavesByRoot\<close>, \<open>computeAllChangedLeaves\<close>): the leaves that a
  change set affects enter the queue of ready nodes under their priority.
\<close>

section \<open>Definitions: the leaves a change set affects\<close>

type_synonym ReadyNodes = "(PriorityInfo, ExprId) BucketedPriorityQueue"

definition processLeaf :: "Orchestrator \<Rightarrow> bool \<Rightarrow> LeafId \<Rightarrow> LeafId set \<times> ReadyNodes \<Rightarrow> (LeafId set \<times> ReadyNodes) result" where
  "processLeaf orch shouldDedupeLeaves leafId = (\<lambda>(seen, q).
     let isNew = (\<not> shouldDedupeLeaves \<or> leafId \<notin> seen);
         seen' = (if shouldDedupeLeaves then insert leafId seen else seen)
     in if isNew
        then bindE (leaf_at (leafStore orch) leafId) (\<lambda>leaf.
             bindE (priority orch leaf) (\<lambda>p. Inr (seen', bpq_emplace priority_gt p leaf q)))
        else Inr (seen', q))"

definition processFilteredLeaves :: "Orchestrator \<Rightarrow> bool \<Rightarrow> LeafId list \<Rightarrow> Change list \<Rightarrow> LeafId set \<times> ReadyNodes \<Rightarrow> (LeafId set \<times> ReadyNodes) result" where
  "processFilteredLeaves orch dedupe leafIds chs =
    foldE (\<lambda>leafId st. bindE (leaf_filter (leafStore orch) leafId) (\<lambda>f.
      if (case f of None \<Rightarrow> True | Some g \<Rightarrow> list_ex g chs) then processLeaf orch dedupe leafId st else Inr st)) leafIds"

definition computeChangedLeavesByRoot :: "Orchestrator \<Rightarrow> ChangeSet option \<Rightarrow> nat \<Rightarrow> ReadyNodes \<Rightarrow> ReadyNodes result" where
  "computeChangedLeavesByRoot orch chs rootId q =
    (let dedupe = (case chs of None \<Rightarrow> False | Some cs \<Rightarrow> \<not> cs_empty cs \<and> \<not> representsSingleMove cs) in
     bindE (foldE (processLeaf orch dedupe) (toCheckLeaves orch ! rootId) ({}, q)) (\<lambda>st0.
     case chs of None \<Rightarrow> Inr (snd st0)
     | Some cs \<Rightarrow>
       bindE (foldE (\<lambda>(container, cchanges) st.
                case map_of (containerObjectToLeaves orch ! rootId) container of
                  None \<Rightarrow> Inr st
                | Some m \<Rightarrow> foldE (\<lambda>ch. foldE (processLeaf orch dedupe) (get_ref_default m (chObject ch) [])) cchanges st)
              (containerToChanges cs) st0) (\<lambda>st1.
       bindE (foldE (\<lambda>container. processFilteredLeaves orch dedupe (get_ref_default (containerToLeaves orch ! rootId) container [])
                (getChangesByContainer cs container)) (getContainersInChangeSet cs) st1) (\<lambda>st2.
       bindE (foldE (\<lambda>object. processFilteredLeaves orch dedupe (get_ref_default (objectToLeaves orch ! rootId) object [])
                (getChangesByObject cs object)) (getObjectsInChangeSet cs) st2) (\<lambda>st3. Inr (snd st3))))))"

definition computeAllChangedLeaves :: "Orchestrator \<Rightarrow> ChangeSet option \<Rightarrow> ReadyNodes \<Rightarrow> ReadyNodes result" where
  "computeAllChangedLeaves orch chs q = foldE (computeChangedLeavesByRoot orch chs) [0 ..< length (roots orch)] q"

section \<open>The leaves put into the queue\<close>

lemma foldE_grow:
  assumes "\<And>x st A. x \<in> set xs \<Longrightarrow> P st A \<Longrightarrow> \<exists>st'. f x st = Inr st' \<and> P st' (A \<union> g x)"
  shows "P st A \<Longrightarrow> \<exists>st'. foldE f xs st = Inr st' \<and> P st' (A \<union> (\<Union>x \<in> set xs. g x))"
  using assms
proof (induction xs arbitrary: st A)
  case (Cons x xs)
  then obtain st1 where st1: "f x st = Inr st1" "P st1 (A \<union> g x)" by (metis list.set_intros(1))
  then obtain st2 where "foldE f xs st1 = Inr st2" "P st2 (A \<union> g x \<union> (\<Union>x \<in> set xs. g x))"
    using Cons.IH[OF st1(2)] Cons.prems(2) by auto
  then show ?case using st1(1) by (auto simp: Un_assoc)
qed simp

definition queue_holds :: "Orchestrator \<Rightarrow> ReadyNodes \<Rightarrow> ExprId set \<Rightarrow> bool" where
  "queue_holds orch q A \<longleftrightarrow> bpq_ok priority_gt q \<and> (\<forall>(p, x) \<in> set (bpq_items q). nodeToPriority orch x = Some p) \<and> snd ` set (bpq_items q) = A"

definition queued :: "Orchestrator \<Rightarrow> LeafId set \<times> ReadyNodes \<Rightarrow> ExprId set \<Rightarrow> bool" where
  "queued orch st A \<longleftrightarrow> queue_holds orch (snd st) A \<and> (\<lambda>l. leaves (leafStore orch) ! l) ` fst st \<subseteq> A"

lemma queue_holds_emplace:
  assumes "queue_holds orch q A" "nodeToPriority orch x = Some p"
  shows "queue_holds orch (bpq_emplace priority_gt p x q) (insert x A)"
  using assms pri.bpq_emplace_ok[of p q x] pri.bpq_emplace_items[of p q x] unfolding queue_holds_def by auto

definition ready_leaves :: "Orchestrator \<Rightarrow> bool" where
  "ready_leaves orch \<longleftrightarrow> set (leaves (leafStore orch)) \<subseteq> dom (nodeToPriority orch) \<and> length (filters (leafStore orch)) = length (leaves (leafStore orch))"

lemma processLeaf_ok:
  assumes "ready_leaves orch" "l < length (leaves (leafStore orch))" "queued orch st A"
  shows "\<exists>st'. processLeaf orch dd l st = Inr st' \<and> queued orch st' (A \<union> {leaves (leafStore orch) ! l})"
proof -
  obtain seen q where st: "st = (seen, q)" by (cases st)
  let ?x = "leaves (leafStore orch) ! l"
  obtain p where p: "nodeToPriority orch ?x = Some p" using assms(1,2) nth_mem unfolding ready_leaves_def by blast
  note emp = queue_holds_emplace[OF _ p, of q A]
  show ?thesis
  proof (cases "dd \<and> l \<in> seen")
    case True
    then have "?x \<in> A" using assms(3) st by (auto simp: queued_def)
    then show ?thesis using True assms(3) st by (simp add: processLeaf_def insert_absorb)
  next
    case False
    then show ?thesis using assms(2,3) st p emp by (auto simp: processLeaf_def queued_def leaf_at_def priority_def)
  qed
qed

lemma processLeaves_ok:
  assumes "ready_leaves orch" "set ls \<subseteq> {..< length (leaves (leafStore orch))}" "queued orch st A"
  shows "\<exists>st'. foldE (processLeaf orch dd) ls st = Inr st' \<and> queued orch st' (A \<union> (\<lambda>l. leaves (leafStore orch) ! l) ` set ls)"
proof -
  have "\<exists>st'. foldE (processLeaf orch dd) ls st = Inr st' \<and> queued orch st' (A \<union> (\<Union>l \<in> set ls. {leaves (leafStore orch) ! l}))"
    by (rule foldE_grow[where P = "queued orch", OF _ assms(3)]) (use assms(1,2) processLeaf_ok in blast)
  then show ?thesis by (simp add: UNION_singleton_eq_range)
qed

lemma processFilteredLeaves_ok:
  assumes "ready_leaves orch" "set ls \<subseteq> {..< length (leaves (leafStore orch))}" "queued orch st A" "chs \<noteq> []"
  shows "\<exists>st'. processFilteredLeaves orch dd ls chs st = Inr st'
    \<and> queued orch st' (A \<union> (\<lambda>l. leaves (leafStore orch) ! l) ` {l \<in> set ls. \<exists>ch \<in> set chs. passes (filters (leafStore orch) ! l) ch})"
proof -
  let ?g = "\<lambda>l. if \<exists>ch \<in> set chs. passes (filters (leafStore orch) ! l) ch then {leaves (leafStore orch) ! l} else {}"
  have cond: "(case f of None \<Rightarrow> True | Some g \<Rightarrow> list_ex g chs) \<longleftrightarrow> (\<exists>ch \<in> set chs. passes f ch)" for f
    using assms(4) by (cases f) (auto simp: passes_def list_ex_iff neq_Nil_conv)
  have "\<exists>st'. processFilteredLeaves orch dd ls chs st = Inr st' \<and> queued orch st' (A \<union> (\<Union>l \<in> set ls. ?g l))"
    unfolding processFilteredLeaves_def cond
  proof (rule foldE_grow[where P = "queued orch", OF _ assms(3)])
    fix l st A assume l: "l \<in> set ls" and q: "queued orch st A"
    have lt: "l < length (leaves (leafStore orch))" using l assms(2) by blast
    show "\<exists>st'. bindE (leaf_filter (leafStore orch) l) (\<lambda>f. if \<exists>ch \<in> set chs. passes f ch then processLeaf orch dd l st else Inr st) = Inr st'
        \<and> queued orch st' (A \<union> ?g l)"
      using processLeaf_ok[OF assms(1) lt q, of dd] q lt assms(1)
      by (cases "\<exists>ch \<in> set chs. passes (filters (leafStore orch) ! l) ch") (simp_all add: leaf_filter_def ready_leaves_def)
  qed
  moreover have "(\<Union>l \<in> set ls. ?g l) = (\<lambda>l. leaves (leafStore orch) ! l) ` {l \<in> set ls. \<exists>ch \<in> set chs. passes (filters (leafStore orch) ! l) ch}"
    by auto
  ultimately show ?thesis by simp
qed

lemma index_of_set: "index_of key chs m \<Longrightarrow> set m = (\<lambda>k. (k, filter (\<lambda>c. key c = k) chs)) ` key ` set chs"
proof -
  assume i: "index_of key chs m"
  have "(k, v) \<in> set m \<longleftrightarrow> map_of m k = Some v" for k v using i unfolding index_of_def by (metis map_of_eq_Some_iff)
  then show ?thesis using i by (auto simp: index_of_def split: if_splits)
qed

lemma filtered_stage:
  assumes "ready_leaves orch" "index_of key chs m" "\<And>k. set (get_ref_default tbl k []) \<subseteq> {..< length (leaves (leafStore orch))}" "queued orch st A"
  shows "\<exists>st'. foldE (\<lambda>k. processFilteredLeaves orch dd (get_ref_default tbl k []) (get_ref_default m k [])) (map fst m) st = Inr st'
    \<and> queued orch st' (A \<union> (\<lambda>l. leaves (leafStore orch) ! l) ` (\<Union>ch \<in> set chs. {l \<in> set (get_ref_default tbl (key ch) []). passes (filters (leafStore orch) ! l) ch}))"
proof -
  let ?g = "\<lambda>k. (\<lambda>l. leaves (leafStore orch) ! l) ` {l \<in> set (get_ref_default tbl k []). \<exists>ch \<in> set (get_ref_default m k []). passes (filters (leafStore orch) ! l) ch}"
  have ne: "get_ref_default m k [] \<noteq> []" if "k \<in> set (map fst m)" for k
    using that index_of_keys[OF assms(2)] by (auto simp: index_of_get[OF assms(2)] filter_empty_conv)
  have "\<exists>st'. foldE (\<lambda>k. processFilteredLeaves orch dd (get_ref_default tbl k []) (get_ref_default m k [])) (map fst m) st = Inr st'
      \<and> queued orch st' (A \<union> (\<Union>k \<in> set (map fst m). ?g k))"
    by (rule foldE_grow[where P = "queued orch", OF _ assms(4)]) (use processFilteredLeaves_ok[OF assms(1,3) _ ne] in blast)
  moreover have "(\<Union>k \<in> set (map fst m). ?g k)
      = (\<lambda>l. leaves (leafStore orch) ! l) ` (\<Union>ch \<in> set chs. {l \<in> set (get_ref_default tbl (key ch) []). passes (filters (leafStore orch) ! l) ch})"
    using index_of_keys[OF assms(2)] by (fastforce simp: index_of_get[OF assms(2)])
  ultimately show ?thesis by simp
qed

lemma pair_stage:
  assumes "ready_leaves orch" "index_of chContainer chs m" "\<And>ch. set (pair_leaves tbl ch) \<subseteq> {..< length (leaves (leafStore orch))}" "queued orch st A"
  shows "\<exists>st'. foldE (\<lambda>(c, cchanges) st. case map_of tbl c of None \<Rightarrow> Inr st
        | Some mm \<Rightarrow> foldE (\<lambda>ch. foldE (processLeaf orch dd) (get_ref_default mm (chObject ch) [])) cchanges st) m st = Inr st'
    \<and> queued orch st' (A \<union> (\<lambda>l. leaves (leafStore orch) ! l) ` (\<Union>ch \<in> set chs. set (pair_leaves tbl ch)))"
proof -
  let ?N = "\<lambda>S. (\<lambda>l. leaves (leafStore orch) ! l) ` S"
  let ?f = "\<lambda>(c, cchanges) st. case map_of tbl c of None \<Rightarrow> Inr st
        | Some mm \<Rightarrow> foldE (\<lambda>ch. foldE (processLeaf orch dd) (get_ref_default mm (chObject ch) [])) cchanges st"
  let ?g = "\<lambda>(c, cchanges). \<Union>ch \<in> set cchanges. ?N (set (pair_leaves tbl ch))"
  note st = index_of_set[OF assms(2)]
  have "\<exists>st'. foldE ?f m st = Inr st' \<and> queued orch st' (A \<union> (\<Union>x \<in> set m. ?g x))"
  proof (rule foldE_grow[where P = "queued orch", OF _ assms(4)])
    fix x st B assume x: "x \<in> set m" and q: "queued orch st B"
    from x[unfolded st] obtain c where cc': "x = (c, filter (\<lambda>ch. chContainer ch = c) chs)" by blast
    then obtain c cchs where cc: "x = (c, cchs)" "\<forall>ch \<in> set cchs. chContainer ch = c" by simp
    show "\<exists>st'. ?f x st = Inr st' \<and> queued orch st' (B \<union> ?g x)"
    proof (cases "map_of tbl c")
      case None
      then have "?g x = {}" using cc by (auto simp: pair_leaves_def get_ref_default_def)
      then show ?thesis using None cc(1) q by simp
    next
      case (Some mm)
      then have pl: "get_ref_default mm (chObject ch) [] = pair_leaves tbl ch" if "ch \<in> set cchs" for ch
        using cc(2) that by (simp add: pair_leaves_def get_ref_default_def)
      have "\<exists>st'. foldE (\<lambda>ch. foldE (processLeaf orch dd) (get_ref_default mm (chObject ch) [])) cchs st = Inr st'
          \<and> queued orch st' (B \<union> (\<Union>ch \<in> set cchs. ?N (set (pair_leaves tbl ch))))"
        by (rule foldE_grow[where P = "queued orch", OF _ q]) (use pl processLeaves_ok[OF assms(1,3)] in simp)
      then show ?thesis using Some cc(1) by simp
    qed
  qed
  moreover have "(\<Union>x \<in> set m. ?g x) = ?N (\<Union>ch \<in> set chs. set (pair_leaves tbl ch))" unfolding st by auto
  ultimately show ?thesis by simp
qed

lemma computeChangedLeavesByRoot_ok:
  assumes rl: "ready_leaves orch" and wf: "idx_wf n orch" "i < n" and cs: "case chs of None \<Rightarrow> True | Some cs \<Rightarrow> cs_ok cs" and q: "queue_holds orch q A"
  shows "\<exists>q'. computeChangedLeavesByRoot orch chs i q = Inr q'
    \<and> queue_holds orch q' (A \<union> node_hits orch i (case chs of None \<Rightarrow> [] | Some cs \<Rightarrow> changes cs))"
proof -
  let ?L = "{..< length (leaves (leafStore orch))}"
  define dd where "dd = (case chs of None \<Rightarrow> False | Some cs \<Rightarrow> \<not> cs_empty cs \<and> \<not> representsSingleMove cs)"
  have bnd: "set (toCheckLeaves orch ! i) \<subseteq> ?L" "set (get_ref_default (containerToLeaves orch ! i) k []) \<subseteq> ?L"
      "set (get_ref_default (objectToLeaves orch ! i) k []) \<subseteq> ?L" "set (pair_leaves (containerObjectToLeaves orch ! i) ch) \<subseteq> ?L" for k ch
    using wf unfolding idx_wf_def by blast+
  have "queued orch ({}, q) A" using q by (simp add: queued_def)
  from processLeaves_ok[OF rl bnd(1) this, of dd] obtain st0 where st0: "foldE (processLeaf orch dd) (toCheckLeaves orch ! i) ({}, q) = Inr st0"
      "queued orch st0 (A \<union> (\<lambda>l. leaves (leafStore orch) ! l) ` set (toCheckLeaves orch ! i))" by blast
  show ?thesis
  proof (cases chs)
    case None
    then show ?thesis using st0 by (simp add: computeChangedLeavesByRoot_def dd_def node_hits_def hit_ids_def queued_def)
  next
    case (Some cs)
    then have ix: "index_of chContainer (changes cs) (containerToChanges cs)" "index_of chObject (changes cs) (objectToChanges cs)"
      using cs by (simp_all add: cs_ok_def)
    note stage1 = pair_stage[OF rl ix(1) bnd(4) st0(2), of dd]
    then obtain st1 B1 where st1: "foldE (\<lambda>(c, cchanges) st. case map_of (containerObjectToLeaves orch ! i) c of None \<Rightarrow> Inr st
        | Some mm \<Rightarrow> foldE (\<lambda>ch. foldE (processLeaf orch dd) (get_ref_default mm (chObject ch) [])) cchanges st) (containerToChanges cs) st0 = Inr st1"
      "queued orch st1 B1" and B1: "B1 = A \<union> (\<lambda>l. leaves (leafStore orch) ! l) ` set (toCheckLeaves orch ! i) \<union> (\<lambda>l. leaves (leafStore orch) ! l) ` (\<Union>ch \<in> set (changes cs). set (pair_leaves (containerObjectToLeaves orch ! i) ch))" by blast
    from filtered_stage[OF rl ix(1) bnd(2) st1(2), of dd] obtain st2 B2 where
      st2: "foldE (\<lambda>k. processFilteredLeaves orch dd (get_ref_default (containerToLeaves orch ! i) k []) (get_ref_default (containerToChanges cs) k [])) (map fst (containerToChanges cs)) st1 = Inr st2"
        "queued orch st2 B2" and B2: "B2 = B1 \<union> (\<lambda>l. leaves (leafStore orch) ! l) ` (\<Union>ch \<in> set (changes cs). {l \<in> set (get_ref_default (containerToLeaves orch ! i) (chContainer ch) []). passes (filters (leafStore orch) ! l) ch})" by blast
    from filtered_stage[OF rl ix(2) bnd(3) st2(2), of dd] obtain st3 where
      st3: "foldE (\<lambda>k. processFilteredLeaves orch dd (get_ref_default (objectToLeaves orch ! i) k []) (get_ref_default (objectToChanges cs) k [])) (map fst (objectToChanges cs)) st2 = Inr st3"
        "queued orch st3 (B2 \<union> (\<lambda>l. leaves (leafStore orch) ! l) ` (\<Union>ch \<in> set (changes cs). {l \<in> set (get_ref_default (objectToLeaves orch ! i) (chObject ch) []). passes (filters (leafStore orch) ! l) ch}))" by blast
    have "computeChangedLeavesByRoot orch chs i q = Inr (snd st3)" using st0(1) st1(1) st2(1) st3(1)
      unfolding computeChangedLeavesByRoot_def dd_def[symmetric] Let_def
      by (simp add: Some getContainersInChangeSet_def getObjectsInChangeSet_def getChangesByContainer_def getChangesByObject_def)
    moreover have "B2 \<union> (\<lambda>l. leaves (leafStore orch) ! l) ` (\<Union>ch \<in> set (changes cs). {l \<in> set (get_ref_default (objectToLeaves orch ! i) (chObject ch) []). passes (filters (leafStore orch) ! l) ch})
        = A \<union> node_hits orch i (changes cs)"
      unfolding B1 B2 node_hits_def hit_ids_def image_Un image_UN UN_Un_distrib by (simp only: Un_assoc)
    ultimately show ?thesis using st3(2) by (simp add: queued_def Some)
  qed
qed

lemma computeAllChangedLeaves_ok:
  assumes "ready_leaves orch" "idx_wf (length (roots orch)) orch" "case chs of None \<Rightarrow> True | Some cs \<Rightarrow> cs_ok cs" "queue_holds orch q A"
  shows "\<exists>q'. computeAllChangedLeaves orch chs q = Inr q'
    \<and> queue_holds orch q' (A \<union> (\<Union>i \<in> {..< length (roots orch)}. node_hits orch i (case chs of None \<Rightarrow> [] | Some cs \<Rightarrow> changes cs)))"
proof -
  have "\<exists>q'. foldE (computeChangedLeavesByRoot orch chs) [0 ..< length (roots orch)] q = Inr q'
    \<and> queue_holds orch q' (A \<union> (\<Union>i \<in> set [0 ..< length (roots orch)]. node_hits orch i (case chs of None \<Rightarrow> [] | Some cs \<Rightarrow> changes cs)))"
    by (rule foldE_grow[where P = "queue_holds orch", OF _ assms(4)]) (use computeChangedLeavesByRoot_ok[OF assms(1,2) _ assms(3)] in simp)
  then show ?thesis by (simp add: computeAllChangedLeaves_def atLeast_upt)
qed

section \<open>Properties\<close>

text \<open>An orchestrator whose index is complete for a description of its nodes.\<close>

definition indexed :: "(ExprId \<Rightarrow> AffectedByChange option result) \<Rightarrow> Orchestrator \<Rightarrow> bool" where
  "indexed isA orch \<longleftrightarrow> ready_leaves orch \<and> idx_wf (length (roots orch)) orch
     \<and> (\<forall>chs. (\<Union>i \<in> {..< length (roots orch)}. node_hits orch i chs) = affected_in isA chs (set (postOrder orch)))"

lemma indexed_query:
  assumes "indexed isA orch" "case chs of None \<Rightarrow> True | Some cs \<Rightarrow> cs_ok cs"
  shows "\<exists>q. computeAllChangedLeaves orch chs [] = Inr q
    \<and> queue_holds orch q (affected_in isA (case chs of None \<Rightarrow> [] | Some cs \<Rightarrow> changes cs) (set (postOrder orch)))"
proof -
  have "queue_holds orch [] {}" by (simp add: queue_holds_def)
  from computeAllChangedLeaves_ok[OF _ _ assms(2) this] assms(1) show ?thesis unfolding indexed_def by auto
qed

lemma orch_init_ok:
  assumes acyclic: "\<And>x c. c \<in> set (children (h x)) \<Longrightarrow> rank c < rank x" and fuel: "\<And>r. r \<in> set rs \<Longrightarrow> rank r < fuel"
    and described: "\<And>h'. same_shape h h' \<Longrightarrow> described (\<lambda>x. isA (h' x)) UNIV"
  shows "\<exists>h' orch. orch_init fuel isA rs F h = Inr (h', orch) \<and> same_shape h h' \<and> ordered_orch h orch \<and> roots orch = rs
    \<and> set rs \<subseteq> set (postOrder orch) \<and> indexed (\<lambda>x. isA (h' x)) orch
    \<and> (\<forall>c. set (parents_of orch c) = {x \<in> set (postOrder orch). c \<in> set (children (h x))})"
proof -
  let ?o = "newOrchestrator\<lparr>roots := rs\<rparr>"
  obtain h' o1 rng where ok: "initOrder fuel F h ?o = Inr (h', o1, rng)" "same_shape h h'" "ordered_orch h o1"
      "set rs \<subseteq> set (postOrder o1)" "root_ranges o1 rng" "length rng = Suc (length rs)" "reorders ?o o1"
    using initOrder_ok[of h rank ?o fuel F] acyclic fuel by (auto simp: newOrchestrator_def)
  note fields = reorders_fields[OF ok(7)]
  let ?p = "initParents h' o1"
  have "described (\<lambda>x. isA (h' x)) (set (postOrder ?p))" using described[OF ok(2)] by (simp add: described_def)
  moreover have "idx_wf 0 ?p" "leafStore ?p = \<lparr>leaves = [], filters = []\<rparr>" using fields by (simp_all add: idx_wf_def newOrchestrator_def)
  moreover have "root_ranges ?p rng" "length rng = Suc (length (roots ?p))" using ok(5,6) fields by (simp_all add: root_ranges_def)
  ultimately obtain orch where o: "initIndex (\<lambda>x. isA (h' x)) rng ?p = Inr orch" "idx_wf (length (roots ?p)) orch" "keeps_graph ?p orch"
      "set (leaves (leafStore orch)) \<subseteq> set (postOrder ?p)"
      "\<forall>chs. (\<Union>i \<in> {..< length (roots ?p)}. node_hits orch i chs) = affected_in (\<lambda>x. isA (h' x)) chs (set (postOrder ?p))"
    using initIndex_ok by blast
  have same: "postOrder orch = postOrder o1" "nodeToPriority orch = nodeToPriority o1" "nodeToParents orch = nodeToParents ?p" "roots orch = rs"
    using o(3) fields by (simp_all add: keeps_graph_def)
  have ord: "ordered_orch h orch" using ok(3) same by (simp add: ordered_orch_def)
  then have "ready_leaves orch" using o(2,4) same by (simp add: ready_leaves_def idx_wf_def ordered_orch_def)
  then have "indexed (\<lambda>x. isA (h' x)) orch" using o(2,5) same fields by (simp add: indexed_def)
  moreover have "set (parents_of orch c) = {x \<in> set (postOrder orch). c \<in> set (children (h x))}" for c
    using initParents_ok[of o1 h' c] fields same same_shape_children[OF ok(2)] by (simp add: parents_of_def newOrchestrator_def)
  moreover have "orch_init fuel isA rs F h = Inr (h', orch)" using ok(1) o(1) by (simp add: orch_init_def)
  ultimately show ?thesis using ok(2,4) ord same by auto
qed

text \<open>C13: The index of an orchestrator is exact. After the initialisation of an acyclic graph, a well-formed
  change set puts into the queue of ready nodes exactly the nodes of the graph whose
  description of the changes that affect them matches one of its changes: none is missed,
  through whichever root, table or filter it is reached, and none is queued needlessly;
  every queued node carries its priority.\<close>
theorem changed_leaves_exact:
  assumes "\<And>x c. c \<in> set (children (h x)) \<Longrightarrow> rank c < rank x" "\<And>r. r \<in> set rs \<Longrightarrow> rank r < fuel"
    and "\<And>h'. same_shape h h' \<Longrightarrow> described (\<lambda>x. isA (h' x)) UNIV" "cs_ok cs"
  shows "\<exists>h' orch q. orch_init fuel isA rs fixedContainers h = Inr (h', orch) \<and> computeAllChangedLeaves orch (Some cs) [] = Inr q
    \<and> snd ` set (bpq_items q) = {x \<in> set (postOrder orch). \<exists>a. isA (h' x) = Inr (Some a) \<and> hits a (changes cs)}
    \<and> (\<forall>(p, x) \<in> set (bpq_items q). priority orch x = Inr p)"
proof -
  obtain h' orch where ok: "orch_init fuel isA rs fixedContainers h = Inr (h', orch)" "indexed (\<lambda>x. isA (h' x)) orch"
    using orch_init_ok[where h = h and rank = rank and rs = rs and fuel = fuel and isA = isA and F = fixedContainers] assms(1-3) by blast
  obtain q where q: "computeAllChangedLeaves orch (Some cs) [] = Inr q"
      "queue_holds orch q (affected_in (\<lambda>x. isA (h' x)) (changes cs) (set (postOrder orch)))"
    using indexed_query[OF ok(2), of "Some cs"] assms(4) by auto
  have "\<forall>(p, x) \<in> set (bpq_items q). priority orch x = Inr p" using q(2) by (auto simp: queue_holds_def priority_def)
  then show ?thesis using ok(1) q by (auto simp: queue_holds_def affected_in_def)
qed

definition leaf_in_seven :: "unit Expression \<Rightarrow> AffectedByChange option result" where
  "leaf_in_seven e = (if children e = [] then bindE (mkAffectedByContainers (Some [7]) (Some (\<lambda>ch. chObject ch < 5))) (\<lambda>a. Inr (Some a)) else Inr None)"

theorem changed_leaves_exact_witness:
  "\<exists>h' orch q. orch_init 4 leaf_in_seven [2, 3] {} diamond = Inr (h', orch)
    \<and> computeAllChangedLeaves orch (Some (mkChangeSet [\<lparr>chObject = 1, chContainer = 7, chValue = 1\<rparr>])) [] = Inr q
    \<and> snd ` set (bpq_items q) = {x \<in> set (postOrder orch). children (h' x) = []}"
proof -
  have acyclic: "c < x" if "c \<in> set (children (diamond x))" for x c using that by (auto simp: diamond_def split: if_splits)
  have described: "described (\<lambda>x. leaf_in_seven (h' x)) UNIV" for h' :: "unit heap"
    by (auto simp: described_def leaf_in_seven_def mkAffectedByContainers_def well_described_def)
  have hit: "(\<exists>a. leaf_in_seven e = Inr (Some a) \<and> hits a [\<lparr>chObject = 1, chContainer = 7, chValue = 1\<rparr>]) \<longleftrightarrow> children e = []" for e
    by (auto simp: leaf_in_seven_def mkAffectedByContainers_def hits_def passes_def)
  let ?cs = "mkChangeSet [\<lparr>chObject = 1, chContainer = 7, chValue = 1\<rparr>]"
  have "\<exists>h' orch q. orch_init 4 leaf_in_seven [2, 3] {} diamond = Inr (h', orch) \<and> computeAllChangedLeaves orch (Some ?cs) [] = Inr q
      \<and> snd ` set (bpq_items q) = {x \<in> set (postOrder orch). \<exists>a. leaf_in_seven (h' x) = Inr (Some a) \<and> hits a (changes ?cs)}
      \<and> (\<forall>(p, x) \<in> set (bpq_items q). priority orch x = Inr p)"
  proof (rule changed_leaves_exact[where rank = id])
    show "id c < id x" if "c \<in> set (children (diamond x))" for x c using acyclic[OF that] by simp
    show "id r < 4" if "r \<in> set [2, 3]" for r :: nat using that by auto
    show "described (\<lambda>x. leaf_in_seven (h' x)) UNIV" for h' by (rule described)
    show "cs_ok ?cs" by (rule mkChangeSet_ok)
  qed
  then show ?thesis unfolding mkChangeSet_ok(2) hit by blast
qed

end
