(* ===== verification/Spec2Isabelle.thy ===== *)
theory Spec2Isabelle
  imports Tolerances Move_Filter Object_Store Hybrid_Map Segment_Vector Value_Queues Change_Sets Assignment_State Linear_Sum Order_Nodes
    Nth_Largest Value_Transforms Binary_Operations Threshold_Sum Changed_Leaves
begin

text \<open>
  Verification library for the rebalancer (\<open>src/algopt/rebalancer\<close>), a solver that assigns objects
  to containers. All paths below are relative to that directory.

  \<^bold>\<open>The program.\<close> A problem is a set of objects, a set of containers and a graph of
  expressions over the assignment of the objects. The local search proposes moves, each a
  set of changes of the assignment, evaluates the expressions after them and applies the
  best. Its core has five layers, which are the layers of this development.

  \<^enum> \<^emph>\<open>Containers\<close> (\<open>algopt_common\<close>): sets, maps and queues with special iteration orders or
    aggregates.
  \<^enum> \<^emph>\<open>State\<close> (\<open>solver/utils\<close>, \<open>solver/moves\<close>): the assignment with its indexes, the change sets
    that describe moves, and the filter of moves known to be invalid.
  \<^enum> \<^emph>\<open>Expressions\<close> (\<open>solver/expressions\<close>): the kinds of nodes, each with its own construction,
    evaluation from the changed children, application and bounds.
  \<^enum> \<^emph>\<open>The orchestrator\<close> (\<open>solver/expressions/Orchestrator.cpp\<close>): the order of the graph, the parents, and
    the index from changes to the nodes they affect directly.
  \<^enum> \<^emph>\<open>Tolerances\<close> (\<open>algopt_common/Precision.cpp\<close>): comparison of doubles, used by all of them.

  \<^bold>\<open>Conventions\<close> (\<open>Rebalancer_Prelude\<close>). A fallible operation returns \<open>error + 'a\<close>; every
  \<open>throw\<close>, failed \<open>CHECK\<close>, \<open>at()\<close> of a missing key and access outside of an array is a value of
  \<open>error\<close>. Doubles are exact reals, so the theorems do not speak of rounding; infinities and
  NaN are written out where a result depends on them (\<open>Binary_Operations\<close>). Blocks of bit sets
  and the hash of object ids are 64-bit words. Objects that the code reaches through
  pointers have identifiers, and a heap maps identifiers to expressions. Hash containers are
  sets or maps; where their iteration order matters it is a list or a parameter.

  \<^bold>\<open>Containers.\<close>
  \<^item> \<open>Bit_Set\<close>: \<open>DynamicBitSet.h\<close>. Every operation on every branch, the enumeration of the set bits,
    and \<open>atomicSet\<close> as a step relation of concurrent threads with stale loads: all interleavings
    end in the same set and none gets stuck.
  \<^item> \<open>Std_Containers\<close>, \<open>Access_Ordered\<close>: \<open>std::set\<close> with a comparator, and the sets that resume
    iteration where the last loop stopped (\<open>AccessOrderedSetBase.h\<close> and its two subclasses).
  \<^item> \<open>Aggregate_Alist\<close>, \<open>Avl_Map\<close>, \<open>Heap_Index\<close>, \<open>Fixed_Map\<close>, \<open>Hybrid_Map\<close>, \<open>Segment_Vector\<close>:
    \<open>AssociativeMap.h\<close>, \<open>AssociativeFixedMap.h\<close>, \<open>AssociativeHybridMap.h\<close> and \<open>AssociativeVector.h\<close>.
    They refine sorted association lists (or lists) with an aggregate; the locale
    \<open>comm_aggregate\<close> states what they need of the operation. The height of the AVL tree is
    logarithmic; array accesses never leave the arrays.
  \<^item> \<open>Value_Queues\<close>: \<open>ValueSortedMap.h\<close> and \<open>BucketedPriorityQueue.h\<close> over the locale
    \<open>strict_order_on\<close>; the queue is first-in first-out inside one priority.

  \<^bold>\<open>State.\<close>
  \<^item> \<open>Object_Store\<close>: the four representations of the objects of a container implement one set
    (locales \<open>index_set\<close>, \<open>dynamic_set\<close>), and the hash that breaks ties is a bijection.
  \<^item> \<open>Indexed_Assignment\<close>, \<open>Assignment_State\<close>: \<open>IndexedAssignment.h\<close> and \<open>Assignment.{h,cpp}\<close>. Every
    sequence of moves and index constructions keeps the tables consistent; errors on every
    unknown key.
  \<^item> \<open>Change_Sets\<close>: \<open>Change\<close>, \<open>ChangeSet\<close> and \<open>BoundConstraints\<close>.
  \<^item> \<open>Move_Filter\<close>: \<open>InvalidMoveFilter.{h,cpp}\<close> refines a set of pairs.

  \<^bold>\<open>Expressions.\<close> \<open>Expression_Base\<close> has the members of the base class. \<open>Linear_Sum\<close>, \<open>Order_Nodes\<close>
  (\<open>Max\<close>, \<open>AnyPositive\<close>), \<open>Nth_Largest\<close> (with \<open>MapUnion\<close>), \<open>Value_Transforms\<close> (\<open>Ceil\<close>, \<open>Square\<close>,
  \<open>Step\<close>, \<open>Log\<close>, \<open>Rectangle\<close>, \<open>Piecewise\<close>, \<open>BoundsOverride\<close>), \<open>Binary_Operations\<close> (products,
  quotients) and \<open>Threshold_Sum\<close> model one or several kinds each. For the kinds with internal state a
  predicate relates the state to the values of the children; full application establishes
  it, partial application preserves it from the changed children alone, evaluation predicts
  the value that application gives, and the bounds contain it.

  \<^bold>\<open>The orchestrator.\<close> \<open>Graph_Order\<close> has the depth-first post order, the priorities, the fixed
  nodes and the table of parents. The recursion of the code has no bound other than the
  graph; the model uses fuel, and the theorem shows that any fuel above the rank of the roots in an
  acyclic graph is enough. \<open>Change_Index\<close> has the descriptions nodes give of the
  changes that affect them and the tables built from them, and \<open>Changed_Leaves\<close> the query for
  a change set, which queues exactly the affected nodes.

  \<^bold>\<open>Not modelled.\<close> The linear programming layer and the optimal solver, whose behaviour is
  that of external solvers; the move types and the stages of the local search, which are driven by
  clocks, random numbers and thread pools; the incremental propagation through the queue, the
  lookups over object tables and the routing expressions; entities, materializer and
  interface, which convert generated thrift types (what the solver reads from
  them is a parameter of the model); explorer, profiler, bindings, logging, digests and LP
  encodings of expressions, which are output only. Rounding of doubles and memory management are
  abstracted.
\<close>

end
